(* ===== verification/Prelude.thy ===== *)
theory Prelude
  imports Main "HOL-Library.Word"
begin

text \<open>
  Shared vocabulary of the development: the exceptions the C++ code throws, the result type of
  fallible operations, the decimal text of integers as \<open>operator<<\<close> writes it and \<open>std::stoi\<close> reads it,
  and list lemmas that several components use.
\<close>

section \<open>Collections of rules\<close>

named_theorems result_simps \<open>rewriting of results of fallible operations\<close>
named_theorems dev_defs \<open>definitions a component's automation unfolds\<close>

section \<open>Exceptions and results\<close>

text \<open>
  \<open>AT_ERROR\<close>, \<open>AT_CHECK\<close> and \<open>AT_ASSERT\<close> throw \<open>c10::Error\<close>; \<open>AT_INDEX_ERROR\<close> throws
  \<open>c10::IndexError\<close>; some code throws \<open>std::runtime_error\<close>, \<open>std::invalid_argument\<close>,
  \<open>std::out_of_range\<close> or \<open>std::length_error\<close> itself; \<open>torch::data::WorkerException\<close> wraps the exception of a worker
  thread; \<open>Terminated\<close> is the call of \<open>std::terminate\<close> when an exception leaves a \<open>noexcept\<close> function.
  The message is kept without its formatted arguments.
  \<open>UndefinedBehaviour\<close> marks the runs to which the C++ standard gives no meaning, such as a read
  outside an array; no operation of the model catches it.
\<close>

datatype exn =
    C10Error string
  | IndexError string
  | RuntimeError string
  | InvalidArgument
  | OutOfRange
  | LengthError
  | WorkerException exn
  | Terminated
  | UndefinedBehaviour

type_synonym 'a result = "exn + 'a"

definition rbind :: "'a result \<Rightarrow> ('a \<Rightarrow> 'b result) \<Rightarrow> 'b result" where
  "rbind m f = (case m of Inl e \<Rightarrow> Inl e | Inr x \<Rightarrow> f x)"

definition AT_CHECK :: "bool \<Rightarrow> string \<Rightarrow> unit result" where
  "AT_CHECK c msg = (if c then Inr () else Inl (C10Error msg))"

lemma rbind_simps [simp, result_simps]:
  "rbind (Inl e) f = Inl e"
  "rbind (Inr x) f = f x"
  by (simp_all add: rbind_def)

lemma rbind_eq_Inr [result_simps]: "rbind m f = Inr y \<longleftrightarrow> (\<exists>x. m = Inr x \<and> f x = Inr y)"
  by (cases m) auto

lemma AT_CHECK_Inr [simp, result_simps]: "AT_CHECK c msg = Inr u \<longleftrightarrow> c"
  by (simp add: AT_CHECK_def)

lemma AT_CHECK_True [simp, result_simps]: "AT_CHECK True msg = Inr ()"
  by (simp add: AT_CHECK_def)

lemma AT_CHECK_False [simp, result_simps]: "AT_CHECK False msg = Inl (C10Error msg)"
  by (simp add: AT_CHECK_def)

lemma result_ex_iff: "(\<exists>y. r = Inr y) \<longleftrightarrow> (\<nexists>e. r = Inl e)"
  by (cases r) auto

section \<open>Words\<close>

lemma word_eq_of_nat: "unat (w :: 'a :: len word) = n \<Longrightarrow> w = of_nat n"
  by auto

section \<open>64-bit arithmetic\<close>

text \<open>\<open>size_t\<close> values are natural numbers below \<open>2 ^ 64\<close>; each operation writes its wrap-around out.\<close>

definition add64 :: "nat \<Rightarrow> nat \<Rightarrow> nat" where
  "add64 a b = (a + b) mod 2 ^ 64"

definition sub64 :: "nat \<Rightarrow> nat \<Rightarrow> nat" where
  "sub64 a b = (a + 2 ^ 64 - b) mod 2 ^ 64"

definition mul64 :: "nat \<Rightarrow> nat \<Rightarrow> nat" where
  "mul64 a b = (a * b) mod 2 ^ 64"

text \<open>The conversions between \<open>size_t\<close> and \<open>int64_t\<close>.\<close>

text \<open>Signed results of \<open>int64_t\<close> and \<open>int32_t\<close> arithmetic, with the wrap-around of two's complement.\<close>

definition wrap64 :: "int \<Rightarrow> int" where
  "wrap64 x = signed_take_bit 63 x"

definition int32_of :: "int \<Rightarrow> int" where
  "int32_of x = signed_take_bit 31 x"

lemma wrap64_id: "- (2 ^ 63) \<le> x \<Longrightarrow> x < 2 ^ 63 \<Longrightarrow> wrap64 x = x"
  by (simp add: wrap64_def signed_take_bit_int_eq_self)

lemma int32_of_id: "- (2 ^ 31) \<le> x \<Longrightarrow> x < 2 ^ 31 \<Longrightarrow> int32_of x = x"
  by (simp add: int32_of_def signed_take_bit_int_eq_self)

lemma wrap64_ring [simp]:
  "wrap64 (wrap64 a) = wrap64 a"
  "wrap64 (wrap64 a * b) = wrap64 (a * b)" "wrap64 (a * wrap64 b) = wrap64 (a * b)"
  "wrap64 (wrap64 a + b) = wrap64 (a + b)" "wrap64 (a + wrap64 b) = wrap64 (a + b)"
proof -
  have m: "wrap64 (wrap64 x * wrap64 y) = wrap64 (x * y)" for x y
    unfolding wrap64_def by (rule signed_take_bit_mult)
  have p: "wrap64 (wrap64 x + wrap64 y) = wrap64 (x + y)" for x y
    unfolding wrap64_def by (rule signed_take_bit_add)
  show i: "wrap64 (wrap64 a) = wrap64 a" for a by (simp add: wrap64_def)
  show "wrap64 (wrap64 a * b) = wrap64 (a * b)" using m [of "wrap64 a" b] m [of a b] i by metis
  show "wrap64 (a * wrap64 b) = wrap64 (a * b)" using m [of a "wrap64 b"] m [of a b] i by metis
  show "wrap64 (wrap64 a + b) = wrap64 (a + b)" using p [of "wrap64 a" b] p [of a b] i by metis
  show "wrap64 (a + wrap64 b) = wrap64 (a + b)" using p [of a "wrap64 b"] p [of a b] i by metis
qed

definition int64_of :: "nat \<Rightarrow> int" where
  "int64_of n = (if n mod 2 ^ 64 < 2 ^ 63 then int (n mod 2 ^ 64) else int (n mod 2 ^ 64) - 2 ^ 64)"

definition size_t_of :: "int \<Rightarrow> nat" where
  "size_t_of i = nat (i mod 2 ^ 64)"

lemma add64_eq [simp]: "a + b < 2 ^ 64 \<Longrightarrow> add64 a b = a + b"
  by (simp add: add64_def)

lemma mul64_eq [simp]: "a * b < 2 ^ 64 \<Longrightarrow> mul64 a b = a * b"
  by (simp add: mul64_def)

lemma sub64_eq [simp]: "b \<le> a \<Longrightarrow> a < 2 ^ 64 \<Longrightarrow> sub64 a b = a - b"
proof -
  assume a: "b \<le> a" "a < 2 ^ 64"
  then have "a + 2 ^ 64 - b = (a - b) + 2 ^ 64" by simp
  then have "sub64 a b = (a - b) mod 2 ^ 64" unfolding sub64_def by (simp only: mod_add_self2)
  then show ?thesis using a by simp
qed

lemma int64_of_small: "n < 2 ^ 63 \<Longrightarrow> int64_of n = int n"
  by (simp add: int64_of_def)

lemma size_t_of_small: "0 \<le> i \<Longrightarrow> i < 2 ^ 64 \<Longrightarrow> size_t_of i = nat i"
  by (simp add: size_t_of_def)

lemma size_t_int64 [simp]: "n < 2 ^ 64 \<Longrightarrow> size_t_of (int64_of n) = n"
  by (simp add: int64_of_def size_t_of_def)

section \<open>Decimal text of integers\<close>

definition digit_char :: "nat \<Rightarrow> char" where
  "digit_char d = char_of (48 + d)"

definition is_digit :: "char \<Rightarrow> bool" where
  "is_digit c \<longleftrightarrow> 48 \<le> (of_char c :: nat) \<and> (of_char c :: nat) \<le> 57"

definition digit_val :: "char \<Rightarrow> nat" where
  "digit_val c = (of_char c :: nat) - 48"

fun show_nat :: "nat \<Rightarrow> string" where
  "show_nat n = (if n < 10 then [digit_char n] else show_nat (n div 10) @ [digit_char (n mod 10)])"

declare show_nat.simps [simp del]

definition show_int :: "int \<Rightarrow> string" where
  "show_int i = (if i < 0 then CHR ''-'' # show_nat (nat (- i)) else show_nat (nat i))"

definition read_nat :: "string \<Rightarrow> nat" where
  "read_nat cs = foldl (\<lambda>a c. 10 * a + digit_val c) 0 cs"

lemma of_char_digit_char: "d < 10 \<Longrightarrow> (of_char (digit_char d) :: nat) = 48 + d"
  unfolding digit_char_def by (subst of_char_of) (simp add: take_bit_eq_mod)

lemma digit_chars:
  "digit_char 0 = CHR ''0''" "digit_char 1 = CHR ''1''" "digit_char (Suc 0) = CHR ''1''"
  "digit_char 2 = CHR ''2''" "digit_char 3 = CHR ''3''" "digit_char 4 = CHR ''4''"
  "digit_char 5 = CHR ''5''" "digit_char 6 = CHR ''6''" "digit_char 7 = CHR ''7''"
  "digit_char 8 = CHR ''8''" "digit_char 9 = CHR ''9''"
  by (simp_all add: digit_char_def char_of_def bit_0)

lemma is_digit_digit_char [simp]: "d < 10 \<Longrightarrow> is_digit (digit_char d)"
  by (simp add: is_digit_def of_char_digit_char)

lemma digit_val_digit_char [simp]: "d < 10 \<Longrightarrow> digit_val (digit_char d) = d"
  by (simp add: digit_val_def of_char_digit_char)

lemma show_nat_digits: "list_all is_digit (show_nat n)"
proof (induction n rule: show_nat.induct)
  case (1 n)
  then show ?case
    by (cases "n < 10") (simp_all add: show_nat.simps [of n])
qed

lemma show_nat_not_Nil [simp]: "show_nat n \<noteq> []"
  by (subst show_nat.simps) simp

lemma read_show_nat [simp]: "read_nat (show_nat n) = n"
proof (induction n rule: show_nat.induct)
  case (1 n)
  show ?case
  proof (cases "n < 10")
    case True
    then show ?thesis by (simp add: show_nat.simps [of n] read_nat_def)
  next
    case False
    have "read_nat (show_nat (n div 10) @ [digit_char (n mod 10)])
        = 10 * read_nat (show_nat (n div 10)) + n mod 10"
      by (simp add: read_nat_def)
    with 1 False show ?thesis by (simp add: show_nat.simps [of n])
  qed
qed

lemma takeWhile_digits_show_nat:
  "\<not> (case rest of [] \<Rightarrow> False | c # _ \<Rightarrow> is_digit c) \<Longrightarrow>
     takeWhile is_digit (show_nat n @ rest) = show_nat n"
proof -
  assume "\<not> (case rest of [] \<Rightarrow> False | c # _ \<Rightarrow> is_digit c)"
  then have "takeWhile is_digit rest = []" by (cases rest) auto
  moreover have "takeWhile is_digit (show_nat n @ rest) = show_nat n @ takeWhile is_digit rest"
    using show_nat_digits [of n] by (simp add: list_all_iff)
  ultimately show ?thesis by simp
qed

text \<open>
  \<open>std::stoi\<close>: \<open>strtol\<close> in base 10 (leading white space, an optional sign, then as many digits as
  there are), \<open>std::invalid_argument\<close> when there is no digit, \<open>std::out_of_range\<close> when the value does
  not fit in \<open>int\<close>; what follows the digits is ignored.
\<close>

definition is_space :: "char \<Rightarrow> bool" where
  "is_space c \<longleftrightarrow> (of_char c :: nat) \<in> {32, 9, 10, 11, 12, 13}"

definition stoi :: "string \<Rightarrow> int result" where
  "stoi str =
     (let s = dropWhile is_space str;
          neg = (case s of [] \<Rightarrow> False | c # _ \<Rightarrow> c = CHR ''-'');
          t = (case s of [] \<Rightarrow> [] | c # r \<Rightarrow> if c = CHR ''-'' \<or> c = CHR ''+'' then r else s);
          ds = takeWhile is_digit t;
          v = (if neg then - int (read_nat ds) else int (read_nat ds))
      in if ds = [] then Inl InvalidArgument
         else if v < - (2 ^ 31) \<or> 2 ^ 31 \<le> v then Inl OutOfRange
         else Inr v)"

lemma is_digit_facts: "is_digit c \<Longrightarrow> \<not> is_space c \<and> c \<noteq> CHR ''-'' \<and> c \<noteq> CHR ''+'' \<and> c \<noteq> CHR '':''"
  by (auto simp: is_digit_def is_space_def)

lemma stoi_show_nat:
  assumes "n < 2 ^ 31"
  shows "stoi (show_nat n) = Inr (int n)"
proof -
  obtain c cs where c: "show_nat n = c # cs" by (cases "show_nat n") auto
  then have "is_digit c" using show_nat_digits [of n] by simp
  note d = is_digit_facts [OF this]
  have t: "takeWhile is_digit (show_nat n) = show_nat n"
    using takeWhile_digits_show_nat [of "[]" n] by simp
  have "dropWhile is_space (show_nat n) = show_nat n" using c d by simp
  then have "stoi (show_nat n) =
      (if int n < - (2 ^ 31) \<or> 2 ^ 31 \<le> int n then Inl OutOfRange else Inr (int n))"
    unfolding stoi_def Let_def using c d t read_show_nat [of n] by simp
  also have "\<dots> = Inr (int n)" using assms by simp
  finally show ?thesis .
qed

end
