(* ===== verification/Device.thy ===== *)
theory Device
  imports Prelude
begin

text \<open>
  Devices and streams: \<open>c10/core/DeviceType.h\<close>, \<open>DeviceType.cpp\<close>, \<open>Device.h\<close>, \<open>Device.cpp\<close>,
  \<open>Stream.h\<close> and \<open>Stream.cpp\<close>. An enumeration with a fixed underlying type may hold a value that is not an
  enumerator (the note above \<open>isValidDeviceType\<close> says so), so \<open>DeviceType\<close> has one constructor per
  enumerator and one for the remaining 16-bit values. \<open>DeviceIndex\<close> is \<open>int16_t\<close>, \<open>StreamId\<close> is
  \<open>int32_t\<close>: words read with \<open>sint\<close>.
\<close>

unbundle bit_operations_syntax

section \<open>Data\<close>

datatype DeviceType =
    CPU | CUDA | MKLDNN | OPENGL | OPENCL | IDEEP | HIP | FPGA | MSNPU | XLA
  | COMPILE_TIME_MAX_DEVICE_TYPES | ONLY_FOR_TEST
  | OtherDeviceType "16 word"

type_synonym DeviceIndex = "16 word"
type_synonym StreamId = "32 word"

record Device =
  dev_type :: DeviceType
  dev_index :: DeviceIndex

record Stream =
  st_device :: Device
  st_id :: StreamId

text \<open>The underlying value of an enumerator and the cast from it.\<close>

fun DeviceType_int16 :: "DeviceType \<Rightarrow> 16 word" where
  "DeviceType_int16 CPU = 0"
| "DeviceType_int16 CUDA = 1"
| "DeviceType_int16 MKLDNN = 2"
| "DeviceType_int16 OPENGL = 3"
| "DeviceType_int16 OPENCL = 4"
| "DeviceType_int16 IDEEP = 5"
| "DeviceType_int16 HIP = 6"
| "DeviceType_int16 FPGA = 7"
| "DeviceType_int16 MSNPU = 8"
| "DeviceType_int16 XLA = 9"
| "DeviceType_int16 COMPILE_TIME_MAX_DEVICE_TYPES = 10"
| "DeviceType_int16 ONLY_FOR_TEST = 20901"
| "DeviceType_int16 (OtherDeviceType v) = v"

definition DeviceType_of_int16 :: "16 word \<Rightarrow> DeviceType" where
  "DeviceType_of_int16 v =
     (if v = 0 then CPU else if v = 1 then CUDA else if v = 2 then MKLDNN
      else if v = 3 then OPENGL else if v = 4 then OPENCL else if v = 5 then IDEEP
      else if v = 6 then HIP else if v = 7 then FPGA else if v = 8 then MSNPU
      else if v = 9 then XLA else if v = 10 then COMPILE_TIME_MAX_DEVICE_TYPES
      else if v = 20901 then ONLY_FOR_TEST else OtherDeviceType v)"

section \<open>Operations on device types\<close>

fun DeviceTypeName :: "DeviceType \<Rightarrow> bool \<Rightarrow> string result" where
  "DeviceTypeName CPU lower_case = Inr (if lower_case then ''cpu'' else ''CPU'')"
| "DeviceTypeName CUDA lower_case = Inr (if lower_case then ''cuda'' else ''CUDA'')"
| "DeviceTypeName OPENGL lower_case = Inr (if lower_case then ''opengl'' else ''OPENGL'')"
| "DeviceTypeName OPENCL lower_case = Inr (if lower_case then ''opencl'' else ''OPENCL'')"
| "DeviceTypeName MKLDNN lower_case = Inr (if lower_case then ''mkldnn'' else ''MKLDNN'')"
| "DeviceTypeName IDEEP lower_case = Inr (if lower_case then ''ideep'' else ''IDEEP'')"
| "DeviceTypeName HIP lower_case = Inr (if lower_case then ''hip'' else ''HIP'')"
| "DeviceTypeName FPGA lower_case = Inr (if lower_case then ''fpga'' else ''FPGA'')"
| "DeviceTypeName MSNPU lower_case = Inr (if lower_case then ''msnpu'' else ''MSNPU'')"
| "DeviceTypeName XLA lower_case = Inr (if lower_case then ''xla'' else ''XLA'')"
| "DeviceTypeName _ lower_case = Inl (C10Error ''Unknown device: '')"

fun isValidDeviceType :: "DeviceType \<Rightarrow> bool" where
  "isValidDeviceType CPU = True"
| "isValidDeviceType CUDA = True"
| "isValidDeviceType OPENGL = True"
| "isValidDeviceType OPENCL = True"
| "isValidDeviceType MKLDNN = True"
| "isValidDeviceType IDEEP = True"
| "isValidDeviceType HIP = True"
| "isValidDeviceType FPGA = True"
| "isValidDeviceType MSNPU = True"
| "isValidDeviceType XLA = True"
| "isValidDeviceType _ = False"

section \<open>Operations on devices\<close>

definition has_index :: "Device \<Rightarrow> bool" where
  "has_index d \<longleftrightarrow> dev_index d \<noteq> -1"

definition is_cuda :: "Device \<Rightarrow> bool" where
  "is_cuda d \<longleftrightarrow> dev_type d = CUDA"

definition is_cpu :: "Device \<Rightarrow> bool" where
  "is_cpu d \<longleftrightarrow> dev_type d = CPU"

definition set_index :: "Device \<Rightarrow> DeviceIndex \<Rightarrow> Device" where
  "set_index d i = d\<lparr>dev_index := i\<rparr>"

definition validate :: "Device \<Rightarrow> unit result" where
  "validate d =
     rbind (AT_CHECK (dev_index d = -1 \<or> 0 \<le> sint (dev_index d)) ''Device index must be -1 or non-negative, got '')
       (\<lambda>_. AT_CHECK (\<not> is_cpu d \<or> sint (dev_index d) \<le> 0) ''CPU device index must be -1 or zero, got '')"

definition mk_Device :: "DeviceType \<Rightarrow> DeviceIndex \<Rightarrow> Device result" where
  "mk_Device t i = (let d = \<lparr>dev_type = t, dev_index = i\<rparr> in rbind (validate d) (\<lambda>_. Inr d))"

definition device_types :: "(string \<times> DeviceType) list" where
  "device_types =
     [(''cpu'', CPU), (''cuda'', CUDA), (''mkldnn'', MKLDNN), (''opengl'', OPENGL),
      (''opencl'', OPENCL), (''ideep'', IDEEP), (''hip'', HIP), (''msnpu'', MSNPU), (''xla'', XLA)]"

definition parse_type :: "string \<Rightarrow> DeviceType result" where
  "parse_type device_string =
     (case find (\<lambda>p. fst p = device_string) device_types of
        Some p \<Rightarrow> Inr (snd p)
      | None \<Rightarrow> Inl (C10Error ''Expected one of cpu, cuda, mkldnn, opengl, opencl, ideep, hip, msnpu device type at start of device string: ''))"

definition Device_of_string :: "string \<Rightarrow> Device result" where
  "Device_of_string device_string =
     rbind (AT_CHECK (device_string \<noteq> []) ''Device string must not be empty'') (\<lambda>_.
       let s = takeWhile (\<lambda>c. c \<noteq> CHR '':'') device_string in
       if s = device_string then
         rbind (parse_type device_string) (\<lambda>t.
           let d = \<lparr>dev_type = t, dev_index = -1\<rparr> in rbind (validate d) (\<lambda>_. Inr d))
       else
         rbind (AT_CHECK (s \<noteq> []) ''Device string must not be empty'') (\<lambda>_.
         rbind (parse_type s) (\<lambda>t.
           case stoi (drop (length s + 1) device_string) of
             Inl _ \<Rightarrow> Inl (C10Error ''Could not parse device index '')
           | Inr n \<Rightarrow>
               let d = \<lparr>dev_type = t, dev_index = word_of_int n\<rparr> in
               rbind (AT_CHECK (0 \<le> sint (dev_index d)) ''Device index must be non-negative, got '') (\<lambda>_.
               rbind (validate d) (\<lambda>_. Inr d)))))"

definition Device_to_string :: "Device \<Rightarrow> string result" where
  "Device_to_string d =
     rbind (DeviceTypeName (dev_type d) True) (\<lambda>n.
       Inr (if has_index d then n @ '':'' @ show_int (sint (dev_index d)) else n))"

definition Device_hash_bits :: "Device \<Rightarrow> 32 word" where
  "Device_hash_bits d =
     push_bit 16 (ucast (DeviceType_int16 (dev_type d))) OR ucast (dev_index d)"

section \<open>Operations on streams\<close>

definition default_Stream :: "Device \<Rightarrow> Stream" where
  "default_Stream d = \<lparr>st_device = d, st_id = 0\<rparr>"

definition pack :: "Stream \<Rightarrow> 64 word" where
  "pack s =
     push_bit 48 (ucast (DeviceType_int16 (dev_type (st_device s))))
       OR push_bit 32 (ucast (dev_index (st_device s)))
       OR ucast (st_id s)"

text \<open>
  The casts to the signed types followed by the 64-bit masks sign-extend and mask again, and the
  masked values are converted back to \<open>int32_t\<close> and \<open>int16_t\<close> in the constructors' arguments.
\<close>

definition unpack :: "64 word \<Rightarrow> Stream result" where
  "unpack bits =
     (let stream_id = scast (ucast bits :: 32 word) AND (0xFFFFFFFF :: 64 word);
          bits1 = drop_bit 32 bits;
          device_index = scast (ucast bits1 :: 16 word) AND (0xFFFF :: 64 word);
          bits2 = drop_bit 16 bits1;
          device_type = DeviceType_of_int16 (ucast bits2)
      in rbind (AT_CHECK (isValidDeviceType device_type) '''') (\<lambda>_.
         rbind (mk_Device device_type (ucast device_index)) (\<lambda>d.
           Inr \<lparr>st_device = d, st_id = ucast stream_id\<rparr>)))"

definition Stream_to_string :: "Stream \<Rightarrow> string result" where
  "Stream_to_string s =
     rbind (Device_to_string (st_device s)) (\<lambda>d.
       Inr (''stream '' @ show_int (sint (st_id s)) @ '' on device '' @ d))"

section \<open>Invariant\<close>

text \<open>The two constraints of the comment on \<open>struct Device\<close>, as \<open>validate\<close> enforces them.\<close>

definition Device_valid :: "Device \<Rightarrow> bool" where
  "Device_valid d \<longleftrightarrow>
     (dev_index d = -1 \<or> 0 \<le> sint (dev_index d)) \<and> (dev_type d = CPU \<longrightarrow> sint (dev_index d) \<le> 0)"

lemma validate_iff: "validate d = Inr () \<longleftrightarrow> Device_valid d"
  by (auto simp: validate_def Device_valid_def is_cpu_def result_simps)

lemma validate_cases: "validate d = Inr () \<or> (\<exists>e. validate d = Inl e)"
  by (cases "validate d") auto

lemma mk_Device_iff: "mk_Device t i = Inr d \<longleftrightarrow> d = \<lparr>dev_type = t, dev_index = i\<rparr> \<and> Device_valid d"
  by (auto simp: mk_Device_def Let_def rbind_eq_Inr validate_iff)

lemma parse_type_Name:
  "isValidDeviceType t \<Longrightarrow> t \<noteq> FPGA \<Longrightarrow> \<exists>n. DeviceTypeName t True = Inr n \<and> n \<noteq> [] \<and>
     CHR '':'' \<notin> set n \<and> parse_type n = Inr t"
  by (cases t) (simp_all add: parse_type_def device_types_def)

lemma takeWhile_neq_id: "x \<notin> set xs \<Longrightarrow> takeWhile (\<lambda>c. c \<noteq> x) xs = xs"
  by (auto simp: takeWhile_eq_all_conv)

lemma takeWhile_neq_append: "x \<notin> set xs \<Longrightarrow> takeWhile (\<lambda>c. c \<noteq> x) (xs @ x # ys) = xs"
  by (induction xs) auto

lemma sint16_bound: "sint (i :: 16 word) < 2 ^ 15"
  using sint_lt [of i] by simp

lemma sint_of_int_nonneg16: "0 \<le> sint (word_of_int (int n) :: 16 word) \<longleftrightarrow> n mod 65536 < 32768"
proof -
  have "sint (word_of_int (int n) :: 16 word) = signed_take_bit 15 (int n)"
    unfolding signed_of_int by simp
  also have "0 \<le> signed_take_bit 15 (int n) \<longleftrightarrow> \<not> bit (int n) 15"
    by (simp add: signed_take_bit_nonnegative_iff)
  also have "\<not> bit (int n) 15 \<longleftrightarrow> n mod 65536 < 32768"
  proof -
    have e: "n mod 65536 = 32768 * (n div 32768 mod 2) + n mod 32768"
      using mod_mult2_eq [of n 32768 2] by simp
    have "bit (int n) 15 \<longleftrightarrow> odd (n div 32768)"
      by (simp add: bit_iff_odd flip: zdiv_int) (metis even_of_nat of_nat_numeral zdiv_int)
    moreover have "n mod 32768 < 32768" by simp
    ultimately show ?thesis using e by (cases "even (n div 32768)") (auto simp: odd_iff_mod_2_eq_one)
  qed
  finally show ?thesis .
qed

lemma Device_of_string_no_index:
  assumes "n \<noteq> []" "CHR '':'' \<notin> set n" "parse_type n = Inr t"
  shows "Device_of_string n = mk_Device t (-1)"
  using assms by (simp add: Device_of_string_def mk_Device_def takeWhile_neq_id Let_def)

lemma Device_of_string_index:
  assumes "n \<noteq> []" "CHR '':'' \<notin> set n" "parse_type n = Inr t" "0 \<le> sint i"
  shows "Device_of_string (n @ '':'' @ show_int (sint i)) = mk_Device t i"
proof -
  have "nat (sint i) < 2 ^ 31" using sint16_bound [of i] by simp
  then have "stoi (show_int (sint i)) = Inr (sint i)"
    using assms(4) stoi_show_nat [of "nat (sint i)"] by (simp add: show_int_def)
  then show ?thesis
    using assms takeWhile_neq_append [of "CHR '':''" n]
    by (simp add: Device_of_string_def mk_Device_def Let_def)
qed

lemma Device_to_string_indexed:
  "DeviceTypeName (dev_type d) True = Inr n \<Longrightarrow> dev_index d \<noteq> -1 \<Longrightarrow>
     Device_to_string d = Inr (n @ '':'' @ show_int (sint (dev_index d)))"
  by (simp add: Device_to_string_def has_index_def)

lemma Device_to_string_default:
  "DeviceTypeName (dev_type d) True = Inr n \<Longrightarrow> dev_index d = -1 \<Longrightarrow> Device_to_string d = Inr n"
  by (simp add: Device_to_string_def has_index_def)

lemma Device_print_parse:
  assumes "Device_valid d" "isValidDeviceType (dev_type d)" "dev_type d \<noteq> FPGA"
  shows "rbind (Device_to_string d) Device_of_string = Inr d"
proof -
  from parse_type_Name [OF assms(2,3)] obtain n where n: "DeviceTypeName (dev_type d) True = Inr n"
    "n \<noteq> []" "CHR '':'' \<notin> set n" "parse_type n = Inr (dev_type d)" by blast
  have d: "mk_Device (dev_type d) (dev_index d) = Inr d"
    using assms(1) by (simp add: mk_Device_iff)
  show ?thesis
  proof (cases "dev_index d = -1")
    case True
    with n d show ?thesis
      by (simp add: Device_to_string_default Device_of_string_no_index)
  next
    case False
    with assms(1) have "0 \<le> sint (dev_index d)" by (simp add: Device_valid_def)
    with n False d show ?thesis
      using Device_of_string_index [of n "dev_type d" "dev_index d"] by (simp add: Device_to_string_indexed)
  qed
qed

lemma Device_of_string_valid: "Device_of_string s = Inr d \<Longrightarrow> Device_valid d"
  by (cases "stoi (drop (length (takeWhile (\<lambda>c. c \<noteq> CHR '':'') s) + 1) s)")
    (auto simp: Device_of_string_def Let_def rbind_eq_Inr validate_iff split: if_split_asm)

section \<open>Packing\<close>

lemma DeviceType_of_int16_inverse [simp]: "DeviceType_int16 (DeviceType_of_int16 v) = v"
  by (simp add: DeviceType_of_int16_def)

lemma DeviceType_int16_inverse:
  "isValidDeviceType t \<Longrightarrow> DeviceType_of_int16 (DeviceType_int16 t) = t"
  by (cases t) (simp_all add: DeviceType_of_int16_def)

lemma bit_out_of_range:
  "\<not> bit (v :: 16 word) (16 + n)" "\<not> bit (w :: 32 word) (32 + n)" "\<not> bit (w :: 32 word) (48 + n)"
  using bit_imp_le_length [of v "16 + n"] bit_imp_le_length [of w "32 + n"]
    bit_imp_le_length [of w "48 + n"] by auto

lemma unpack_stream_id:
  "(ucast (scast (ucast (bits :: 64 word) :: 32 word) AND (0xFFFFFFFF :: 64 word)) :: 32 word) = ucast bits"
proof -
  have m: "(0xFFFFFFFF :: 64 word) = mask 32" by (simp add: mask_eq_exp_minus_1)
  show ?thesis unfolding m by (auto intro!: bit_word_eqI simp: bit_simps)
qed

lemma unpack_device_index:
  "(ucast (scast (ucast (bits :: 64 word) :: 16 word) AND (0xFFFF :: 64 word)) :: 16 word) = ucast bits"
proof -
  have m: "(0xFFFF :: 64 word) = mask 16" by (simp add: mask_eq_exp_minus_1)
  show ?thesis unfolding m by (auto intro!: bit_word_eqI simp: bit_simps)
qed

lemma unpack_eq:
  "unpack bits =
     (let t = DeviceType_of_int16 (ucast (drop_bit 48 bits)) in
      rbind (AT_CHECK (isValidDeviceType t) '''') (\<lambda>_.
      rbind (mk_Device t (ucast (drop_bit 32 bits))) (\<lambda>d. Inr \<lparr>st_device = d, st_id = ucast bits\<rparr>)))"
  unfolding unpack_def Let_def unpack_stream_id unpack_device_index
  by (simp add: drop_bit_drop_bit)

lemma pack_fields:
  "ucast (drop_bit 48 (pack s)) = DeviceType_int16 (dev_type (st_device s))"
  "ucast (drop_bit 32 (pack s)) = dev_index (st_device s)"
  "ucast (pack s) = st_id s"
  by (auto intro!: bit_word_eqI simp: pack_def bit_simps bit_out_of_range)

lemma word64_split:
  "push_bit 48 (ucast (ucast (drop_bit 48 bits) :: 16 word))
     OR push_bit 32 (ucast (ucast (drop_bit 32 bits) :: 16 word))
     OR ucast (ucast bits :: 32 word) = (bits :: 64 word)" (is "?w = bits")
proof (rule bit_word_eqI)
  fix n assume "n < LENGTH(64)"
  then consider "n < 32" | "32 \<le> n" "n < 48" | "48 \<le> n" "n < 64" by fastforce
  then show "bit ?w n = bit bits n" by cases (auto simp: bit_simps)
qed

lemma unpack_pack:
  assumes "isValidDeviceType (dev_type (st_device s))" "Device_valid (st_device s)"
  shows "unpack (pack s) = Inr s"
proof -
  have "mk_Device (dev_type (st_device s)) (dev_index (st_device s)) = Inr (st_device s)"
    using assms(2) by (simp add: mk_Device_iff)
  then show ?thesis
    using assms(1) by (simp add: unpack_eq pack_fields DeviceType_int16_inverse Let_def)
qed

lemma pack_unpack: "unpack bits = Inr s \<Longrightarrow> pack s = bits"
  by (auto simp: unpack_eq Let_def rbind_eq_Inr mk_Device_iff pack_def word64_split)

lemma Device_hash_bits_inj:
  assumes "isValidDeviceType (dev_type d)" "isValidDeviceType (dev_type e)"
    and "Device_hash_bits d = Device_hash_bits e"
  shows "d = e"
proof -
  have f: "ucast (drop_bit 16 (Device_hash_bits x)) = DeviceType_int16 (dev_type x)"
    "ucast (Device_hash_bits x) = dev_index x" for x
    by (auto intro!: bit_word_eqI simp: Device_hash_bits_def bit_simps bit_out_of_range)
  have t: "DeviceType_int16 (dev_type d) = DeviceType_int16 (dev_type e)"
    by (simp only: f(1) [symmetric] assms(3))
  have i: "dev_index d = dev_index e"
    by (simp only: f(2) [symmetric] assms(3))
  have "dev_type d = dev_type e"
    by (metis t DeviceType_int16_inverse assms(1,2))
  with i show ?thesis by simp
qed

section \<open>Properties\<close>

text \<open>
  Property C35. \<open>Stream::unpack\<close> is the exact inverse of \<open>Stream::pack\<close>: a 64-bit value unpacks to a stream
  iff it is the packing of that stream and the stream's device passes \<open>isValidDeviceType\<close> and
  \<open>Device::validate\<close>; the sign of a default index (-1) or of a negative stream id does not leak into the
  neighbouring fields.
\<close>

theorem stream_unpack_iff_pack:
  "unpack bits = Inr s \<longleftrightarrow>
     pack s = bits \<and> isValidDeviceType (dev_type (st_device s)) \<and> Device_valid (st_device s)"
proof
  assume u: "unpack bits = Inr s"
  then have "isValidDeviceType (dev_type (st_device s)) \<and> Device_valid (st_device s)"
    by (auto simp: unpack_eq Let_def rbind_eq_Inr mk_Device_iff)
  with pack_unpack [OF u] show
    "pack s = bits \<and> isValidDeviceType (dev_type (st_device s)) \<and> Device_valid (st_device s)" by simp
next
  assume "pack s = bits \<and> isValidDeviceType (dev_type (st_device s)) \<and> Device_valid (st_device s)"
  then show "unpack bits = Inr s" using unpack_pack [of s] by auto
qed

text \<open>
  Property C36. Printing a valid device with \<open>operator<<\<close> and parsing the text with the string constructor
  gives the device back, for every named device type but \<open>FPGA\<close>, which \<open>DeviceTypeName\<close> prints and
  \<open>parse_type\<close> does not know.
\<close>

theorem device_string_roundtrip:
  assumes "Device_valid d" and "isValidDeviceType (dev_type d)"
  shows "rbind (Device_to_string d) Device_of_string =
    (if dev_type d = FPGA
     then Inl (C10Error ''Expected one of cpu, cuda, mkldnn, opengl, opencl, ideep, hip, msnpu device type at start of device string: '')
     else Inr d)"
proof (cases "dev_type d = FPGA")
  case True
  have "parse_type ''fpga'' = Inl (C10Error ''Expected one of cpu, cuda, mkldnn, opengl, opencl, ideep, hip, msnpu device type at start of device string: '')"
    by (simp add: parse_type_def device_types_def)
  moreover have "takeWhile (\<lambda>c. c \<noteq> CHR '':'') (''fpga'' @ '':'' @ r) = ''fpga''" for r by simp
  ultimately show ?thesis using True
    by (simp add: Device_to_string_def Device_of_string_def Let_def)
next
  case False
  with Device_print_parse [OF assms] show ?thesis by simp
qed

theorem device_string_roundtrip_witness:
  "rbind (Device_to_string \<lparr>dev_type = CUDA, dev_index = 3\<rparr>) Device_of_string =
     Inr \<lparr>dev_type = CUDA, dev_index = 3\<rparr>"
  using device_string_roundtrip [of "\<lparr>dev_type = CUDA, dev_index = 3\<rparr>"]
  by (simp add: Device_valid_def)

text \<open>
  The index of a device string is read as an \<open>int\<close> and stored in 16 bits: \<open>cuda:n\<close> is accepted
  iff bit 15 of \<open>n\<close> is clear, and it then names device \<open>n mod 65536\<close>. So \<open>cuda:65536\<close> names device 0.
\<close>

theorem device_string_index_wraps:
  assumes "n < 2 ^ 31"
  shows "Device_of_string (''cuda:'' @ show_nat n) =
    (if n mod 65536 < 32768 then Inr \<lparr>dev_type = CUDA, dev_index = of_nat (n mod 65536)\<rparr>
     else Inl (C10Error ''Device index must be non-negative, got ''))"
proof -
  let ?w = "word_of_int (int n) :: 16 word"
  have w: "?w = of_nat (n mod 65536)"
    by (simp add: word_of_nat_eq_iff take_bit_eq_mod)
  have t: "takeWhile (\<lambda>c. c \<noteq> CHR '':'') (''cuda:'' @ show_nat n) = ''cuda''" by simp
  have p: "parse_type ''cuda'' = Inr CUDA" by (simp add: parse_type_def device_types_def)
  have v: "validate \<lparr>dev_type = CUDA, dev_index = ?w\<rparr> = Inr ()" if "0 \<le> sint ?w"
    using that by (simp add: validate_iff Device_valid_def)
  show ?thesis
    using stoi_show_nat [OF assms] t p sint_of_int_nonneg16 [of n] w v
    by (simp add: Device_of_string_def Let_def)
qed

theorem device_string_index_wraps_witness:
  "Device_of_string ''cuda:65536'' = Inr \<lparr>dev_type = CUDA, dev_index = 0\<rparr>"
proof -
  have "show_nat 65536 = ''65536''" by (simp add: show_nat.simps digit_chars)
  then show ?thesis using device_string_index_wraps [of 65536] by simp
qed

end
