(* ===== verification/Backends.thy ===== *)
theory Backends
  imports Device
begin

text \<open>
  Tensor type ids, backends and layouts: \<open>c10/core/TensorTypeIdRegistration.h\<close> and \<open>.cpp\<close>,
  \<open>Backend.h\<close> and \<open>Layout.h\<close>. An id is an 8-bit counter value handed out on first use of a
  function-local static, so the functions that name an id thread the registry's state.
\<close>

section \<open>The registry of tensor type ids\<close>

type_synonym TensorTypeId = "8 word"

datatype TensorName =
    UndefinedTensorId | CPUTensorId | CUDATensorId | SparseCPUTensorId | SparseCUDATensorId
  | MKLDNNTensorId | OpenGLTensorId | OpenCLTensorId | IDEEPTensorId | HIPTensorId
  | SparseHIPTensorId | MSNPUTensorId | XLATensorId | MkldnnCPUTensorId | QuantizedCPUTensorId
  | ComplexCPUTensorId | ComplexCUDATensorId

record TensorTypeIds =
  last_id :: "8 word"
  registeredTypeIds :: "TensorTypeId set"
  statics :: "TensorName \<Rightarrow> TensorTypeId option"

definition init_TensorTypeIds :: TensorTypeIds where
  "init_TensorTypeIds = \<lparr>last_id = 0, registeredTypeIds = {}, statics = (\<lambda>_. None)\<rparr>"

definition create :: "TensorTypeIds \<Rightarrow> TensorTypeId result \<times> TensorTypeIds" where
  "create st =
     (let n = last_id st + 1; st' = st\<lparr>last_id := n\<rparr> in
      if n = 0 then (Inl (C10Error ''Tried to define more than the supported tensor types''), st')
      else (Inr n, st'))"

definition registerId :: "TensorTypeId \<Rightarrow> TensorTypeIds \<Rightarrow> TensorTypeIds" where
  "registerId i st = st\<lparr>registeredTypeIds := insert i (registeredTypeIds st)\<rparr>"

definition deregisterId :: "TensorTypeId \<Rightarrow> TensorTypeIds \<Rightarrow> TensorTypeIds" where
  "deregisterId i st = st\<lparr>registeredTypeIds := registeredTypeIds st - {i}\<rparr>"

definition createAndRegister :: "TensorTypeIds \<Rightarrow> TensorTypeId result \<times> TensorTypeIds" where
  "createAndRegister st =
     (case create st of
        (Inl e, st') \<Rightarrow> (Inl e, st')
      | (Inr i, st') \<Rightarrow> (Inr i, registerId i st'))"

text \<open>
  \<open>C10_DEFINE_TENSOR_TYPE\<close>: the registrar is constructed at the first call; when its constructor
  throws, the static stays uninitialised and the next call constructs it again.
\<close>

definition TensorId :: "TensorName \<Rightarrow> TensorTypeIds \<Rightarrow> TensorTypeId result \<times> TensorTypeIds" where
  "TensorId n st =
     (case statics st n of
        Some i \<Rightarrow> (Inr i, st)
      | None \<Rightarrow>
          (case createAndRegister st of
             (Inl e, st') \<Rightarrow> (Inl e, st')
           | (Inr i, st') \<Rightarrow> (Inr i, st'\<lparr>statics := (statics st')(n \<mapsto> i)\<rparr>)))"

section \<open>Backends\<close>

datatype Backend =
    CPU | CUDA | HIP | SparseCPU | SparseCUDA | SparseHIP | MSNPU | XLA | QuantizedCPU
  | ComplexCPU | ComplexCUDA | Undefined | MkldnnCPU | NumOptions

datatype Layout = Strided | Sparse | Mkldnn

fun toSparse :: "Backend \<Rightarrow> Backend result" where
  "toSparse Backend.CPU = Inr SparseCPU"
| "toSparse Backend.CUDA = Inr SparseCUDA"
| "toSparse Backend.HIP = Inr SparseHIP"
| "toSparse SparseCPU = Inr SparseCPU"
| "toSparse SparseCUDA = Inr SparseCUDA"
| "toSparse SparseHIP = Inr SparseHIP"
| "toSparse _ = Inl (RuntimeError ''Unknown backend'')"

fun toDense :: "Backend \<Rightarrow> Backend result" where
  "toDense Backend.CPU = Inr Backend.CPU"
| "toDense Backend.CUDA = Inr Backend.CUDA"
| "toDense Backend.HIP = Inr Backend.HIP"
| "toDense Backend.MSNPU = Inr Backend.MSNPU"
| "toDense Backend.XLA = Inr Backend.XLA"
| "toDense SparseCPU = Inr Backend.CPU"
| "toDense SparseCUDA = Inr Backend.CUDA"
| "toDense SparseHIP = Inr Backend.HIP"
| "toDense QuantizedCPU = Inr QuantizedCPU"
| "toDense ComplexCPU = Inr ComplexCPU"
| "toDense ComplexCUDA = Inr ComplexCUDA"
| "toDense _ = Inl (RuntimeError ''Unknown backend'')"

definition tensor_id_chain :: "(TensorName \<times> Backend) list" where
  "tensor_id_chain =
     [(CPUTensorId, Backend.CPU), (CUDATensorId, Backend.CUDA), (HIPTensorId, Backend.HIP),
      (MSNPUTensorId, Backend.MSNPU), (XLATensorId, Backend.XLA), (SparseCPUTensorId, SparseCPU),
      (SparseCUDATensorId, SparseCUDA), (SparseHIPTensorId, SparseHIP), (MkldnnCPUTensorId, MkldnnCPU),
      (QuantizedCPUTensorId, QuantizedCPU), (ComplexCPUTensorId, ComplexCPU),
      (ComplexCUDATensorId, ComplexCUDA), (UndefinedTensorId, Undefined)]"

text \<open>The chain of \<open>else if (t == XTensorId())\<close>, each id evaluated when its test is reached.\<close>

fun match_ids :: "(TensorName \<times> Backend) list \<Rightarrow> TensorTypeId \<Rightarrow> TensorTypeIds \<Rightarrow> Backend result \<times> TensorTypeIds" where
  "match_ids [] t st = (Inl (C10Error ''Unrecognized tensor type ID: ''), st)"
| "match_ids ((n, b) # rest) t st =
     (case TensorId n st of
        (Inl e, st') \<Rightarrow> (Inl e, st')
      | (Inr i, st') \<Rightarrow> if t = i then (Inr b, st') else match_ids rest t st')"

definition tensorTypeIdToBackend :: "TensorTypeId \<Rightarrow> TensorTypeIds \<Rightarrow> Backend result \<times> TensorTypeIds" where
  "tensorTypeIdToBackend t st = match_ids tensor_id_chain t st"

fun backendToTensorTypeId :: "Backend \<Rightarrow> TensorTypeIds \<Rightarrow> TensorTypeId result \<times> TensorTypeIds" where
  "backendToTensorTypeId Backend.CPU st = TensorId CPUTensorId st"
| "backendToTensorTypeId Backend.CUDA st = TensorId CUDATensorId st"
| "backendToTensorTypeId Backend.HIP st = TensorId HIPTensorId st"
| "backendToTensorTypeId Backend.MSNPU st = TensorId MSNPUTensorId st"
| "backendToTensorTypeId Backend.XLA st = TensorId XLATensorId st"
| "backendToTensorTypeId SparseCPU st = TensorId SparseCPUTensorId st"
| "backendToTensorTypeId SparseCUDA st = TensorId SparseCUDATensorId st"
| "backendToTensorTypeId SparseHIP st = TensorId SparseHIPTensorId st"
| "backendToTensorTypeId MkldnnCPU st = TensorId MkldnnCPUTensorId st"
| "backendToTensorTypeId QuantizedCPU st = TensorId QuantizedCPUTensorId st"
| "backendToTensorTypeId ComplexCPU st = TensorId ComplexCPUTensorId st"
| "backendToTensorTypeId ComplexCUDA st = TensorId ComplexCUDATensorId st"
| "backendToTensorTypeId Undefined st = TensorId UndefinedTensorId st"
| "backendToTensorTypeId NumOptions st = (Inl (RuntimeError ''Unknown backend''), st)"

fun backendToDeviceType :: "Backend \<Rightarrow> DeviceType result" where
  "backendToDeviceType Backend.CPU = Inr DeviceType.CPU"
| "backendToDeviceType Backend.CUDA = Inr DeviceType.CUDA"
| "backendToDeviceType Backend.HIP = Inr DeviceType.HIP"
| "backendToDeviceType Backend.MSNPU = Inr DeviceType.MSNPU"
| "backendToDeviceType Backend.XLA = Inr DeviceType.XLA"
| "backendToDeviceType SparseCPU = Inr DeviceType.CPU"
| "backendToDeviceType SparseCUDA = Inr DeviceType.CUDA"
| "backendToDeviceType SparseHIP = Inr DeviceType.HIP"
| "backendToDeviceType MkldnnCPU = Inr DeviceType.CPU"
| "backendToDeviceType QuantizedCPU = Inr DeviceType.CPU"
| "backendToDeviceType ComplexCPU = Inr DeviceType.CPU"
| "backendToDeviceType ComplexCUDA = Inr DeviceType.CUDA"
| "backendToDeviceType Undefined = Inl (C10Error ''Undefined backend is not a valid device type'')"
| "backendToDeviceType NumOptions = Inl (C10Error ''Unknown backend'')"

fun backendToCPU :: "Backend \<Rightarrow> Backend result" where
  "backendToCPU Backend.CPU = Inr Backend.CPU"
| "backendToCPU Backend.CUDA = Inr Backend.CPU"
| "backendToCPU Backend.HIP = Inr Backend.CPU"
| "backendToCPU SparseCPU = Inr SparseCPU"
| "backendToCPU SparseCUDA = Inr SparseCPU"
| "backendToCPU SparseHIP = Inr SparseCPU"
| "backendToCPU Backend.MSNPU = Inr Backend.CPU"
| "backendToCPU Backend.XLA = Inr Backend.CPU"
| "backendToCPU MkldnnCPU = Inr MkldnnCPU"
| "backendToCPU QuantizedCPU = Inr QuantizedCPU"
| "backendToCPU ComplexCPU = Inr ComplexCPU"
| "backendToCPU ComplexCUDA = Inr ComplexCPU"
| "backendToCPU Undefined = Inr Undefined"
| "backendToCPU NumOptions = Inl (C10Error ''Unknown backend'')"

fun backendToCUDA :: "Backend \<Rightarrow> Backend result" where
  "backendToCUDA Backend.CPU = Inr Backend.CUDA"
| "backendToCUDA Backend.CUDA = Inr Backend.CUDA"
| "backendToCUDA Backend.HIP = Inr Backend.CUDA"
| "backendToCUDA Backend.MSNPU = Inr Backend.CUDA"
| "backendToCUDA Backend.XLA = Inr Backend.CUDA"
| "backendToCUDA SparseCPU = Inr SparseCUDA"
| "backendToCUDA SparseCUDA = Inr SparseCUDA"
| "backendToCUDA SparseHIP = Inr SparseCUDA"
| "backendToCUDA ComplexCPU = Inr ComplexCUDA"
| "backendToCUDA ComplexCUDA = Inr ComplexCUDA"
| "backendToCUDA Undefined = Inr Undefined"
| "backendToCUDA _ = Inl (C10Error ''Unknown backend'')"

fun backendToHIP :: "Backend \<Rightarrow> Backend result" where
  "backendToHIP Backend.CPU = Inr Backend.HIP"
| "backendToHIP Backend.CUDA = Inr Backend.HIP"
| "backendToHIP Backend.HIP = Inr Backend.HIP"
| "backendToHIP Backend.MSNPU = Inr Backend.HIP"
| "backendToHIP Backend.XLA = Inr Backend.HIP"
| "backendToHIP SparseCPU = Inr SparseHIP"
| "backendToHIP SparseCUDA = Inr SparseHIP"
| "backendToHIP SparseHIP = Inr SparseHIP"
| "backendToHIP Undefined = Inr Undefined"
| "backendToHIP _ = Inl (C10Error ''Unknown backend'')"

fun Backend_toString :: "Backend \<Rightarrow> string" where
  "Backend_toString Backend.CPU = ''CPU''"
| "Backend_toString Backend.CUDA = ''CUDA''"
| "Backend_toString Backend.HIP = ''HIP''"
| "Backend_toString Backend.MSNPU = ''MSNPU''"
| "Backend_toString Backend.XLA = ''XLA''"
| "Backend_toString SparseCPU = ''SparseCPU''"
| "Backend_toString SparseCUDA = ''SparseCUDA''"
| "Backend_toString SparseHIP = ''SparseHIP''"
| "Backend_toString MkldnnCPU = ''MkldnnCPU''"
| "Backend_toString QuantizedCPU = ''QuantizedCPU''"
| "Backend_toString ComplexCPU = ''ComplexCPU''"
| "Backend_toString ComplexCUDA = ''ComplexCUDA''"
| "Backend_toString _ = ''UNKNOWN_BACKEND''"

fun layout_from_backend :: "Backend \<Rightarrow> Layout" where
  "layout_from_backend SparseCPU = Sparse"
| "layout_from_backend SparseCUDA = Sparse"
| "layout_from_backend SparseHIP = Sparse"
| "layout_from_backend MkldnnCPU = Mkldnn"
| "layout_from_backend _ = Strided"

section \<open>Contracts of the conversions\<close>

text \<open>A move to another device type, and a change of layout on the same device type.\<close>

definition moves_to :: "(Backend \<Rightarrow> Backend result) \<Rightarrow> DeviceType \<Rightarrow> bool" where
  "moves_to f d \<longleftrightarrow>
     (\<forall>b c. f b = Inr c \<longrightarrow>
        (if b = Undefined then c = Undefined
         else backendToDeviceType c = Inr d \<and> layout_from_backend c = layout_from_backend b))"

definition keeps_device :: "(Backend \<Rightarrow> Backend result) \<Rightarrow> Layout \<Rightarrow> bool" where
  "keeps_device f l \<longleftrightarrow>
     (\<forall>b c. f b = Inr c \<longrightarrow> backendToDeviceType c = backendToDeviceType b \<and> layout_from_backend c = l)"

text \<open>A run of creations.\<close>

fun create_many :: "nat \<Rightarrow> TensorTypeIds \<Rightarrow> TensorTypeId result list \<times> TensorTypeIds" where
  "create_many 0 st = ([], st)"
| "create_many (Suc k) st =
     (let (rs, st') = create_many k st; (r, st'') = create st' in (rs @ [r], st''))"

section \<open>Ids stay distinct while the counter has not wrapped\<close>

definition ids_inv :: "TensorTypeIds \<Rightarrow> bool" where
  "ids_inv st \<longleftrightarrow>
     inj_on (statics st) (dom (statics st)) \<and>
     (\<forall>n i. statics st n = Some i \<longrightarrow> 0 < unat i \<and> unat i \<le> unat (last_id st))"

lemma ids_inv_init: "ids_inv init_TensorTypeIds"
  by (simp add: ids_inv_def init_TensorTypeIds_def)

lemma unat_Suc_word8:
  "unat (w :: 8 word) < 255 \<Longrightarrow> unat (w + 1) = Suc (unat w) \<and> w + 1 \<noteq> 0"
proof -
  assume a: "unat w < 255"
  then have "unat (w + 1) = Suc (unat w)" by (simp add: unat_word_ariths)
  moreover from this have "w + 1 \<noteq> 0" by auto
  ultimately show ?thesis by simp
qed

lemma create_Inr:
  assumes "unat (last_id st) < 255"
  shows "create st = (Inr (last_id st + 1), st\<lparr>last_id := last_id st + 1\<rparr>)"
  using unat_Suc_word8 [OF assms] by (simp add: create_def Let_def)

definition ids_extend :: "TensorTypeIds \<Rightarrow> TensorTypeIds \<Rightarrow> bool" where
  "ids_extend st st' \<longleftrightarrow> (\<forall>n i. statics st n = Some i \<longrightarrow> statics st' n = Some i)"

lemma ids_inv_add:
  assumes inv: "ids_inv st" and lt: "unat (last_id st) < 255" and new: "statics st n = None"
    and st': "last_id st' = last_id st + 1" "statics st' = (statics st)(n \<mapsto> last_id st + 1)"
  shows "ids_inv st'"
proof -
  let ?i = "last_id st + 1"
  have u: "unat ?i = Suc (unat (last_id st))" using unat_Suc_word8 [OF lt] by simp
  have b: "\<And>m j. statics st m = Some j \<Longrightarrow> 0 < unat j \<and> unat j \<le> unat (last_id st)"
    using inv by (simp add: ids_inv_def)
  have inj: "inj_on (statics st) (dom (statics st))" using inv by (simp add: ids_inv_def)
  have fresh: "statics st m \<noteq> Some ?i" for m using b [of m ?i] u by auto
  have "inj_on ((statics st)(n \<mapsto> ?i)) (dom ((statics st)(n \<mapsto> ?i)))"
  proof (rule inj_onI)
    fix a c assume ac: "a \<in> dom ((statics st)(n \<mapsto> ?i))" "c \<in> dom ((statics st)(n \<mapsto> ?i))"
      and eq: "((statics st)(n \<mapsto> ?i)) a = ((statics st)(n \<mapsto> ?i)) c"
    show "a = c"
      using ac eq fresh [of a] fresh [of c] inj_onD [OF inj, of a c] by (cases "a = n"; cases "c = n") auto
  qed
  moreover have "0 < unat j \<and> unat j \<le> unat ?i" if "((statics st)(n \<mapsto> ?i)) m = Some j" for m j
    using that b [of m j] u by (cases "m = n") auto
  ultimately show ?thesis using st' by (simp add: ids_inv_def)
qed

lemma TensorId_ok:
  assumes inv: "ids_inv st" and lt: "unat (last_id st) < 255"
  obtains i st' where "TensorId n st = (Inr i, st')" "ids_inv st'" "statics st' n = Some i"
    "ids_extend st st'" "unat (last_id st') \<le> Suc (unat (last_id st))"
proof (cases "statics st n")
  case None
  let ?st' = "registerId (last_id st + 1) (st\<lparr>last_id := last_id st + 1\<rparr>)"
  let ?st'' = "?st'\<lparr>statics := (statics ?st')(n \<mapsto> last_id st + 1)\<rparr>"
  have "TensorId n st = (Inr (last_id st + 1), ?st'')"
    using None create_Inr [OF lt] by (simp add: TensorId_def createAndRegister_def)
  moreover have "ids_inv ?st''"
    by (rule ids_inv_add [OF inv lt None]) (simp_all add: registerId_def)
  moreover have "ids_extend st ?st''"
    using None by (auto simp: ids_extend_def registerId_def)
  moreover have "unat (last_id ?st'') \<le> Suc (unat (last_id st))"
    using unat_Suc_word8 [OF lt] by (simp add: registerId_def)
  ultimately show thesis using that by simp
next
  case (Some i)
  then show thesis using that [of i st] inv by (simp add: TensorId_def ids_extend_def)
qed

lemma match_ids_ok:
  assumes "ids_inv st" "statics st n = Some t" "(n, b) \<in> set ch" "distinct (map fst ch)"
    and "unat (last_id st) + length ch \<le> 255"
  shows "\<exists>st'. match_ids ch t st = (Inr b, st') \<and> ids_inv st' \<and> ids_extend st st'"
  using assms
proof (induction ch arbitrary: st)
  case Nil
  then show ?case by simp
next
  case (Cons p ch)
  obtain m c where p: "p = (m, c)" by (cases p)
  from Cons.prems have "unat (last_id st) < 255" by simp
  with Cons.prems(1) obtain i st1 where s: "TensorId m st = (Inr i, st1)" "ids_inv st1"
    "statics st1 m = Some i" "ids_extend st st1" "unat (last_id st1) \<le> Suc (unat (last_id st))"
    by (rule TensorId_ok)
  from s(4) Cons.prems(2) have n1: "statics st1 n = Some t" by (simp add: ids_extend_def)
  show ?case
  proof (cases "m = n")
    case True
    then have "i = t" using s(3) n1 by simp
    moreover have "c = b"
      using Cons.prems(3,4) p True by (auto simp: rev_image_eqI)
    ultimately show ?thesis using s p by simp
  next
    case False
    have "i \<noteq> t"
    proof
      assume "i = t"
      with s(3) n1 have "statics st1 m = statics st1 n" "m \<in> dom (statics st1)" "n \<in> dom (statics st1)"
        by auto
      with s(2) False show False by (auto simp: ids_inv_def dest: inj_onD)
    qed
    moreover have "\<exists>st'. match_ids ch t st1 = (Inr b, st') \<and> ids_inv st' \<and> ids_extend st1 st'"
      using Cons.prems p False s(5) by (intro Cons.IH [OF s(2) n1]) auto
    ultimately show ?thesis using s p by (auto simp: ids_extend_def)
  qed
qed

lemma tensor_id_chain_facts: "distinct (map fst tensor_id_chain)" "length tensor_id_chain = 13"
  by (simp_all add: tensor_id_chain_def)

lemma backendToTensorTypeId_chain:
  "b \<noteq> NumOptions \<Longrightarrow> \<exists>n. (n, b) \<in> set tensor_id_chain \<and> (\<forall>st. backendToTensorTypeId b st = TensorId n st)"
  by (cases b) (simp_all add: tensor_id_chain_def)

lemma backend_id_roundtrip:
  assumes "ids_inv st" "unat (last_id st) + 14 \<le> 255" "b \<noteq> NumOptions"
  obtains t st' st'' where "backendToTensorTypeId b st = (Inr t, st')"
    "tensorTypeIdToBackend t st' = (Inr b, st'')" "ids_inv st''"
proof -
  obtain n where n: "(n, b) \<in> set tensor_id_chain" "backendToTensorTypeId b st = TensorId n st"
    using backendToTensorTypeId_chain [OF assms(3)] by blast
  from assms(2) have "unat (last_id st) < 255" by simp
  with assms(1) obtain i st1 where s: "TensorId n st = (Inr i, st1)" "ids_inv st1"
    "statics st1 n = Some i" "ids_extend st st1" "unat (last_id st1) \<le> Suc (unat (last_id st))"
    by (rule TensorId_ok)
  have "unat (last_id st1) + length tensor_id_chain \<le> 255"
    using s(5) assms(2) by (simp add: tensor_id_chain_facts)
  from match_ids_ok [OF s(2,3) n(1) tensor_id_chain_facts(1) this] n(2) s(1) that
  show thesis by (auto simp: tensorTypeIdToBackend_def)
qed

lemma create_many_ids:
  "k \<le> 255 \<Longrightarrow> fst (create_many k init_TensorTypeIds) = map (\<lambda>i. Inr (of_nat i)) [1..<Suc k] \<and>
     unat (last_id (snd (create_many k init_TensorTypeIds))) = k"
proof (induction k)
  case 0
  show ?case by (simp add: init_TensorTypeIds_def)
next
  case (Suc k)
  obtain rs st' where c: "create_many k init_TensorTypeIds = (rs, st')" by fastforce
  with Suc have rs: "rs = map (\<lambda>i. Inr (of_nat i)) [1..<Suc k]" and u: "unat (last_id st') = k" by auto
  then have lt: "unat (last_id st') < 255" using Suc.prems by simp
  have l: "last_id st' + 1 = of_nat (Suc k)" using word_eq_of_nat [OF u] by simp
  show ?case
    using c rs create_Inr [OF lt] unat_Suc_word8 [OF lt] u l by simp
qed

section \<open>Properties\<close>

text \<open>
  Property C37. \<open>tensorTypeIdToBackend\<close> inverts \<open>backendToTensorTypeId\<close>: from any registry whose ids are
  distinct and that still has room for the fourteen ids the two calls may create, a backend is turned into an
  id that is recognised as that backend, whatever ids were created before and in whatever order the statics were
  initialised, and the ids stay distinct.
\<close>

theorem backend_tensorTypeId_roundtrip:
  assumes "ids_inv st" and "unat (last_id st) + 14 \<le> 255" and "b \<noteq> NumOptions"
  shows "\<exists>t st' st''. backendToTensorTypeId b st = (Inr t, st') \<and>
    tensorTypeIdToBackend t st' = (Inr b, st'') \<and> ids_inv st''"
  by (rule backend_id_roundtrip [OF assms]) blast

theorem backend_tensorTypeId_roundtrip_witness:
  "\<exists>t st' st''. backendToTensorTypeId SparseHIP init_TensorTypeIds = (Inr t, st') \<and>
    tensorTypeIdToBackend t st' = (Inr SparseHIP, st'') \<and> ids_inv st''"
  by (rule backend_tensorTypeId_roundtrip) (simp_all add: ids_inv_init, simp add: init_TensorTypeIds_def)

text \<open>
  Moving a backend to the CPU, to CUDA or to HIP keeps its layout and lands on that device type, and
  \<open>toSparse\<close> and \<open>toDense\<close> keep the device type; each conversion that fails does so without a result, and
  \<open>Undefined\<close> is kept as it is by the three moves.
\<close>

theorem backend_moves:
  "moves_to backendToCPU DeviceType.CPU \<and> moves_to backendToCUDA DeviceType.CUDA \<and>
   moves_to backendToHIP DeviceType.HIP \<and> keeps_device toSparse Sparse \<and> keeps_device toDense Strided"
proof (intro conjI)
  show "moves_to backendToCPU DeviceType.CPU"
    unfolding moves_to_def by (intro allI, rename_tac b c, case_tac b) auto
  show "moves_to backendToCUDA DeviceType.CUDA"
    unfolding moves_to_def by (intro allI, rename_tac b c, case_tac b) auto
  show "moves_to backendToHIP DeviceType.HIP"
    unfolding moves_to_def by (intro allI, rename_tac b c, case_tac b) auto
  show "keeps_device toSparse Sparse"
    unfolding keeps_device_def by (intro allI, rename_tac b c, case_tac b) auto
  show "keeps_device toDense Strided"
    unfolding keeps_device_def by (intro allI, rename_tac b c, case_tac b) auto
qed

text \<open>
  The 8-bit id counter: the \<open>k\<close>-th creation returns \<open>k\<close> for the first 255, the 256th is refused,
  and since the counter has wrapped by then the next one returns the id 1 a second time.
\<close>

theorem tensorTypeId_counter:
  "fst (create_many 257 init_TensorTypeIds) =
     map (\<lambda>i. Inr (of_nat i)) [1..<256] @
     [Inl (C10Error ''Tried to define more than the supported tensor types''), Inr 1]"
proof -
  obtain rs st where c: "create_many 255 init_TensorTypeIds = (rs, st)" by fastforce
  with create_many_ids [of 255] have rs: "rs = map (\<lambda>i. Inr (of_nat i)) [1..<256]"
    and u: "unat (last_id st) = 255" by simp_all
  from u have l: "last_id st = 255" using word_eq_of_nat by fastforce
  have n: "(257 :: nat) = Suc (Suc 255)" by simp
  show ?thesis unfolding n create_many.simps c using rs l by (simp add: create_def Let_def)
qed

end
