(* ===== verification/Scalar_Types.thy ===== *)
theory Scalar_Types
  imports Prelude
begin

text \<open>
  Scalar types: \<open>c10/core/ScalarType.h\<close>. The macro \<open>AT_FORALL_SCALAR_TYPES_WITH_COMPLEX\<close> generates the
  enumerators, the \<open>TypeMeta\<close> conversions, the names and the element sizes; the model writes the
  expansions out. A \<open>TypeMeta\<close> is compared by the identity of the C++ type it was made for.
\<close>

section \<open>Data\<close>

datatype ScalarType =
    Byte | Char | Short | Int | Long | Half | Float | Double
  | ComplexHalf | ComplexFloat | ComplexDouble | Bool | QInt8 | Undefined | NumOptions

datatype ctype =
    uint8_t | int8_t | int16_t | int_t | int64_t | at_Half | float_t | double_t
  | at_ComplexHalf | complex_float | complex_double | bool_t | c10_qint8
  | other_ctype string

text \<open>\<open>TypeMeta()\<close> is the meta of no type, \<open>TypeMeta::Make<T>()\<close> that of \<open>T\<close>.\<close>

datatype TypeMeta = NoTypeMeta | MakeTypeMeta ctype

definition all_scalar_types :: "(ctype \<times> ScalarType) list" where
  "all_scalar_types =
     [(uint8_t, Byte), (int8_t, ScalarType.Char), (int16_t, Short), (int_t, ScalarType.Int), (int64_t, Long),
      (at_Half, Half), (float_t, Float), (double_t, Double), (at_ComplexHalf, ComplexHalf),
      (complex_float, ComplexFloat), (complex_double, ComplexDouble), (bool_t, Bool), (c10_qint8, QInt8)]"

fun ScalarType_int8 :: "ScalarType \<Rightarrow> nat" where
  "ScalarType_int8 Byte = 0"
| "ScalarType_int8 ScalarType.Char = 1"
| "ScalarType_int8 Short = 2"
| "ScalarType_int8 ScalarType.Int = 3"
| "ScalarType_int8 Long = 4"
| "ScalarType_int8 Half = 5"
| "ScalarType_int8 Float = 6"
| "ScalarType_int8 Double = 7"
| "ScalarType_int8 ComplexHalf = 8"
| "ScalarType_int8 ComplexFloat = 9"
| "ScalarType_int8 ComplexDouble = 10"
| "ScalarType_int8 Bool = 11"
| "ScalarType_int8 QInt8 = 12"
| "ScalarType_int8 Undefined = 13"
| "ScalarType_int8 NumOptions = 14"

section \<open>Conversions\<close>

definition scalarTypeToTypeMeta :: "ScalarType \<Rightarrow> TypeMeta result" where
  "scalarTypeToTypeMeta t =
     (case find (\<lambda>p. snd p = t) all_scalar_types of
        Some p \<Rightarrow> Inr (MakeTypeMeta (fst p))
      | None \<Rightarrow> if t = Undefined then Inr NoTypeMeta else Inl (C10Error ''Unrecognized Scalartype ''))"

definition tryTypeMetaToScalarType :: "TypeMeta \<Rightarrow> ScalarType option" where
  "tryTypeMetaToScalarType dtype =
     (case find (\<lambda>p. dtype = MakeTypeMeta (fst p)) all_scalar_types of
        Some p \<Rightarrow> Some (snd p)
      | None \<Rightarrow> if dtype = NoTypeMeta then Some Undefined else None)"

definition typeMetaToScalarType :: "TypeMeta \<Rightarrow> ScalarType result" where
  "typeMetaToScalarType dtype =
     (case tryTypeMetaToScalarType dtype of
        Some t \<Rightarrow> Inr t
      | None \<Rightarrow> Inl (C10Error ''Unsupported TypeMeta in ATen: ''))"

definition ScalarType_eq_TypeMeta :: "ScalarType \<Rightarrow> TypeMeta \<Rightarrow> bool" where
  "ScalarType_eq_TypeMeta t m =
     (case tryTypeMetaToScalarType m of Some mt \<Rightarrow> mt = t | None \<Rightarrow> False)"

fun ScalarType_toString :: "ScalarType \<Rightarrow> string" where
  "ScalarType_toString Byte = ''Byte''"
| "ScalarType_toString ScalarType.Char = ''Char''"
| "ScalarType_toString Short = ''Short''"
| "ScalarType_toString ScalarType.Int = ''Int''"
| "ScalarType_toString Long = ''Long''"
| "ScalarType_toString Half = ''Half''"
| "ScalarType_toString Float = ''Float''"
| "ScalarType_toString Double = ''Double''"
| "ScalarType_toString ComplexHalf = ''ComplexHalf''"
| "ScalarType_toString ComplexFloat = ''ComplexFloat''"
| "ScalarType_toString ComplexDouble = ''ComplexDouble''"
| "ScalarType_toString Bool = ''Bool''"
| "ScalarType_toString QInt8 = ''QInt8''"
| "ScalarType_toString _ = ''UNKNOWN_SCALAR''"

text \<open>\<open>sizeof\<close> of the C++ types on the platforms the library supports.\<close>

fun elementSize :: "ScalarType \<Rightarrow> nat result" where
  "elementSize Byte = Inr 1"
| "elementSize ScalarType.Char = Inr 1"
| "elementSize Short = Inr 2"
| "elementSize ScalarType.Int = Inr 4"
| "elementSize Long = Inr 8"
| "elementSize Half = Inr 2"
| "elementSize Float = Inr 4"
| "elementSize Double = Inr 8"
| "elementSize ComplexHalf = Inr 4"
| "elementSize ComplexFloat = Inr 8"
| "elementSize ComplexDouble = Inr 16"
| "elementSize Bool = Inr 1"
| "elementSize QInt8 = Inr 1"
| "elementSize _ = Inl (C10Error ''Unknown ScalarType'')"

definition isIntegralType :: "ScalarType \<Rightarrow> bool" where
  "isIntegralType t \<longleftrightarrow> t = Byte \<or> t = ScalarType.Char \<or> t = ScalarType.Int \<or> t = Long \<or> t = Short"

definition isFloatingType :: "ScalarType \<Rightarrow> bool" where
  "isFloatingType t \<longleftrightarrow> t = Double \<or> t = Float \<or> t = Half"

definition isComplexType :: "ScalarType \<Rightarrow> bool" where
  "isComplexType t \<longleftrightarrow> t = ComplexHalf \<or> t = ComplexFloat \<or> t = ComplexDouble"

definition isQIntType :: "ScalarType \<Rightarrow> bool" where
  "isQIntType t \<longleftrightarrow> t = QInt8"

section \<open>Type promotion\<close>

text \<open>
  The twelve rows as written; the array has \<open>NumOptions\<close> rows and columns, and what its initialiser
  leaves out is zero, which is \<open>Byte\<close>. A read outside the array has no defined value.
\<close>

definition promoteTypesLookup :: "ScalarType list list" where
  "promoteTypesLookup =
     (let u1 = Byte; i1 = ScalarType.Char; i2 = Short; i4 = ScalarType.Int; i8 = Long; f2 = Half; f4 = Float;
          f8 = Double; b1 = Bool; ud = Undefined in
      [[u1, i2, i2, i4, i8, f2, f4, f8, ud, ud, ud, u1],
       [i2, i1, i2, i4, i8, f2, f4, f8, ud, ud, ud, i1],
       [i2, i2, i2, i4, i8, f2, f4, f8, ud, ud, ud, i2],
       [i4, i4, i4, i4, i8, f2, f4, f8, ud, ud, ud, i4],
       [i8, i8, i8, i8, i8, f2, f4, f8, ud, ud, ud, i8],
       [f2, f2, f2, f2, f2, f2, f4, f8, ud, ud, ud, f2],
       [f4, f4, f4, f4, f4, f4, f4, f8, ud, ud, ud, f4],
       [f8, f8, f8, f8, f8, f8, f8, f8, ud, ud, ud, f8],
       [ud, ud, ud, ud, ud, ud, ud, ud, ud, ud, ud, ud],
       [ud, ud, ud, ud, ud, ud, ud, ud, ud, ud, ud, ud],
       [ud, ud, ud, ud, ud, ud, ud, ud, ud, ud, ud, ud],
       [u1, i1, i2, i4, i8, f2, f4, f8, ud, ud, ud, b1]])"

definition lookup_promotion :: "nat \<Rightarrow> nat \<Rightarrow> ScalarType result" where
  "lookup_promotion i j =
     (if i < ScalarType_int8 NumOptions \<and> j < ScalarType_int8 NumOptions then
        (if i < length promoteTypesLookup \<and> j < length (promoteTypesLookup ! i)
         then Inr (promoteTypesLookup ! i ! j) else Inr Byte)
      else Inl UndefinedBehaviour)"

definition promoteTypes :: "ScalarType \<Rightarrow> ScalarType \<Rightarrow> ScalarType result" where
  "promoteTypes a b =
     (if a = Undefined \<or> b = Undefined then Inr Undefined
      else if isComplexType a \<or> isComplexType b
        then Inl (C10Error ''promoteTypes with complex numbers is not handled yet'')
      else if isQIntType a \<and> a = b then Inr a
      else if isQIntType a \<or> isQIntType b
        then Inl (C10Error ''promoteTypes with quantized numbers is not handled yet'')
      else lookup_promotion (ScalarType_int8 a) (ScalarType_int8 b))"

section \<open>What promotion computes\<close>

text \<open>
  The types promotion handles, and the order it is meant to respect: a chain in which only the two
  8-bit integer types are incomparable.
\<close>

definition promotable :: "ScalarType \<Rightarrow> bool" where
  "promotable t \<longleftrightarrow> isIntegralType t \<or> isFloatingType t \<or> t = Bool"

fun promotion_rank :: "ScalarType \<Rightarrow> nat" where
  "promotion_rank Bool = 0"
| "promotion_rank Byte = 1"
| "promotion_rank ScalarType.Char = 1"
| "promotion_rank Short = 2"
| "promotion_rank ScalarType.Int = 3"
| "promotion_rank Long = 4"
| "promotion_rank Half = 5"
| "promotion_rank Float = 6"
| "promotion_rank Double = 7"
| "promotion_rank _ = 8"

definition promotes_to :: "ScalarType \<Rightarrow> ScalarType \<Rightarrow> bool" where
  "promotes_to a b \<longleftrightarrow> a = b \<or> promotion_rank a < promotion_rank b"

lemmas scalar_class_defs = isIntegralType_def isFloatingType_def isComplexType_def isQIntType_def
  promotable_def

lemma promotes_to_refl: "promotes_to a a"
  by (simp add: promotes_to_def)

lemma promotes_to_trans: "promotes_to a b \<Longrightarrow> promotes_to b c \<Longrightarrow> promotes_to a c"
  by (auto simp: promotes_to_def)

lemma promotes_to_antisym: "promotes_to a b \<Longrightarrow> promotes_to b a \<Longrightarrow> a = b"
  by (auto simp: promotes_to_def)

lemma promotable_cases:
  assumes "promotable t"
  obtains "t = Byte" | "t = ScalarType.Char" | "t = Short" | "t = ScalarType.Int" | "t = Long" | "t = Half"
    | "t = Float" | "t = Double" | "t = Bool"
  using assms by (auto simp: scalar_class_defs)

text \<open>The value of the table, as the larger of two ranks.\<close>

definition promotion_join :: "ScalarType \<Rightarrow> ScalarType \<Rightarrow> ScalarType" where
  "promotion_join a b =
     (if promotes_to a b then b else if promotes_to b a then a else Short)"

lemma promoteTypes_join:
  assumes "promotable a" "promotable b"
  shows "promoteTypes a b = Inr (promotion_join a b)"
  using assms(1)
  by (rule promotable_cases; use assms(2) in \<open>rule promotable_cases\<close>)
    (simp_all add: promoteTypes_def lookup_promotion_def promoteTypesLookup_def promotion_join_def
      promotes_to_def scalar_class_defs Let_def)

lemma promotion_join_cases:
  assumes "promotable a" "promotable b"
  shows "promotes_to a b \<or> promotes_to b a \<or> a = Byte \<and> b = ScalarType.Char \<or> a = ScalarType.Char \<and> b = Byte"
  using assms(1)
  by (rule promotable_cases; use assms(2) in \<open>rule promotable_cases\<close>) (simp_all add: promotes_to_def)

lemma promotion_join_lub:
  assumes "promotable a" "promotable b"
  shows "promotable (promotion_join a b)" "promotes_to a (promotion_join a b)"
    "promotes_to b (promotion_join a b)"
    "\<And>d. promotable d \<Longrightarrow> promotes_to a d \<Longrightarrow> promotes_to b d \<Longrightarrow> promotes_to (promotion_join a b) d"
proof -
  show "promotable (promotion_join a b)"
    using assms by (simp add: promotion_join_def) (simp add: scalar_class_defs)
  show "promotes_to a (promotion_join a b)" "promotes_to b (promotion_join a b)"
    using promotion_join_cases [OF assms]
    by (auto simp: promotion_join_def promotes_to_refl promotes_to_def)
  fix d assume d: "promotable d" "promotes_to a d" "promotes_to b d"
  from d(1) show "promotes_to (promotion_join a b) d"
    using promotion_join_cases [OF assms] d(2,3)
    by (cases rule: promotable_cases) (auto simp: promotion_join_def promotes_to_def)
qed

lemma typeMeta_roundtrip:
  assumes "t \<noteq> NumOptions"
  shows "rbind (scalarTypeToTypeMeta t) typeMetaToScalarType = Inr t"
  using assms
  by (cases t) (simp_all add: scalarTypeToTypeMeta_def typeMetaToScalarType_def
      tryTypeMetaToScalarType_def all_scalar_types_def)

section \<open>Properties\<close>

text \<open>
  Property C38. On the integer, floating point and boolean types \<open>promoteTypes\<close> never fails and returns the least
  type, in the order that puts booleans below the 8-bit integers, integers by width below the floating point types
  by width, to which both arguments promote; so it is commutative, associative and idempotent, and the one pair
  of types of equal rank, \<open>Byte\<close> and \<open>Char\<close>, meets in \<open>Short\<close>.
\<close>

theorem promoteTypes_least_upper_bound:
  assumes "promotable a" and "promotable b"
  shows "\<exists>c. promoteTypes a b = Inr c \<and> promotable c \<and> promotes_to a c \<and> promotes_to b c \<and>
    (\<forall>d. promotable d \<and> promotes_to a d \<and> promotes_to b d \<longrightarrow> promotes_to c d)"
  using promoteTypes_join [OF assms] promotion_join_lub [OF assms] by blast

theorem promoteTypes_least_upper_bound_witness:
  "promotable Byte \<and> promotable ScalarType.Char \<and> promoteTypes Byte ScalarType.Char = Inr Short \<and>
   (\<exists>c. promoteTypes Byte ScalarType.Char = Inr c \<and> promotes_to Byte c \<and> promotes_to ScalarType.Char c)"
proof -
  have p: "promotable Byte" "promotable ScalarType.Char" by (simp_all add: scalar_class_defs)
  moreover have "promoteTypes Byte ScalarType.Char = Inr Short"
    by (simp add: promoteTypes_join [OF p] promotion_join_def promotes_to_def)
  ultimately show ?thesis using promoteTypes_least_upper_bound [OF p] by blast
qed

text \<open>
  Every scalar type but the \<open>NumOptions\<close> marker has a \<open>TypeMeta\<close> from which \<open>typeMetaToScalarType\<close>
  recovers it, and no other type has that meta; \<open>NumOptions\<close> is refused.
\<close>

theorem scalarType_typeMeta_roundtrip:
  "rbind (scalarTypeToTypeMeta t) typeMetaToScalarType =
     (if t = NumOptions then Inl (C10Error ''Unrecognized Scalartype '') else Inr t) \<and>
   (ScalarType_eq_TypeMeta t m \<longleftrightarrow> scalarTypeToTypeMeta t = Inr m)"
proof
  show "rbind (scalarTypeToTypeMeta t) typeMetaToScalarType =
     (if t = NumOptions then Inl (C10Error ''Unrecognized Scalartype '') else Inr t)"
    using typeMeta_roundtrip [of t]
    by (cases "t = NumOptions") (simp_all add: scalarTypeToTypeMeta_def all_scalar_types_def)
next
  show "ScalarType_eq_TypeMeta t m \<longleftrightarrow> scalarTypeToTypeMeta t = Inr m"
  proof (cases m)
    case NoTypeMeta
    then show ?thesis
      by (cases t) (simp_all add: ScalarType_eq_TypeMeta_def scalarTypeToTypeMeta_def
          tryTypeMetaToScalarType_def all_scalar_types_def)
  next
    case (MakeTypeMeta c)
    then show ?thesis
      by (cases c; cases t) (simp_all add: ScalarType_eq_TypeMeta_def scalarTypeToTypeMeta_def
          tryTypeMetaToScalarType_def all_scalar_types_def)
  qed
qed

end
