(* ===== verification/Strided.thy ===== *)
theory Strided
  imports Prelude
begin

text \<open>
  Strided geometry: \<open>aten/src/ATen/TensorUtils.cpp\<close> (\<open>geometry_is_contiguous\<close>, \<open>defaultStrides\<close>,
  \<open>computeStorageSize\<close>), \<open>TensorGeometry.h\<close> and \<open>.cpp\<close>, and \<open>THTensor_compute_stride\<close> of
  \<open>aten/src/TH/THTensor.cpp\<close>. Sizes and strides are \<open>int64_t\<close>: every product and sum of them is taken through
  \<open>wrap64\<close>, the wrap-around of two's complement that compilers give the signed overflow, and the one accumulator
  that the code keeps in a 32-bit \<open>int\<close> through \<open>int32_of\<close>. The theorems name the results that must not wrap.

  The loops run from the last dimension to the first, so they are recursions over the reversed lists. The
  reference point of every statement is \<open>offset\<close>: the storage offset, relative to the storage offset of the tensor,
  of the \<open>k\<close>-th element in row-major order.
\<close>

section \<open>The element at a row-major index\<close>

text \<open>Over (size, stride) pairs, innermost dimension first.\<close>

fun off :: "(int \<times> int) list \<Rightarrow> int \<Rightarrow> int" where
  "off [] k = 0"
| "off ((n, s) # r) k = (k mod n) * s + off r (k div n)"

definition numel_of :: "int list \<Rightarrow> int" where
  "numel_of sizes = prod_list sizes"

definition offset :: "int list \<Rightarrow> int list \<Rightarrow> int \<Rightarrow> int" where
  "offset sizes strides k = off (rev (zip sizes strides)) k"

section \<open>Functions of TensorUtils.cpp\<close>

fun contiguous_rev :: "(int \<times> int) list \<Rightarrow> int \<Rightarrow> bool \<Rightarrow> bool" where
  "contiguous_rev [] expected_stride contig_if_nonempty = contig_if_nonempty"
| "contiguous_rev ((n, s) # r) expected_stride contig_if_nonempty =
     (if n = 0 then True
      else if contig_if_nonempty
        then contiguous_rev r (wrap64 (expected_stride * n)) (\<not> (n \<noteq> 1 \<and> s \<noteq> expected_stride))
        else contiguous_rev r expected_stride False)"

definition geometry_is_contiguous :: "int list \<Rightarrow> int list \<Rightarrow> bool" where
  "geometry_is_contiguous sizes strides = contiguous_rev (rev (zip sizes strides)) 1 True"

fun default_strides_rev :: "int list \<Rightarrow> int \<Rightarrow> int list" where
  "default_strides_rev [] stride = []"
| "default_strides_rev (n # r) stride = stride # default_strides_rev r (wrap64 (stride * n))"

definition defaultStrides :: "int list \<Rightarrow> int list" where
  "defaultStrides sizes = rev (default_strides_rev (rev sizes) 1)"

fun storage_size_loop :: "(int \<times> int) list \<Rightarrow> int \<Rightarrow> int" where
  "storage_size_loop [] sz = sz"
| "storage_size_loop ((n, s) # r) sz =
     (if n = 0 then 0 else storage_size_loop r (wrap64 (sz + s * (n - 1))))"

definition computeStorageSize :: "int list \<Rightarrow> int list \<Rightarrow> int" where
  "computeStorageSize sizes strides = storage_size_loop (zip sizes strides) 1"

section \<open>TensorGeometry\<close>

record TensorGeometry =
  tg_sizes :: "int list"
  tg_strides :: "int list"
  tg_storage_offset :: int
  tg_numel :: int

definition mk_TensorGeometry :: "int list \<Rightarrow> TensorGeometry" where
  "mk_TensorGeometry sizes =
     \<lparr>tg_sizes = sizes, tg_strides = defaultStrides sizes, tg_storage_offset = 0,
      tg_numel = fold (\<lambda>n e. wrap64 (e * n)) (rev sizes) 1\<rparr>"

definition tg_is_contiguous :: "TensorGeometry \<Rightarrow> bool" where
  "tg_is_contiguous g =
     (if tg_numel g = 0 then True else geometry_is_contiguous (tg_sizes g) (tg_strides g))"

definition swap_at :: "'a list \<Rightarrow> nat \<Rightarrow> nat \<Rightarrow> 'a list" where
  "swap_at xs i j = xs[i := xs ! j, j := xs ! i]"

text \<open>The dimensions are checked against the upper bound only; a negative one indexes outside the vectors.\<close>

definition tg_transpose :: "TensorGeometry \<Rightarrow> int \<Rightarrow> int \<Rightarrow> TensorGeometry result" where
  "tg_transpose g dim0 dim1 =
     (let dim = int (length (tg_sizes g)) in
      rbind (AT_CHECK (dim0 < dim) ''transpose: dim0 out of range'') (\<lambda>_.
      rbind (AT_CHECK (dim1 < dim) ''transpose: dim1 out of range'') (\<lambda>_.
        if dim0 < 0 \<or> dim1 < 0 then Inl UndefinedBehaviour
        else Inr (g\<lparr>tg_sizes := swap_at (tg_sizes g) (nat dim0) (nat dim1),
                    tg_strides := swap_at (tg_strides g) (nat dim0) (nat dim1)\<rparr>))))"

section \<open>THTensor\_compute\_stride\<close>

text \<open>\<open>std::accumulate(begin, end, 1, std::multiplies<int64_t>())\<close>: the accumulator has the type of \<open>1\<close>.\<close>

definition accumulate_int :: "int list \<Rightarrow> int" where
  "accumulate_int xs = foldl (\<lambda>a x. int32_of (a * x)) 1 xs"

text \<open>The strides of the branch for empty tensors, as \<open>resize\<close> would compute them.\<close>

fun resize_strides_rev :: "int list \<Rightarrow> (int \<times> int) option \<Rightarrow> int list" where
  "resize_strides_rev [] prev = []"
| "resize_strides_rev (n # r) prev =
     (let s = (case prev of None \<Rightarrow> 1 | Some (pn, ps) \<Rightarrow> wrap64 (max pn 1 * ps))
      in s # resize_strides_rev r (Some (n, s)))"

text \<open>
  The inner \<open>while\<close> over the view's dimensions \<open>vs\<close>, innermost first: the strides it writes, the final
  \<open>view_numel\<close> and the dimensions it leaves.
\<close>

fun view_chunk :: "int \<Rightarrow> int \<Rightarrow> int \<Rightarrow> int list \<Rightarrow> int list \<times> int \<times> int list" where
  "view_chunk base tensor_numel view_numel [] = ([], view_numel, [])"
| "view_chunk base tensor_numel view_numel (m # vs) =
     (if view_numel < tensor_numel \<or> m = 1
      then (let (ss, v, rest) = view_chunk base tensor_numel (wrap64 (view_numel * m)) vs
            in (wrap64 (view_numel * base) # ss, v, rest))
      else ([], view_numel, m # vs))"

fun chunks_loop :: "(int \<times> int) list \<Rightarrow> int \<Rightarrow> int \<Rightarrow> int list \<Rightarrow> int list option" where
  "chunks_loop [] base tensor_numel vs = (if vs = [] then Some [] else None)"
| "chunks_loop ((n, s) # os) base tensor_numel vs =
     (let t = wrap64 (tensor_numel * n) in
      if os = [] \<or> (fst (hd os) \<noteq> 1 \<and> snd (hd os) \<noteq> wrap64 (t * base))
      then (let (ss, v, rest) = view_chunk base t 1 vs in
            if v \<noteq> t then None
            else map_option (\<lambda>r. ss @ r)
              (chunks_loop os (if os = [] then base else snd (hd os)) 1 rest))
      else chunks_loop os base t vs)"

definition THTensor_compute_stride :: "int list \<Rightarrow> int list \<Rightarrow> int list \<Rightarrow> int list option" where
  "THTensor_compute_stride oldshape oldstride newshape =
     (if oldshape = [] then Some (replicate (length newshape) 1)
      else
        let numel = accumulate_int oldshape in
        if numel = 0 \<and> oldshape = newshape then Some oldstride
        else if numel = 0 then Some (rev (resize_strides_rev (rev newshape) None))
        else map_option rev
          (chunks_loop (rev (zip oldshape oldstride)) (last oldstride) 1 (rev newshape)))"

section \<open>Offsets\<close>

definition prod_sizes :: "(int \<times> int) list \<Rightarrow> int" where
  "prod_sizes xs = prod_list (map fst xs)"

lemma prod_sizes_simps [simp]:
  "prod_sizes [] = 1"
  "prod_sizes ((n, s) # r) = n * prod_sizes r"
  "prod_sizes (xs @ ys) = prod_sizes xs * prod_sizes ys"
  by (simp_all add: prod_sizes_def)

definition pos_sizes :: "(int \<times> int) list \<Rightarrow> bool" where
  "pos_sizes xs \<longleftrightarrow> list_all (\<lambda>p. 0 < fst p) xs"

lemma pos_sizes_simps [simp]:
  "pos_sizes []"
  "pos_sizes ((n, s) # r) \<longleftrightarrow> 0 < n \<and> pos_sizes r"
  "pos_sizes (xs @ ys) \<longleftrightarrow> pos_sizes xs \<and> pos_sizes ys"
  "pos_sizes (rev xs) \<longleftrightarrow> pos_sizes xs"
  by (auto simp: pos_sizes_def list_all_iff)

lemma prod_sizes_pos: "pos_sizes xs \<Longrightarrow> 0 < prod_sizes xs"
  by (induction xs) (auto simp: prod_sizes_def)

lemma off_append:
  "pos_sizes xs \<Longrightarrow> off (xs @ ys) k = off xs k + off ys (k div prod_sizes xs)"
proof (induction xs arbitrary: k)
  case Nil
  show ?case by simp
next
  case (Cons p xs)
  obtain n s where p: "p = (n, s)" by (cases p)
  with Cons.prems have "0 < prod_sizes xs" by (simp add: prod_sizes_pos)
  then have "k div n div prod_sizes xs = k div (n * prod_sizes xs)"
    by (simp add: zdiv_zmult2_eq)
  with Cons p show ?case by simp
qed

text \<open>A dimension that continues a chunk whose elements lie \<open>b\<close> apart.\<close>

lemma mod_mult_split: "0 < (n :: int) \<Longrightarrow> k mod (t * n) = t * (k div t mod n) + k mod t"
  by (simp add: zmod_zmult2_eq)

lemma off_snoc_chunk:
  assumes pos: "pos_sizes xs" "0 < n" and chunk: "\<And>k. off xs k = b * (k mod prod_sizes xs)"
    and s: "n = 1 \<or> s = prod_sizes xs * b"
  shows "off (xs @ [(n, s)]) k = b * (k mod (prod_sizes xs * n))"
proof (cases "n = 1")
  case True
  then show ?thesis using off_append [OF pos(1)] chunk by simp
next
  case False
  with s have "s = prod_sizes xs * b" by simp
  then show ?thesis
    using off_append [OF pos(1), of "[(n, s)]" k] chunk mod_mult_split [OF pos(2), of k "prod_sizes xs"]
    by (simp add: algebra_simps)
qed

section \<open>Contiguity\<close>

lemma contiguous_rev_False: "contiguous_rev xs e False \<longleftrightarrow> list_ex (\<lambda>p. fst p = 0) xs"
  by (induction xs e False rule: contiguous_rev.induct) auto

text \<open>A prefix of a product of positive sizes that does not wrap does not wrap.\<close>

lemma prefix_fits:
  assumes "0 < e" "0 < n" "0 < p" "e * (n * p) < 2 ^ 63"
  shows "wrap64 (e * n) = e * n" "0 < e * n" "e * n * p < 2 ^ 63"
proof -
  have "0 \<le> e * n" using assms by simp
  then have "e * n * 1 \<le> e * n * p" using assms(3) by (intro mult_left_mono) auto
  then have "e * n < 2 ^ 63" using assms(4) by (simp add: mult.assoc)
  then show "wrap64 (e * n) = e * n" using \<open>0 \<le> e * n\<close> by (intro wrap64_id) auto
  show "0 < e * n" "e * n * p < 2 ^ 63" using assms by (simp_all add: mult.assoc)
qed

text \<open>Contiguous dimensions with positive sizes lay their elements out one after another.\<close>

lemma contiguous_rev_off:
  "pos_sizes xs \<Longrightarrow> 0 < e \<Longrightarrow> e * prod_sizes xs < 2 ^ 63 \<Longrightarrow> contiguous_rev xs e True \<Longrightarrow>
     off xs k = e * (k mod prod_sizes xs)"
proof (induction xs arbitrary: e k)
  case Nil
  show ?case by simp
next
  case (Cons p xs)
  obtain n s where p: "p = (n, s)" by (cases p)
  have nc: "\<not> contiguous_rev xs e' False" for e'
    using Cons.prems p by (auto simp: contiguous_rev_False pos_sizes_def list_all_iff list_ex_iff)
  have pos: "0 < prod_sizes xs" "0 < n" using Cons.prems p prod_sizes_pos by auto
  have "e * (n * prod_sizes xs) < 2 ^ 63" using Cons.prems(3) p by simp
  note fit = prefix_fits [OF Cons.prems(2) pos(2,1) this]
  have ns: "n = 1 \<or> s = e"
    using Cons.prems(4) p nc [of "e * n"] pos fit(1) by (rule_tac ccontr) auto
  have c: "contiguous_rev xs (e * n) True"
    using Cons.prems(4) p ns pos fit(1) by auto
  have "off (p # xs) k = k mod n * s + e * n * (k div n mod prod_sizes xs)"
    using Cons.IH [OF _ fit(2,3) c] Cons.prems(1) p by simp
  also have "k mod n * s = e * (k mod n)" using ns by auto
  also have "e * (k mod n) + e * n * (k div n mod prod_sizes xs) = e * (k mod (n * prod_sizes xs))"
    using mod_mult_split [OF pos(1), of k n] by (simp add: algebra_simps)
  finally show ?case using p by simp
qed

lemma off_zero [simp]: "pos_sizes xs \<Longrightarrow> off xs 0 = 0"
  by (induction xs) auto

text \<open>Conversely, a layout that enumerates the elements one after another is contiguous.\<close>

lemma off_contiguous_rev:
  "pos_sizes xs \<Longrightarrow> 0 < e \<Longrightarrow> e * prod_sizes xs < 2 ^ 63 \<Longrightarrow>
     (\<And>k. 0 \<le> k \<Longrightarrow> k < prod_sizes xs \<Longrightarrow> off xs k = e * k) \<Longrightarrow> contiguous_rev xs e True"
proof (induction xs arbitrary: e)
  case Nil
  show ?case by simp
next
  case (Cons p xs)
  obtain n s where p: "p = (n, s)" by (cases p)
  have pos: "0 < n" "pos_sizes xs" "0 < prod_sizes xs" using Cons.prems(1) p prod_sizes_pos by auto
  have "e * (n * prod_sizes xs) < 2 ^ 63" using Cons.prems(3) p by simp
  note fit = prefix_fits [OF Cons.prems(2) pos(1,3) this]
  have "n = 1 \<or> s = e"
  proof (rule disjCI)
    assume "s \<noteq> e"
    show "n = 1"
    proof (rule ccontr)
      assume "n \<noteq> 1"
      with pos have "1 < n" by simp
      then have "1 < prod_sizes (p # xs)" using p pos
        by (metis dual_order.strict_trans1 int_one_le_iff_zero_less linorder_not_less mult.commute
            mult_le_cancel_right1 prod_sizes_simps(2))
      from Cons.prems(4) [of 1, OF _ this] have "off (p # xs) 1 = e" by simp
      moreover have "off (p # xs) 1 = s" using p \<open>1 < n\<close> pos by simp
      ultimately show False using \<open>s \<noteq> e\<close> by simp
    qed
  qed
  moreover have "contiguous_rev xs (e * n) True"
  proof (rule Cons.IH [OF pos(2) fit(2,3)])
    fix k assume k: "0 \<le> k" "k < prod_sizes xs"
    then have "n * k < prod_sizes (p # xs)" using p pos by simp
    with k pos Cons.prems(4) [of "n * k"] have "off (p # xs) (n * k) = e * (n * k)" by simp
    then show "off xs k = e * n * k" using p pos by simp
  qed
  ultimately show ?case using p pos fit(1) by auto
qed

lemma offset_pos_sizes: "list_all (\<lambda>n. 0 < n) sizes \<Longrightarrow> pos_sizes (rev (zip sizes strides))"
  by (auto simp: pos_sizes_def list_all_iff dest: set_zip_leftD)

lemma prod_sizes_zip:
  "length strides = length sizes \<Longrightarrow> prod_sizes (rev (zip sizes strides)) = numel_of sizes"
  by (simp add: prod_sizes_def numel_of_def rev_map [symmetric] del: rev_map)

section \<open>Views\<close>

lemma view_chunk_spec:
  assumes "view_chunk b t v vs = (ss, v', rest)" "list_all (\<lambda>m. 0 < m) vs"
    and "pos_sizes V" "prod_sizes V = v" "\<And>k. off V k = b * (k mod v)"
    and "v * prod_list vs < 2 ^ 63" "\<And>w. 0 < w \<Longrightarrow> w < t \<Longrightarrow> wrap64 (w * b) = w * b"
  shows "\<exists>us. vs = us @ rest \<and> length ss = length us \<and> pos_sizes (V @ zip us ss) \<and>
    prod_sizes (V @ zip us ss) = v' \<and> (\<forall>k. off (V @ zip us ss) k = b * (k mod v'))"
  using assms
proof (induction vs arbitrary: v ss V)
  case Nil
  then show ?case by auto
next
  case (Cons m vs)
  show ?case
  proof (cases "v < t \<or> m = 1")
    case False
    with Cons.prems show ?thesis by auto
  next
    case True
    have m: "0 < m" using Cons.prems(2) by simp
    have v: "0 < v" using prod_sizes_pos [OF Cons.prems(3)] Cons.prems(4) by simp
    have pv: "0 < prod_list vs" using Cons.prems(2) by (induction vs) auto
    have "v * (m * prod_list vs) < 2 ^ 63" using Cons.prems(6) by simp
    note fit = prefix_fits [OF v m pv this]
    let ?s = "wrap64 (v * b)"
    from True obtain ss1 where ss: "ss = ?s # ss1" and vc: "view_chunk b t (v * m) vs = (ss1, v', rest)"
      using Cons.prems(1) fit(1) by (auto split: prod.splits)
    let ?V = "V @ [(m, ?s)]"
    have "m = 1 \<or> ?s = v * b" using True Cons.prems(7) [OF v] by auto
    then have offV: "off ?V k = b * (k mod (v * m))" for k
      using off_snoc_chunk [OF Cons.prems(3) m, of b ?s k] Cons.prems(4,5) by simp
    have "\<exists>us. vs = us @ rest \<and> length ss1 = length us \<and> pos_sizes (?V @ zip us ss1) \<and>
      prod_sizes (?V @ zip us ss1) = v' \<and> (\<forall>k. off (?V @ zip us ss1) k = b * (k mod v'))"
      using Cons.prems(2-4) m fit(3) Cons.prems(7) by (intro Cons.IH [OF vc]) (simp_all add: offV)
    then obtain us where "vs = us @ rest" "length ss1 = length us" "pos_sizes (?V @ zip us ss1)"
      "prod_sizes (?V @ zip us ss1) = v'" "\<forall>k. off (?V @ zip us ss1) k = b * (k mod v')" by blast
    then show ?thesis using ss by (intro exI [of _ "m # us"]) simp
  qed
qed

lemma mult_fits: "0 \<le> w \<Longrightarrow> w \<le> N \<Longrightarrow> \<bar>b\<bar> * N < 2 ^ 63 \<Longrightarrow> wrap64 (w * b) = w * b"
proof (rule wrap64_id)
  assume a: "0 \<le> w" "w \<le> N" "\<bar>b\<bar> * N < 2 ^ 63"
  have "\<bar>w * b\<bar> \<le> N * \<bar>b\<bar>" unfolding abs_mult using a by (intro mult_mono) auto
  then show "- (2 ^ 63) \<le> w * b" "w * b < 2 ^ 63" using a(3) by (simp_all add: mult.commute)
qed

lemma prod_list_pos: "list_all (\<lambda>n. 0 < n) ns \<Longrightarrow> 0 < prod_list (ns :: int list)"
  by (induction ns) auto

lemma chunks_loop_spec:
  assumes "chunks_loop os b t vs = Some ss" "list_all (\<lambda>m. 0 < m) vs"
    and "pos_sizes P" "pos_sizes C" "pos_sizes os" "pos_sizes Q"
    and "prod_sizes C = t" "\<And>k. off C k = b * (k mod t)"
    and "prod_sizes Q = prod_sizes P" "\<And>k. off Q k = off P k"
    and "os \<noteq> [] \<Longrightarrow> fst (hd os) = 1 \<or> snd (hd os) = t * b" "os = [] \<Longrightarrow> C = []"
    and "prod_list vs < 2 ^ 63" "t * prod_sizes os \<le> N" "\<bar>b\<bar> * N < 2 ^ 63" "list_all (\<lambda>p. \<bar>snd p\<bar> * N < 2 ^ 63) os"
    and "N < 2 ^ 63"
  shows "length ss = length vs \<and> prod_sizes (Q @ zip vs ss) = prod_sizes (P @ C @ os) \<and>
    (\<forall>k. off (Q @ zip vs ss) k = off (P @ C @ os) k)"
  using assms
proof (induction os arbitrary: b t vs ss P C Q)
  case Nil
  then show ?case by (auto split: if_splits)
next
  case (Cons p os)
  obtain n s where p: "p = (n, s)" by (cases p)
  let ?C = "C @ [(n, s)]"
  have n: "0 < n" using Cons.prems(5) p by simp
  have t: "0 < t" using prod_sizes_pos [OF Cons.prems(4)] Cons.prems(7) by simp
  have po: "0 < prod_sizes os" using prod_sizes_pos Cons.prems(5) p by simp
  have tN: "t * n * prod_sizes os \<le> N" using Cons.prems(14) p by (simp add: mult.assoc)
  have "t * (n * prod_sizes os) < 2 ^ 63" using tN Cons.prems(17) by (simp add: mult.assoc)
  note fit = prefix_fits [OF t n po this]
  have "t * n * 1 \<le> t * n * prod_sizes os" using fit(2) po by (intro mult_left_mono) auto
  then have tn: "t * n \<le> N" using tN by simp
  have ex: "wrap64 (w * b) = w * b" if "0 < w" "w \<le> t * n" for w
    using mult_fits [of w N b] that tn Cons.prems(15) by simp
  have offC: "off ?C k = b * (k mod (t * n))" for k
    using off_snoc_chunk [OF Cons.prems(4) n, of b s k] Cons.prems(7,8,11) p by simp
  show ?case
  proof (cases "os = [] \<or> (fst (hd os) \<noteq> 1 \<and> snd (hd os) \<noteq> t * n * b)")
    case False
    then have loop: "chunks_loop os b (t * n) vs = Some ss" using Cons.prems(1) p fit(1) ex [of "t * n"] fit(2) by auto
    have "length ss = length vs \<and> prod_sizes (Q @ zip vs ss) = prod_sizes (P @ ?C @ os) \<and>
      (\<forall>k. off (Q @ zip vs ss) k = off (P @ ?C @ os) k)"
      using Cons.prems(3-7,13-17) p n False tN
      by (intro Cons.IH [OF loop Cons.prems(2)]) (auto simp: offC Cons.prems(9,10))
    then show ?thesis using p by simp
  next
    case True
    let ?b = "if os = [] then b else snd (hd os)"
    obtain ss1 v rest where vc: "view_chunk b (t * n) 1 vs = (ss1, v, rest)" by (metis prod_cases3)
    then obtain r where v: "v = t * n" and ss: "ss = ss1 @ r" and loop: "chunks_loop os ?b 1 rest = Some r"
      using Cons.prems(1) p True fit(1) ex [of "t * n"] fit(2) by (auto simp: Let_def split: if_splits)
    have ex': "\<And>w. 0 < w \<Longrightarrow> w < t * n \<Longrightarrow> wrap64 (w * b) = w * b" using ex by simp
    from view_chunk_spec [OF vc Cons.prems(2), of "[]", OF _ _ _ _ ex'] Cons.prems(13) obtain us where us: "vs = us @ rest"
      "length ss1 = length us" "pos_sizes (zip us ss1)" "prod_sizes (zip us ss1) = v"
      "\<And>k. off (zip us ss1) k = b * (k mod v)" by auto
    have offQ: "off (Q @ zip us ss1) k = off (P @ ?C) k" for k
      using off_append [OF Cons.prems(6), of "zip us ss1" k] off_append [OF Cons.prems(3), of ?C k]
      by (simp add: Cons.prems(9,10) us(5) v offC)
    have "0 < prod_list us" "0 < prod_list rest" "0 < t * n"
      using Cons.prems(2) us(1) fit(2) by (simp_all add: prod_list_pos)
    then have "1 * prod_list rest \<le> prod_list us * prod_list rest" by (intro mult_right_mono) auto
    then have lt: "prod_list rest < 2 ^ 63" using Cons.prems(13) us(1) by simp
    have "1 * prod_sizes os \<le> t * n * prod_sizes os" using fit(2) po by (intro mult_right_mono) auto
    then have pN: "prod_sizes os \<le> N" using tN by simp
    have bN: "\<bar>?b\<bar> * N < 2 ^ 63" using Cons.prems(15,16) p by (cases os) auto
    note rest = lt pN bN
    have "length r = length rest \<and>
      prod_sizes ((Q @ zip us ss1) @ zip rest r) = prod_sizes ((P @ ?C) @ [] @ os) \<and>
      (\<forall>k. off ((Q @ zip us ss1) @ zip rest r) k = off ((P @ ?C) @ [] @ os) k)"
      using Cons.prems(2-6) us n p v Cons.prems(7,9)
      by (intro Cons.IH [OF loop]) (simp_all only: offQ rest, use Cons.prems(16,17) pN in simp_all)
    then show ?thesis using us(1,2) ss p by simp
  qed
qed

lemma accumulate_int_exact:
  assumes "list_all (\<lambda>n. 0 < n) xs" "numel_of xs < 2 ^ 31"
  shows "accumulate_int xs = numel_of xs"
proof -
  have "foldl (\<lambda>a x. int32_of (a * x)) a xs = a * prod_list xs"
    if "0 < a" "a * prod_list xs < 2 ^ 31" for a
    using assms(1) that
  proof (induction xs arbitrary: a)
    case Nil
    then show ?case by simp
  next
    case (Cons x xs)
    have "0 < prod_list xs" using Cons.prems(1) by (induction xs) auto
    then have le: "a * x \<le> a * (x * prod_list xs)" using Cons.prems by (simp add: mult_le_cancel_left1)
    have ax: "a * x < 2 ^ 31" "0 < a * x" using le_less_trans [OF le] Cons.prems by simp_all
    then have "int32_of (a * x) = a * x"
      by (simp add: int32_of_def signed_take_bit_int_eq_self)
    then show ?case using Cons ax by (simp add: mult.assoc)
  qed
  from this [of 1] show ?thesis using assms(2) by (simp add: accumulate_int_def numel_of_def)
qed

lemma numel_of_pos: "list_all (\<lambda>n. 0 < n) xs \<Longrightarrow> 0 < numel_of xs"
  by (induction xs) (auto simp: numel_of_def)

lemma hd_rev_zip:
  "length ys = length xs \<Longrightarrow> xs \<noteq> [] \<Longrightarrow> hd (rev (zip xs ys)) = (last xs, last ys)"
  by (metis hd_rev last_zip length_0_conv)

lemma compute_stride_view:
  assumes len: "length oldstride = length oldshape" and ne: "oldshape \<noteq> []"
    and pos: "list_all (\<lambda>n. 0 < n) oldshape" "list_all (\<lambda>n. 0 < n) newshape"
    and small: "numel_of oldshape < 2 ^ 31" "numel_of newshape < 2 ^ 63"
    and fit: "list_all (\<lambda>s. \<bar>s\<bar> * numel_of oldshape < 2 ^ 63) oldstride"
    and res: "THTensor_compute_stride oldshape oldstride newshape = Some newstride"
  shows "length newstride = length newshape \<and> numel_of newshape = numel_of oldshape \<and>
    (\<forall>k. offset newshape newstride k = offset oldshape oldstride k)"
proof -
  let ?os = "rev (zip oldshape oldstride)"
  have "accumulate_int oldshape \<noteq> 0"
    using accumulate_int_exact [OF pos(1) small(1)] numel_of_pos [OF pos(1)] by simp
  then obtain ss where loop: "chunks_loop ?os (last oldstride) 1 (rev newshape) = Some ss"
    and ns: "newstride = rev ss"
    using res ne by (auto simp: THTensor_compute_stride_def Let_def split: if_splits)
  have "length ss = length (rev newshape) \<and>
    prod_sizes ([] @ zip (rev newshape) ss) = prod_sizes ([] @ [] @ ?os) \<and>
    (\<forall>k. off ([] @ zip (rev newshape) ss) k = off ([] @ [] @ ?os) k)"
  proof (rule chunks_loop_spec [OF loop, where N = "numel_of oldshape"])
    show "\<bar>last oldstride\<bar> * numel_of oldshape < 2 ^ 63" using fit ne len by (cases oldstride rule: rev_cases) auto
    show "list_all (\<lambda>p. \<bar>snd p\<bar> * numel_of oldshape < 2 ^ 63) ?os"
      using fit by (auto simp: list_all_iff dest: set_zip_rightD)
    show "1 * prod_sizes ?os \<le> numel_of oldshape" using prod_sizes_zip [OF len] by simp
    show "prod_list (rev newshape) < 2 ^ 63" using small(2) by (simp add: numel_of_def)
  qed (use small(1) pos offset_pos_sizes [OF pos(1), of oldstride] len ne in \<open>simp_all add: list_all_iff hd_rev_zip\<close>)
  moreover from this have "zip (rev newshape) ss = rev (zip newshape newstride)"
    using zip_rev [of newshape "rev ss"] by (simp add: ns)
  ultimately show ?thesis
    using prod_sizes_zip [OF len] prod_sizes_zip [of newstride newshape] ns
    by (simp add: offset_def)
qed

section \<open>Storage size\<close>

lemma storage_size_pos:
  "pos_sizes xs \<Longrightarrow> storage_size_loop xs (wrap64 z) = wrap64 (z + sum_list (map (\<lambda>(n, s). s * (n - 1)) xs))"
proof (induction xs arbitrary: z)
  case (Cons p xs)
  then show ?case using Cons.IH [of "z + snd p * (fst p - 1)"] by (cases p) (auto simp: add.assoc)
qed simp

lemma storage_size_zero: "list_ex (\<lambda>p. fst p = 0) xs \<Longrightarrow> storage_size_loop xs z = 0"
  by (induction xs arbitrary: z) auto

lemma off_bounds:
  assumes "pos_sizes xs" "list_all (\<lambda>p. 0 \<le> snd p) xs"
  shows "0 \<le> off xs k \<and> off xs k \<le> sum_list (map (\<lambda>(n, s). s * (n - 1)) xs)"
  using assms
proof (induction xs arbitrary: k)
  case Nil
  show ?case by simp
next
  case (Cons p xs)
  obtain n s where p: "p = (n, s)" by (cases p)
  then have n: "0 < n" "0 \<le> s" using Cons.prems by auto
  have "k mod n \<le> n - 1" "0 \<le> k mod n" using n by simp_all
  then have "k mod n * s \<le> s * (n - 1)" "0 \<le> k mod n * s"
    using n by (auto simp: mult.commute intro: mult_left_mono)
  moreover have "0 \<le> off xs (k div n) \<and> off xs (k div n) \<le> sum_list (map (\<lambda>(n, s). s * (n - 1)) xs)"
    using Cons by (simp add: pos_sizes_def)
  ultimately show ?case using p by simp
qed

lemma off_last:
  assumes "pos_sizes xs"
  shows "off xs (prod_sizes xs - 1) = sum_list (map (\<lambda>(n, s). s * (n - 1)) xs)"
  using assms
proof (induction xs)
  case Nil
  show ?case by simp
next
  case (Cons p xs)
  obtain n s where p: "p = (n, s)" by (cases p)
  then have n: "0 < n" using Cons.prems by simp
  have e: "n * prod_sizes xs - 1 = n * (prod_sizes xs - 1) + (n - 1)" by (simp add: algebra_simps)
  have "(n * prod_sizes xs - 1) mod n = n - 1" "(n * prod_sizes xs - 1) div n = prod_sizes xs - 1"
    unfolding e using n by (simp_all add: zmod_minus1 div_pos_pos_trivial)
  then show ?case using Cons p by (simp add: mult.commute)
qed

lemma default_strides_contiguous:
  "contiguous_rev (zip ns (default_strides_rev ns e)) e True"
  by (induction ns arbitrary: e) auto

lemma length_default_strides_rev [simp]: "length (default_strides_rev ns e) = length ns"
  by (induction ns arbitrary: e) auto

lemma length_defaultStrides [simp]: "length (defaultStrides ns) = length ns"
  by (simp add: defaultStrides_def)

lemma defaultStrides_contiguous: "geometry_is_contiguous ns (defaultStrides ns)"
proof -
  have "rev (zip ns (defaultStrides ns)) = zip (rev ns) (default_strides_rev (rev ns) 1)"
    using zip_rev [of ns "defaultStrides ns"] by (simp add: defaultStrides_def)
  then show ?thesis by (simp add: geometry_is_contiguous_def default_strides_contiguous)
qed

lemma fold_numel: "fold (\<lambda>n e. wrap64 (e * n)) xs (wrap64 a) = wrap64 (a * prod_list xs)"
proof (induction xs arbitrary: a)
  case (Cons x xs)
  then show ?case using Cons.IH [of "a * x"] by (simp add: mult.assoc)
qed simp

lemma prod_list_zero_iff: "prod_list (xs :: int list) = 0 \<longleftrightarrow> 0 \<in> set xs"
  by (induction xs) auto

lemma zip_has_zero:
  assumes "0 \<in> set sizes" "length strides = length sizes"
  shows "list_ex (\<lambda>p. fst p = 0) (zip sizes strides)"
proof -
  obtain b where "(0, b) \<in> set (zip sizes strides)"
    using in_set_impl_in_set_zip1 assms by metis
  then show ?thesis unfolding list_ex_iff by (intro bexI [of _ "(0, b)"]) simp_all
qed

lemma contiguous_rev_zero: "list_ex (\<lambda>p. fst p = 0) xs \<Longrightarrow> contiguous_rev xs e c"
  by (induction xs e c rule: contiguous_rev.induct) auto

lemma geometry_is_contiguous_empty:
  "0 \<in> set sizes \<Longrightarrow> length strides = length sizes \<Longrightarrow> geometry_is_contiguous sizes strides"
  using zip_has_zero [of sizes strides]
  by (simp add: geometry_is_contiguous_def contiguous_rev_zero)

lemma sizes_cases:
  assumes "list_all (\<lambda>n. 0 \<le> n) (sizes :: int list)"
  obtains "0 \<in> set sizes" | "list_all (\<lambda>n. 0 < n) sizes"
  using assms by (force simp: list_all_iff order_le_less)

section \<open>Properties\<close>

text \<open>
  Property C13. \<open>THTensor_compute_stride\<close> never returns a wrong view: for a tensor with at least one dimension,
  positive sizes, fewer than \<open>2\<^sup>31\<close> elements and strides whose products with the element count fit in an
  \<open>int64_t\<close>, and a new shape with positive sizes whose element count fits in an \<open>int64_t\<close>: when it returns strides
  for the new shape, that shape has as many elements as the tensor and the \<open>k\<close>-th element of the view, in row-major
  order, is stored where the \<open>k\<close>-th element of the tensor is.
\<close>

theorem compute_stride_preserves_elements:
  assumes "length oldstride = length oldshape" and "oldshape \<noteq> []"
    and "list_all (\<lambda>n. 0 < n) oldshape" and "list_all (\<lambda>n. 0 < n) newshape"
    and "numel_of oldshape < 2 ^ 31" and "numel_of newshape < 2 ^ 63"
    and "list_all (\<lambda>s. \<bar>s\<bar> * numel_of oldshape < 2 ^ 63) oldstride"
    and "THTensor_compute_stride oldshape oldstride newshape = Some newstride"
  shows "length newstride = length newshape \<and> numel_of newshape = numel_of oldshape \<and>
    (\<forall>k. offset newshape newstride k = offset oldshape oldstride k)"
  using assms by (rule compute_stride_view)

theorem compute_stride_preserves_elements_witness:
  "THTensor_compute_stride [4, 2, 3] [12, 3, 1] [2, 2, 6] = Some [24, 12, 1] \<and>
   THTensor_compute_stride [4, 2, 3] [12, 3, 1] [8, 3] = None \<and>
   (\<forall>k. offset [2, 2, 6] [24, 12, 1] k = offset [4, 2, 3] [12, 3, 1] k)"
proof -
  have "THTensor_compute_stride [4, 2, 3] [12, 3, 1] [2, 2, 6] = Some [24, 12, 1]"
    "THTensor_compute_stride [4, 2, 3] [12, 3, 1] [8, 3] = None" by code_simp+
  moreover from compute_stride_preserves_elements [OF _ _ _ _ _ _ _ this(1)]
  have "\<forall>k. offset [2, 2, 6] [24, 12, 1] k = offset [4, 2, 3] [12, 3, 1] k"
    by (simp add: numel_of_def)
  ultimately show ?thesis by simp
qed

text \<open>
  The element count of \<open>THTensor_compute_stride\<close> is accumulated in a 32-bit \<open>int\<close>: a transposed
  65536 by 65536 tensor, whose element count is a multiple of \<open>2\<^sup>32\<close>, is taken for an empty one, and a flat view
  with stride 1 is returned in which the second element is not the second element of the tensor.
\<close>

theorem compute_stride_numel_truncation:
  "accumulate_int [65536, 65536] = 0 \<and>
   THTensor_compute_stride [65536, 65536] [1, 65536] [4294967296] = Some [1] \<and>
   offset [4294967296] [1] 1 = 1 \<and> offset [65536, 65536] [1, 65536] 1 = 65536"
proof -
  have a: "accumulate_int [65536, 65536] = 0" by code_simp
  moreover from a have "THTensor_compute_stride [65536, 65536] [1, 65536] [4294967296] = Some [1]"
    by (simp add: THTensor_compute_stride_def)
  ultimately show ?thesis by (simp add: offset_def)
qed

text \<open>
  The element count of a requested shape wraps as well: the view of 8 elements with \<open>2\<^sup>62 + 2\<close> rows of 4 is accepted.
\<close>

lemma compute_stride_wraps: "THTensor_compute_stride [8] [1] [2 ^ 62 + 2, 4] = Some [4, 1]"
  by code_simp

text \<open>
  Property C39. \<open>geometry_is_contiguous\<close> answers exactly the question it is named after: a geometry with non-negative
  sizes whose element count fits in an \<open>int64_t\<close> is contiguous iff it is empty or its \<open>k\<close>-th element in row-major
  order is at offset \<open>k\<close>; and \<open>defaultStrides\<close> always gives a geometry that it answers contiguous.
\<close>

theorem geometry_is_contiguous_iff:
  assumes "length strides = length sizes" and "list_all (\<lambda>n. 0 \<le> n) sizes" and "numel_of sizes < 2 ^ 63"
  shows "(geometry_is_contiguous sizes strides \<longleftrightarrow>
      numel_of sizes = 0 \<or> (\<forall>k. 0 \<le> k \<and> k < numel_of sizes \<longrightarrow> offset sizes strides k = k)) \<and>
    geometry_is_contiguous sizes (defaultStrides sizes)"
  using assms(2)
proof (cases rule: sizes_cases)
  case 1
  then show ?thesis
    using geometry_is_contiguous_empty [OF 1 assms(1)] defaultStrides_contiguous
    by (simp add: numel_of_def prod_list_zero_iff)
next
  case 2
  let ?xs = "rev (zip sizes strides)"
  have pos: "pos_sizes ?xs" by (rule offset_pos_sizes [OF 2])
  have "geometry_is_contiguous sizes strides \<longleftrightarrow>
      (\<forall>k. 0 \<le> k \<and> k < numel_of sizes \<longrightarrow> offset sizes strides k = k)"
    using contiguous_rev_off [OF pos, of 1] off_contiguous_rev [OF pos, of 1] prod_sizes_zip [OF assms(1)] assms(3)
    by (auto simp: geometry_is_contiguous_def offset_def)
  then show ?thesis using numel_of_pos [OF 2] defaultStrides_contiguous by auto
qed

theorem geometry_is_contiguous_iff_witness:
  "geometry_is_contiguous [2, 3] [3, 1] \<and> \<not> geometry_is_contiguous [2, 3] [1, 2] \<and>
   offset [2, 3] [3, 1] 4 = 4"
  using geometry_is_contiguous_iff [of "[3, 1]" "[2, 3]"]
  by (simp add: geometry_is_contiguous_def numel_of_def wrap64_id)

text \<open>
  Property C40. \<open>computeStorageSize\<close> is the least storage that holds the tensor: with non-negative sizes and strides,
  and an offset of the last element below \<open>2\<^sup>63 - 1\<close>, it is 0 for an empty tensor, and otherwise every element
  lies below it and the last one lies right below it.
\<close>

theorem computeStorageSize_least:
  assumes "length strides = length sizes" and "list_all (\<lambda>n. 0 \<le> n) sizes" and "list_all (\<lambda>s. 0 \<le> s) strides"
    and "offset sizes strides (numel_of sizes - 1) + 1 < 2 ^ 63"
  shows "if numel_of sizes = 0 then computeStorageSize sizes strides = 0
    else (\<forall>k. 0 \<le> offset sizes strides k \<and> offset sizes strides k < computeStorageSize sizes strides) \<and>
      offset sizes strides (numel_of sizes - 1) + 1 = computeStorageSize sizes strides"
  using assms(2)
proof (cases rule: sizes_cases)
  case 1
  then show ?thesis using storage_size_zero [OF zip_has_zero [OF 1 assms(1)]]
    by (simp add: numel_of_def prod_list_zero_iff computeStorageSize_def)
next
  case 2
  let ?xs = "rev (zip sizes strides)"
  have pos: "pos_sizes ?xs" by (rule offset_pos_sizes [OF 2])
  have snn: "list_all (\<lambda>p. 0 \<le> snd p) ?xs"
    using assms(3) by (auto simp: list_all_iff dest: set_zip_rightD)
  let ?sum = "sum_list (map (\<lambda>(n, s). s * (n - 1)) ?xs)"
  have last: "offset sizes strides (numel_of sizes - 1) = ?sum"
    using off_last [OF pos] prod_sizes_zip [OF assms(1)] by (simp add: offset_def)
  have "0 \<le> ?sum" using off_bounds [OF pos snn, of 0] by linarith
  then have fit: "wrap64 (1 + ?sum) = 1 + ?sum" using assms(4) last by (intro wrap64_id) auto
  have "computeStorageSize sizes strides = storage_size_loop (zip sizes strides) (wrap64 1)"
    by (simp add: computeStorageSize_def wrap64_id)
  also have "\<dots> = wrap64 (1 + sum_list (map (\<lambda>(n, s). s * (n - 1)) (zip sizes strides)))"
    using pos by (intro storage_size_pos) simp
  also have "\<dots> = wrap64 (1 + ?sum)" by (simp add: rev_map [symmetric] sum_list_rev del: rev_map)
  finally have size: "computeStorageSize sizes strides = 1 + ?sum" by (simp add: fit)
  have lt: "off ?xs k < 1 + sum_list (map (\<lambda>(n, s). s * (n - 1)) ?xs)" for k
    using off_bounds [OF pos snn, of k] by linarith
  show ?thesis
    using lt off_bounds [OF pos snn] off_last [OF pos] prod_sizes_zip [OF assms(1)] numel_of_pos [OF 2]
    by (auto simp: size offset_def)
qed

theorem computeStorageSize_least_witness:
  "computeStorageSize [2, 3] [10, 2] = 15 \<and> offset [2, 3] [10, 2] 5 + 1 = 15"
proof -
  have "offset [2, 3] [10, 2] 5 = 14" "computeStorageSize [2, 3] [10, 2] = 15" by code_simp+
  then show ?thesis using computeStorageSize_least [of "[10, 2]" "[2, 3]"] by (simp add: numel_of_def)
qed

end
