(* ===== verification/Shapes.thy ===== *)
theory Shapes
  imports Strided
begin

text \<open>
  Shape arithmetic: \<open>c10/core/WrapDimMinimal.h\<close>, \<open>aten/src/ATen/WrapDimUtils.h\<close>, \<open>WrapDimUtilsMulti.h\<close>,
  \<open>InferSize.h\<close>, \<open>ExpandUtils.h\<close> and \<open>ExpandUtils.cpp\<close>. As in theory \<open>Strided\<close>, the products of sizes
  and strides wrap around, and the loops from the last dimension to the first are recursions over the reversed lists.
\<close>

section \<open>Wrapping of dimensions\<close>

definition maybe_wrap_dim :: "int \<Rightarrow> int \<Rightarrow> bool \<Rightarrow> int result" where
  "maybe_wrap_dim dim dim_post_expr wrap_scalar =
     (if dim_post_expr \<le> 0 \<and> \<not> wrap_scalar
      then Inl (IndexError ''dimension specified but tensor has no dimensions'')
      else
        let n = (if dim_post_expr \<le> 0 then 1 else dim_post_expr);
            min = - n; max = n - 1 in
        if dim < min \<or> dim > max then Inl (IndexError ''Dimension out of range'')
        else Inr (if dim < 0 then dim + n else dim))"

definition maybe_wrap_dim_sizes :: "int \<Rightarrow> int list list \<Rightarrow> int result" where
  "maybe_wrap_dim_sizes dim tensor_sizes =
     (case tensor_sizes of
        [] \<Rightarrow> Inr dim
      | s # _ \<Rightarrow> maybe_wrap_dim dim (int (length s)) True)"

fun wrap_dims_loop :: "int \<Rightarrow> int list \<Rightarrow> int list result" where
  "wrap_dims_loop n [] = Inr []"
| "wrap_dims_loop n (dim # dims) =
     (if dim < - n \<or> dim > n - 1 then Inl (IndexError ''Dimension out of range'')
      else rbind (wrap_dims_loop n dims) (\<lambda>r. Inr ((if dim < 0 then dim + n else dim) # r)))"

definition maybe_wrap_dims :: "int list \<Rightarrow> int \<Rightarrow> int list result" where
  "maybe_wrap_dims dims dim_post_expr =
     wrap_dims_loop (if dim_post_expr \<le> 0 then 1 else dim_post_expr) dims"

fun legacy_cat_wrap_dim :: "int \<Rightarrow> int list list \<Rightarrow> int result" where
  "legacy_cat_wrap_dim dim [] = Inr dim"
| "legacy_cat_wrap_dim dim (sizes # rest) =
     (if sizes = [0] then legacy_cat_wrap_dim dim rest
      else maybe_wrap_dim dim (int (length sizes)) True)"

fun wrap_all_dims :: "int list \<Rightarrow> int \<Rightarrow> int list result" where
  "wrap_all_dims [] tensor_total_dims = Inr []"
| "wrap_all_dims (d # ds) tensor_total_dims =
     rbind (maybe_wrap_dim d tensor_total_dims True) (\<lambda>w.
       rbind (wrap_all_dims ds tensor_total_dims) (\<lambda>ws. Inr (w # ws)))"

text \<open>
  \<open>dim_list_to_bitset\<close>: the bit set of 64 bits as the set of its positions. The check bounds \<open>ndims\<close>, and with it
  every wrapped dimension, by 64.
\<close>

fun bitset_loop :: "int \<Rightarrow> int list \<Rightarrow> nat set \<Rightarrow> nat set result" where
  "bitset_loop ndims [] seen = Inr seen"
| "bitset_loop ndims (d # ds) seen =
     rbind (maybe_wrap_dim d ndims True) (\<lambda>w.
       if nat w \<in> seen then Inl (C10Error ''dim appears multiple times in the list of dims'')
       else bitset_loop ndims ds (insert (nat w) seen))"

definition dim_list_to_bitset :: "int list \<Rightarrow> int \<Rightarrow> nat set result" where
  "dim_list_to_bitset dims ndims =
     (if ndims \<le> 64 then bitset_loop ndims dims {}
      else Inl (C10Error ''only tensors with up to 64 dims are supported''))"

section \<open>The size of a dimension given as -1\<close>

record infer_state =
  inf_newsize :: int
  inf_dim :: "nat option"

fun infer_loop :: "int list \<Rightarrow> nat \<Rightarrow> infer_state \<Rightarrow> infer_state result" where
  "infer_loop [] dim st = Inr st"
| "infer_loop (n # shape) dim st =
     (if n = -1 then
        (if inf_dim st \<noteq> None then Inl (RuntimeError ''only one dimension can be inferred'')
         else infer_loop shape (Suc dim) (st\<lparr>inf_dim := Some dim\<rparr>))
      else if n \<ge> 0 then infer_loop shape (Suc dim) (st\<lparr>inf_newsize := wrap64 (inf_newsize st * n)\<rparr>)
      else Inl (C10Error ''invalid shape dimension ''))"

definition infer_size_numel :: "int list \<Rightarrow> int \<Rightarrow> int list result" where
  "infer_size_numel shape numel =
     rbind (infer_loop shape 0 \<lparr>inf_newsize = 1, inf_dim = None\<rparr>) (\<lambda>st.
       let newsize = inf_newsize st in
       if numel = newsize \<or> (inf_dim st \<noteq> None \<and> newsize > 0 \<and> numel mod newsize = 0) then
         (case inf_dim st of
            None \<Rightarrow> Inr shape
          | Some d \<Rightarrow>
              rbind (AT_CHECK (newsize \<noteq> 0) ''cannot reshape tensor of 0 elements into shape'')
                (\<lambda>_. Inr (shape[d := numel div newsize])))
       else Inl (RuntimeError ''shape is invalid for input''))"

section \<open>Broadcasting\<close>

function infer_size_rev :: "int list \<Rightarrow> int list \<Rightarrow> int list result" where
  "infer_size_rev a b =
     (if a = [] \<and> b = [] then Inr []
      else
        let sizeA = (if a \<noteq> [] then hd a else 1); sizeB = (if b \<noteq> [] then hd b else 1) in
        rbind (AT_CHECK (sizeA = sizeB \<or> sizeA = 1 \<or> sizeB = 1)
            ''The size of tensor a must match the size of tensor b at non-singleton dimension '') (\<lambda>_.
        rbind (infer_size_rev (tl a) (tl b)) (\<lambda>r. Inr ((if sizeA = 1 then sizeB else sizeA) # r))))"
  by pat_completeness auto
termination
  by (relation "measure (\<lambda>(a, b). length a + length b)") (auto simp: neq_Nil_conv)

declare infer_size_rev.simps [simp del]

definition infer_size :: "int list \<Rightarrow> int list \<Rightarrow> int list result" where
  "infer_size a b = rbind (infer_size_rev (rev a) (rev b)) (\<lambda>r. Inr (rev r))"

definition is_expandable_to :: "int list \<Rightarrow> int list \<Rightarrow> bool" where
  "is_expandable_to shape desired =
     (if length shape > length desired then False
      else list_all (\<lambda>(size, target). \<not> (size \<noteq> target \<and> size \<noteq> 1)) (zip (rev shape) (rev desired)))"

text \<open>
  \<open>inferExpandGeometry\<close>: \<open>ts\<close> holds the tensor's (size, stride) pairs that the loop has not reached, innermost
  first, and \<open>prev\<close> the pair written in the iteration before, which exists whenever \<open>ts\<close> is exhausted.
\<close>

fun expand_loop :: "int list \<Rightarrow> (int \<times> int) list \<Rightarrow> int \<times> int \<Rightarrow> (int \<times> int) list result" where
  "expand_loop [] ts prev = Inr []"
| "expand_loop (target # sizes) ts prev =
     (let size = (if ts \<noteq> [] then fst (hd ts) else 1);
          stride = (if ts \<noteq> [] then snd (hd ts) else wrap64 (fst prev * snd prev)) in
      rbind (if target = -1
             then rbind (AT_CHECK (ts \<noteq> []) ''The expanded size of the tensor is not allowed in a leading, non-existing dimension '')
               (\<lambda>_. Inr size)
             else Inr target) (\<lambda>targetSize.
      rbind (if size \<noteq> targetSize
             then rbind (AT_CHECK (size = 1) ''The expanded size of the tensor must match the existing size at non-singleton dimension '')
               (\<lambda>_. Inr (targetSize, 0))
             else Inr (size, stride)) (\<lambda>p.
      rbind (expand_loop sizes (tl ts) p) (\<lambda>r. Inr (p # r)))))"

definition inferExpandGeometry :: "int list \<Rightarrow> int list \<Rightarrow> int list \<Rightarrow> (int list \<times> int list) result" where
  "inferExpandGeometry tensor_sizes tensor_strides sizes =
     (if tensor_sizes = [] then Inr (sizes, replicate (length sizes) 0)
      else rbind (expand_loop (rev sizes) (rev (zip tensor_sizes tensor_strides)) (0, 0)) (\<lambda>r.
        Inr (map fst (rev r), map snd (rev r))))"

text \<open>The dimensions \<open>sum_to\<close> reduces before it views the result with the requested shape.\<close>

definition sum_to_reduce_dims :: "int list \<Rightarrow> int list \<Rightarrow> int list" where
  "sum_to_reduce_dims sizes shape =
     (let leading_dims = int (length sizes) - int (length shape) in
      [0..leading_dims - 1] @
      filter (\<lambda>i. shape ! nat (i - leading_dims) = 1 \<and> sizes ! nat i \<noteq> 1)
        [leading_dims..int (length sizes) - 1])"

section \<open>Wrapped dimensions\<close>

lemma mod_wrap:
  assumes "- m \<le> d" "d < (m :: int)"
  shows "d mod m = (if d < 0 then d + m else d)"
proof (cases "d < 0")
  case True
  then have "(d + m) mod m = d + m" using assms by (intro mod_pos_pos_trivial) auto
  with True show ?thesis by simp
next
  case False
  with assms show ?thesis by (simp add: mod_pos_pos_trivial)
qed

definition wrap_bound :: "int \<Rightarrow> int" where
  "wrap_bound n = (if n \<le> 0 then 1 else n)"

lemma wrap_bound_pos [simp]: "0 < wrap_bound n"
  by (simp add: wrap_bound_def)

lemma maybe_wrap_dim_eq:
  "maybe_wrap_dim dim n wrap_scalar =
     (if n \<le> 0 \<and> \<not> wrap_scalar
      then Inl (IndexError ''dimension specified but tensor has no dimensions'')
      else if - wrap_bound n \<le> dim \<and> dim < wrap_bound n then Inr (dim mod wrap_bound n)
      else Inl (IndexError ''Dimension out of range''))"
  using mod_wrap [of "wrap_bound n" dim]
  by (auto simp: maybe_wrap_dim_def wrap_bound_def Let_def)

lemma maybe_wrap_dim_Inr:
  "maybe_wrap_dim dim n True = Inr w \<longleftrightarrow>
     - wrap_bound n \<le> dim \<and> dim < wrap_bound n \<and> w = dim mod wrap_bound n"
  by (auto simp: maybe_wrap_dim_eq)

lemma wrap_all_dims_Inr:
  "wrap_all_dims ds n = Inr ws \<longleftrightarrow>
     list_all (\<lambda>d. - wrap_bound n \<le> d \<and> d < wrap_bound n) ds \<and> ws = map (\<lambda>d. d mod wrap_bound n) ds"
  by (induction ds arbitrary: ws) (auto simp: rbind_eq_Inr maybe_wrap_dim_Inr)

lemma maybe_wrap_dims_eq: "maybe_wrap_dims ds n = wrap_all_dims ds n"
proof -
  have "wrap_dims_loop (wrap_bound n) ds = wrap_all_dims ds n"
  proof (induction ds)
    case (Cons d ds)
    show ?case
      using Cons mod_wrap [of "wrap_bound n" d]
      by (cases "d < - wrap_bound n \<or> d > wrap_bound n - 1") (auto simp: maybe_wrap_dim_eq)
  qed simp
  then show ?thesis by (simp add: maybe_wrap_dims_def wrap_bound_def)
qed

definition wrappable :: "int \<Rightarrow> int \<Rightarrow> bool" where
  "wrappable n d \<longleftrightarrow> - wrap_bound n \<le> d \<and> d < wrap_bound n"

definition wrapped :: "int \<Rightarrow> int \<Rightarrow> nat" where
  "wrapped n d = nat (d mod wrap_bound n)"

lemma bitset_loop_Inr:
  "bitset_loop n ds seen = Inr r \<longleftrightarrow>
     list_all (wrappable n) ds \<and> distinct (map (wrapped n) ds) \<and>
     seen \<inter> wrapped n ` set ds = {} \<and> r = seen \<union> wrapped n ` set ds"
proof (induction ds arbitrary: seen)
  case Nil
  show ?case by auto
next
  case (Cons d ds)
  show ?case
  proof (cases "wrappable n d")
    case False
    then show ?thesis by (auto simp: maybe_wrap_dim_eq wrappable_def)
  next
    case True
    then have "bitset_loop n (d # ds) seen =
        (if wrapped n d \<in> seen then Inl (C10Error ''dim appears multiple times in the list of dims'')
         else bitset_loop n ds (insert (wrapped n d) seen))"
      by (simp add: maybe_wrap_dim_eq wrappable_def wrapped_def)
    then show ?thesis using True Cons.IH by auto
  qed
qed

section \<open>Inferred sizes\<close>

text \<open>The product of the sizes other than -1.\<close>

definition known_numel :: "int list \<Rightarrow> int" where
  "known_numel shape = prod_list (filter (\<lambda>n. n \<noteq> -1) shape)"

lemma infer_loop_Inr:
  "infer_loop shape dim \<lparr>inf_newsize = wrap64 a, inf_dim = u\<rparr> = Inr st' \<longleftrightarrow>
     list_all (\<lambda>n. -1 \<le> n) shape \<and>
     count_list shape (-1) + (if u = None then 0 else 1) \<le> 1 \<and>
     st' = \<lparr>inf_newsize = wrap64 (a * known_numel shape),
       inf_dim = (if -1 \<in> set shape
                  then Some (dim + length (takeWhile (\<lambda>n. n \<noteq> -1) shape)) else u)\<rparr>"
proof (induction shape arbitrary: dim a u)
  case Nil
  show ?case by (auto simp: known_numel_def)
next
  case (Cons n shape)
  consider "n = -1" | "0 \<le> n" | "n < -1" by linarith
  then show ?case
  proof cases
    case 1
    have "-1 \<notin> set shape \<longleftrightarrow> count_list shape (-1) = 0" by (metis count_list_0_iff)
    then show ?thesis
      using 1 Cons.IH [of "Suc dim" a "Some dim"] by (auto simp: known_numel_def)
  next
    case 2
    then show ?thesis
      using Cons.IH [of "Suc dim" "a * n" u]
      by (auto simp: known_numel_def mult.assoc)
  next
    case 3
    then show ?thesis by auto
  qed
qed

lemma prod_list_update_unknown:
  assumes "count_list shape (-1) = 1"
  shows "prod_list (shape[length (takeWhile (\<lambda>n. n \<noteq> -1) shape) := x]) = x * known_numel shape"
  using assms
proof (induction shape)
  case Nil
  then show ?case by simp
next
  case (Cons n shape)
  show ?case
  proof (cases "n = -1")
    case True
    then have "-1 \<notin> set shape" using Cons.prems by (simp add: count_list_0_iff)
    then have "filter (\<lambda>n. n \<noteq> -1) shape = shape" by (auto simp: filter_id_conv)
    with True show ?thesis by (simp add: known_numel_def)
  next
    case False
    with Cons show ?thesis by (simp add: known_numel_def)
  qed
qed

lemma known_numel_total: "-1 \<notin> set shape \<Longrightarrow> known_numel shape = prod_list shape"
  unfolding known_numel_def by (subst filter_True) auto

definition infer_pos :: "int list \<Rightarrow> nat" where
  "infer_pos shape = length (takeWhile (\<lambda>n. n \<noteq> -1) shape)"

lemma infer_size_numel_Inr:
  assumes "known_numel shape < 2 ^ 63"
  shows "infer_size_numel shape numel = Inr r \<longleftrightarrow>
     list_all (\<lambda>n. -1 \<le> n) shape \<and>
     (if -1 \<in> set shape
      then count_list shape (-1) = 1 \<and> 0 < known_numel shape \<and> known_numel shape dvd numel \<and>
        r = shape[infer_pos shape := numel div known_numel shape]
      else numel = prod_list shape \<and> r = shape)"
proof -
  have c: "count_list shape (-1) \<le> 1 \<longleftrightarrow> (-1 \<in> set shape \<longrightarrow> count_list shape (-1) = 1)"
    by (metis One_nat_def count_list_0_iff le_Suc_eq le_zero_eq)
  have k: "0 \<le> known_numel shape" if "list_all (\<lambda>n. -1 \<le> n) shape"
    using that unfolding known_numel_def by (induction shape) (auto intro!: mult_nonneg_nonneg)
  have loop: "infer_loop shape 0 \<lparr>inf_newsize = 1, inf_dim = None\<rparr> = Inr st' \<longleftrightarrow>
      list_all (\<lambda>n. -1 \<le> n) shape \<and> count_list shape (-1) \<le> 1 \<and>
      st' = \<lparr>inf_newsize = known_numel shape, inf_dim = (if -1 \<in> set shape then Some (infer_pos shape) else None)\<rparr>" for st'
    using infer_loop_Inr [of shape 0 1 None st'] k wrap64_id [of 1] wrap64_id [of "known_numel shape"] assms
    by (auto simp: infer_pos_def)
  show ?thesis
  proof (cases "-1 \<in> set shape")
    case True
    have "infer_size_numel shape numel = Inr r \<longleftrightarrow>
      list_all (\<lambda>n. -1 \<le> n) shape \<and> count_list shape (-1) \<le> 1 \<and>
      (numel = known_numel shape \<or> known_numel shape > 0 \<and> numel mod known_numel shape = 0) \<and>
      known_numel shape \<noteq> 0 \<and> r = shape[infer_pos shape := numel div known_numel shape]"
      using True
      by (auto simp: infer_size_numel_def rbind_eq_Inr loop Let_def split: if_splits)
    also have "\<dots> \<longleftrightarrow> list_all (\<lambda>n. -1 \<le> n) shape \<and> count_list shape (-1) = 1 \<and>
      0 < known_numel shape \<and> known_numel shape dvd numel \<and>
      r = shape[infer_pos shape := numel div known_numel shape]"
      using True c k by (auto simp: mod_eq_0_iff_dvd order_le_less)
    finally show ?thesis using True by simp
  next
    case False
    then show ?thesis
      by (auto simp: infer_size_numel_def rbind_eq_Inr loop Let_def known_numel_total
          count_list_0_iff split: if_splits)
  qed
qed

section \<open>Broadcast sizes\<close>

text \<open>Expandability on reversed shapes, where shorter means fewer leading dimensions.\<close>

fun expands :: "int list \<Rightarrow> int list \<Rightarrow> bool" where
  "expands [] ts = True"
| "expands (s # ss) [] = False"
| "expands (s # ss) (t # ts) \<longleftrightarrow> (s = t \<or> s = 1) \<and> expands ss ts"

lemma is_expandable_to_expands: "is_expandable_to a b = expands (rev a) (rev b)"
proof -
  have "expands xs ys \<longleftrightarrow> length xs \<le> length ys \<and>
      list_all (\<lambda>(s, t). \<not> (s \<noteq> t \<and> s \<noteq> 1)) (zip xs ys)" for xs ys
    by (induction xs ys rule: expands.induct) auto
  then show ?thesis by (auto simp: is_expandable_to_def)
qed

lemma infer_size_rev_simps:
  "infer_size_rev [] [] = Inr []"
  "infer_size_rev (x # xs) [] = rbind (infer_size_rev xs []) (\<lambda>r. Inr (x # r))"
  "infer_size_rev [] (y # ys) = rbind (infer_size_rev [] ys) (\<lambda>r. Inr (y # r))"
  "infer_size_rev (x # xs) (y # ys) =
     rbind (AT_CHECK (x = y \<or> x = 1 \<or> y = 1)
        ''The size of tensor a must match the size of tensor b at non-singleton dimension '')
       (\<lambda>_. rbind (infer_size_rev xs ys) (\<lambda>r. Inr ((if x = 1 then y else x) # r)))"
proof -
  have e: "(if x = 1 then 1 else x) = (x :: int)" for x by simp
  show "infer_size_rev [] [] = Inr []"
    "infer_size_rev (x # xs) [] = rbind (infer_size_rev xs []) (\<lambda>r. Inr (x # r))"
    "infer_size_rev [] (y # ys) = rbind (infer_size_rev [] ys) (\<lambda>r. Inr (y # r))"
    "infer_size_rev (x # xs) (y # ys) =
     rbind (AT_CHECK (x = y \<or> x = 1 \<or> y = 1)
        ''The size of tensor a must match the size of tensor b at non-singleton dimension '')
       (\<lambda>_. rbind (infer_size_rev xs ys) (\<lambda>r. Inr ((if x = 1 then y else x) # r)))"
    by (subst infer_size_rev.simps, simp add: e Let_def)+
qed

fun zip_default :: "int list \<Rightarrow> int list \<Rightarrow> (int \<times> int) list" where
  "zip_default [] [] = []"
| "zip_default (x # xs) [] = (x, 1) # zip_default xs []"
| "zip_default [] (y # ys) = (1, y) # zip_default [] ys"
| "zip_default (x # xs) (y # ys) = (x, y) # zip_default xs ys"

lemma infer_size_rev_expands:
  "infer_size_rev a b = Inr r \<Longrightarrow> expands a r \<and> expands b r"
  by (induction a b arbitrary: r rule: zip_default.induct)
    (auto simp: infer_size_rev_simps rbind_eq_Inr)

lemma infer_size_rev_least:
  "expands a t \<Longrightarrow> expands b t \<Longrightarrow> \<exists>r. infer_size_rev a b = Inr r \<and> expands r t"
proof (induction a b arbitrary: t rule: zip_default.induct)
  case (2 x xs)
  then show ?case by (cases t) (fastforce simp: infer_size_rev_simps)+
next
  case (3 y ys)
  then show ?case by (cases t) (fastforce simp: infer_size_rev_simps)+
next
  case (4 x xs y ys)
  then show ?case by (cases t) (fastforce simp: infer_size_rev_simps)+
qed (simp add: infer_size_rev_simps)

lemma infer_size_expands:
  "infer_size a b = Inr r \<Longrightarrow> is_expandable_to a r \<and> is_expandable_to b r"
  using infer_size_rev_expands
  by (auto simp: infer_size_def rbind_eq_Inr is_expandable_to_expands)

lemma infer_size_least:
  assumes "is_expandable_to a t" "is_expandable_to b t"
  shows "\<exists>r. infer_size a b = Inr r \<and> is_expandable_to r t"
  using infer_size_rev_least assms unfolding is_expandable_to_expands infer_size_def by fastforce

section \<open>Expanded geometry\<close>

text \<open>
  The element of the tensor that an index of the expanded tensor reads, innermost coordinate first: the
  coordinates of expanded and of new dimensions are dropped.
\<close>

fun addr :: "int list \<Rightarrow> int list \<Rightarrow> int" where
  "addr [] ss = 0"
| "addr (i # is) [] = 0"
| "addr (i # is) (s # ss) = i * s + addr is ss"

fun in_range :: "int list \<Rightarrow> int list \<Rightarrow> bool" where
  "in_range [] ns = (ns = [])"
| "in_range (i # is) [] = False"
| "in_range (i # is) (n # ns) \<longleftrightarrow> 0 \<le> i \<and> i < n \<and> in_range is ns"

fun project :: "int list \<Rightarrow> int list \<Rightarrow> int list" where
  "project is [] = []"
| "project [] (n # ns) = []"
| "project (i # is) (n # ns) = (if n = 1 then 0 else i) # project is ns"

fun resolve :: "int list \<Rightarrow> int list \<Rightarrow> int list" where
  "resolve [] ns = []"
| "resolve (t # ts) [] = t # resolve ts []"
| "resolve (t # ts) (n # ns) = (if t = -1 then n else t) # resolve ts ns"

lemma expand_loop_leading:
  assumes "expand_loop sizes [] p = Inr r" "in_range is (map fst r)"
  shows "addr is (map snd r) = 0 \<and> map fst r = sizes"
  using assms
proof (induction sizes arbitrary: p r "is")
  case Nil
  then show ?case by (cases "is") auto
next
  case (Cons t sizes)
  from Cons.prems(1) obtain q r' where r: "r = q # r'" and l: "expand_loop sizes [] q = Inr r'"
    and t: "t \<noteq> -1" and q: "q = (if t = 1 then (1, wrap64 (fst p * snd p)) else (t, 0))"
    by (auto simp: Let_def rbind_eq_Inr split: if_splits)
  from Cons.prems(2) r obtain i js where js: "is = i # js" "0 \<le> i" "i < fst q" "in_range js (map fst r')"
    by (cases "is") auto
  have "i * snd q = 0" using js q by (auto split: if_splits)
  with Cons.IH [OF l js(4)] js(1) r q show ?case by (auto split: if_splits)
qed

lemma expand_loop_addr:
  assumes "expand_loop sizes ts p = Inr r" "in_range is (map fst r)" "length ts \<le> length sizes"
  shows "addr is (map snd r) = addr (project is (map fst ts)) (map snd ts) \<and>
    map fst r = resolve sizes (map fst ts)"
  using assms
proof (induction sizes arbitrary: ts p r "is")
  case Nil
  then show ?case by (cases "is") auto
next
  case (Cons t sizes)
  show ?case
  proof (cases ts)
    case Nil
    have "resolve xs [] = xs" for xs by (induction xs) auto
    with Nil expand_loop_leading [of "t # sizes" p r "is"] Cons.prems show ?thesis by simp
  next
    case (Cons ns ts')
    obtain n s where ns: "ns = (n, s)" by (cases ns)
    from Cons.prems(1) Cons ns obtain q r' where r: "r = q # r'" and l: "expand_loop sizes ts' q = Inr r'"
      and q: "q = (if n = (if t = -1 then n else t) then (n, s) else (t, 0))"
      and n1: "n = (if t = -1 then n else t) \<or> n = 1"
      by (auto simp: Let_def rbind_eq_Inr split: if_splits)
    from Cons.prems(2) r obtain i js where js: "is = i # js" "0 \<le> i" "i < fst q" "in_range js (map fst r')"
      by (cases "is") auto
    have "i * snd q = (if n = 1 then 0 else i) * s" using js q n1 by (auto split: if_splits)
    moreover have "length ts' \<le> length sizes" using Cons.prems(3) Cons by simp
    ultimately show ?thesis
      using Cons.IH [OF l js(4)] js(1) r q Cons ns by (auto split: if_splits)
  qed
qed

text \<open>The sizes, without looking at an index.\<close>

lemma expand_loop_sizes: "expand_loop sizes ts p = Inr r \<Longrightarrow> length ts \<le> length sizes \<Longrightarrow> map fst r = resolve sizes (map fst ts)"
proof (induction sizes arbitrary: ts p r)
  case (Cons t sizes)
  then show ?case by (cases ts) (auto simp: Let_def rbind_eq_Inr split: if_splits)
qed simp

section \<open>Solutions of a shape with one unknown\<close>

definition fits :: "int list \<Rightarrow> int list \<Rightarrow> bool" where
  "fits shape r = list_all2 (\<lambda>s x. 0 \<le> x \<and> (s = -1 \<or> s = x)) shape r"

lemma fits_total: "-1 \<notin> set shape \<Longrightarrow> list_all (\<lambda>n. -1 \<le> n) shape \<Longrightarrow> fits shape r \<longleftrightarrow> r = shape"
  unfolding fits_def
proof (induction shape arbitrary: r)
  case (Cons n shape)
  then have IH: "\<And>q. list_all2 (\<lambda>s x. 0 \<le> x \<and> (s = -1 \<or> s = x)) shape q \<longleftrightarrow> q = shape" by simp
  have "n \<noteq> -1" "0 \<le> n" using Cons.prems by auto
  then show ?case by (cases r) (simp_all add: IH, blast)
qed simp

lemma fits_one_unknown:
  assumes "count_list shape (-1) = 1" "list_all (\<lambda>n. -1 \<le> n) shape"
  shows "fits shape r \<longleftrightarrow> (\<exists>x\<ge>0. r = shape[infer_pos shape := x])"
  using assms
proof (induction shape arbitrary: r)
  case Nil
  then show ?case by simp
next
  case (Cons n shape)
  show ?case
  proof (cases "n = -1")
    case True
    then have "-1 \<notin> set shape" using Cons.prems by (simp add: count_list_0_iff)
    then have "fits shape q \<longleftrightarrow> q = shape" for q using Cons.prems by (intro fits_total) auto
    with True show ?thesis
      by (cases r) (auto simp: fits_def infer_pos_def)
  next
    case False
    then have IH: "\<And>q. fits shape q \<longleftrightarrow> (\<exists>x\<ge>0. q = shape[infer_pos shape := x])" and n: "0 \<le> n"
      using Cons by auto
    have "fits (n # shape) r \<longleftrightarrow> (\<exists>q. r = n # q \<and> fits shape q)"
      using False n by (cases r) (auto simp: fits_def)
    with IH False show ?thesis by (auto simp: infer_pos_def)
  qed
qed

lemma infer_pos_less: "-1 \<in> set shape \<Longrightarrow> infer_pos shape < length shape"
  unfolding infer_pos_def by (induction shape) auto

lemma update_eq_iff: "i < length xs \<Longrightarrow> xs[i := x] = xs[i := y] \<longleftrightarrow> x = y"
  by (metis nth_list_update_eq)

lemma solutions_one_unknown:
  assumes c: "count_list shape (-1) = 1" and l: "list_all (\<lambda>n. -1 \<le> n) shape" and n: "0 \<le> numel"
    and k: "0 \<le> known_numel shape"
  shows "{r'. fits shape r' \<and> prod_list r' = numel} = {r} \<longleftrightarrow>
    0 < known_numel shape \<and> known_numel shape dvd numel \<and>
    r = shape[infer_pos shape := numel div known_numel shape]"
proof -
  let ?k = "known_numel shape" and ?u = "\<lambda>x. shape[infer_pos shape := x]"
  have mem: "-1 \<in> set shape" using c by (metis count_list_0_iff zero_neq_one)
  have sol: "{r'. fits shape r' \<and> prod_list r' = numel} = ?u ` {x. 0 \<le> x \<and> x * ?k = numel}"
    using fits_one_unknown [OF c l] prod_list_update_unknown [OF c] by (auto simp: infer_pos_def)
  have inj: "?u x = ?u y \<longleftrightarrow> x = y" for x y by (rule update_eq_iff [OF infer_pos_less [OF mem]])
  show ?thesis
  proof (cases "?k = 0")
    case True
    have "?u ` {x. 0 \<le> x \<and> x * ?k = numel} \<noteq> {r}"
    proof (cases "numel = 0")
      case True
      then have "?u 0 \<in> ?u ` {x. 0 \<le> x \<and> x * ?k = numel}" "?u 1 \<in> ?u ` {x. 0 \<le> x \<and> x * ?k = numel}"
        using \<open>?k = 0\<close> by auto
      then have "?u ` {x. 0 \<le> x \<and> x * ?k = numel} = {r} \<Longrightarrow> ?u 0 = ?u 1" by (metis singletonD)
      then show ?thesis using inj [of 0 1] by auto
    qed (use True in auto)
    with True sol show ?thesis by simp
  next
    case False
    with k have pos: "0 < ?k" by simp
    have "{x. 0 \<le> x \<and> x * ?k = numel} = (if ?k dvd numel then {numel div ?k} else {})"
      using pos n by (auto simp: pos_imp_zdiv_nonneg_iff)
    with sol pos show ?thesis by auto
  qed
qed

section \<open>Properties\<close>

text \<open>
  Property C30. Broadcasting: \<open>infer_size\<close> succeeds iff some shape is a common expansion of both arguments in the sense
  of \<open>is_expandable_to\<close>, and its result is then the least one: both arguments expand to it, and it expands to every
  common expansion.
\<close>

theorem infer_size_least_expansion:
  "((\<exists>r. infer_size a b = Inr r) \<longleftrightarrow> (\<exists>t. is_expandable_to a t \<and> is_expandable_to b t)) \<and>
   (\<forall>r. infer_size a b = Inr r \<longrightarrow> is_expandable_to a r \<and> is_expandable_to b r \<and>
     (\<forall>t. is_expandable_to a t \<and> is_expandable_to b t \<longrightarrow> is_expandable_to r t))"
proof (intro conjI allI impI iffI)
  assume "\<exists>r. infer_size a b = Inr r"
  then show "\<exists>t. is_expandable_to a t \<and> is_expandable_to b t" using infer_size_expands by blast
next
  assume "\<exists>t. is_expandable_to a t \<and> is_expandable_to b t"
  then show "\<exists>r. infer_size a b = Inr r" using infer_size_least by blast
next
  fix r t
  assume r: "infer_size a b = Inr r" and "is_expandable_to a t \<and> is_expandable_to b t"
  then obtain r' where "infer_size a b = Inr r'" "is_expandable_to r' t" using infer_size_least by blast
  with r show "is_expandable_to r t" by simp
qed (use infer_size_expands in blast)+

theorem infer_size_least_expansion_witness:
  "infer_size [5, 1, 4] [3, 1] = Inr [5, 3, 4] \<and> is_expandable_to [5, 1, 4] [5, 3, 4] \<and>
   is_expandable_to [3, 1] [5, 3, 4] \<and> (\<nexists>r. infer_size [2] [3] = Inr r)"
proof -
  have "infer_size [5, 1, 4] [3, 1] = Inr [5, 3, 4]"
    by (simp add: infer_size_def infer_size_rev_simps)
  moreover have "\<nexists>r. infer_size [2] [3] = Inr r"
    by (simp add: infer_size_def infer_size_rev_simps)
  moreover have "is_expandable_to [5, 1, 4] [5, 3, 4] \<and> is_expandable_to [3, 1] [5, 3, 4]"
    using infer_size_least_expansion [of "[5, 1, 4]" "[3, 1]"] calculation(1) by simp
  ultimately show ?thesis by simp
qed

text \<open>
  Property C31. \<open>inferExpandGeometry\<close> never moves an element: when it returns a geometry for a target with at least
  as many dimensions as the tensor, every index of the expanded tensor reads the element of the tensor obtained by
  dropping the new leading coordinates and setting those of the size-1 dimensions to 0; and the expanded sizes are, for
  a tensor with dimensions, the requested ones with -1 replaced by the size of the tensor, and for a tensor without
  dimensions the requested ones as they are, an entry -1 included.
\<close>

theorem inferExpandGeometry_reads_same_element:
  assumes "inferExpandGeometry tensor_sizes tensor_strides sizes = Inr (es, est)"
    and "length tensor_strides = length tensor_sizes" and "length tensor_sizes \<le> length sizes"
  shows "(\<forall>idx. in_range (rev idx) (rev es) \<longrightarrow>
      addr (rev idx) (rev est) = addr (project (rev idx) (rev tensor_sizes)) (rev tensor_strides)) \<and>
    es = (if tensor_sizes = [] then sizes else rev (resolve (rev sizes) (rev tensor_sizes)))"
proof (cases "tensor_sizes = []")
  case True
  have "addr is (replicate n 0) = 0" for "is" n
  proof (induction "is" arbitrary: n)
    case (Cons i "is")
    then show ?case by (cases n) auto
  qed (cases n; simp)
  then show ?thesis using True assms(1,2) by (auto simp: inferExpandGeometry_def)
next
  case False
  let ?ts = "rev (zip tensor_sizes tensor_strides)"
  from False assms(1) obtain r where r: "expand_loop (rev sizes) ?ts (0, 0) = Inr r"
    and es: "es = map fst (rev r)" "est = map snd (rev r)"
    by (auto simp: inferExpandGeometry_def rbind_eq_Inr)
  have m: "map fst ?ts = rev tensor_sizes" "map snd ?ts = rev tensor_strides"
    using assms(2) by (simp_all add: rev_map [symmetric])
  have "map fst r = resolve (rev sizes) (rev tensor_sizes)" using expand_loop_sizes [OF r] assms(2,3) m by simp
  then have "es = rev (resolve (rev sizes) (rev tensor_sizes))" by (simp add: es(1) rev_map [symmetric])
  moreover have "addr (rev idx) (rev est) = addr (project (rev idx) (rev tensor_sizes)) (rev tensor_strides)"
    if "in_range (rev idx) (rev es)" for idx
    using expand_loop_addr [OF r, of "rev idx"] that assms(2,3) by (simp add: m es rev_map [symmetric])
  ultimately show ?thesis using False by simp
qed

theorem inferExpandGeometry_reads_same_element_witness:
  "inferExpandGeometry [3, 1] [1, 7] [2, -1, 4] = Inr ([2, 3, 4], [0, 1, 0]) \<and>
   addr (rev [1, 2, 3]) (rev [0, 1, 0]) = addr (project (rev [1, 2, 3]) (rev [3, 1])) (rev [1, 7])"
proof -
  have e: "inferExpandGeometry [3, 1] [1, 7] [2, -1, 4] = Inr ([2, 3, 4], [0, 1, 0])"
    by (simp add: inferExpandGeometry_def)
  from inferExpandGeometry_reads_same_element [OF e] have "in_range (rev [1, 2, 3]) (rev [2, 3, 4]) \<longrightarrow>
      addr (rev [1, 2, 3]) (rev [0, 1, 0]) = addr (project (rev [1, 2, 3]) (rev [3, 1])) (rev [1, 7])" by simp
  then show ?thesis using e by simp
qed

text \<open>
  Property C32. The inferred dimension of \<open>view\<close>: for a shape whose entries are at least -1 with at most one -1, and
  the product of whose other entries fits in an \<open>int64_t\<close>, \<open>infer_size\<close> returns a shape iff it is the only one with
  non-negative sizes that agrees with the request outside -1 and has the given number of elements; so an impossible and
  an ambiguous request are both refused.
\<close>

theorem infer_size_unique_solution:
  assumes "list_all (\<lambda>n. -1 \<le> n) shape" and "count_list shape (-1) \<le> 1" and "0 \<le> numel"
    and "known_numel shape < 2 ^ 63"
  shows "infer_size_numel shape numel = Inr r \<longleftrightarrow> {r'. fits shape r' \<and> prod_list r' = numel} = {r}"
proof (cases "-1 \<in> set shape")
  case True
  then have "count_list shape (-1) \<noteq> 0" by (simp add: count_list_0_iff)
  with assms(2) have c: "count_list shape (-1) = 1" by simp
  have "0 \<le> known_numel shape"
    using assms(1) unfolding known_numel_def by (induction shape) (auto intro!: mult_nonneg_nonneg)
  from solutions_one_unknown [OF c assms(1,3) this] show ?thesis
    using True c assms(1,4) by (simp add: infer_size_numel_Inr)
next
  case False
  have "{r'. fits shape r' \<and> prod_list r' = numel} = (if prod_list shape = numel then {shape} else {})"
    using fits_total [OF False assms(1)] by auto
  then show ?thesis using False assms(1,4) by (auto simp: infer_size_numel_Inr)
qed

theorem infer_size_unique_solution_witness:
  "infer_size_numel [2, -1, 3] 24 = Inr [2, 4, 3] \<and> {r'. fits [2, -1, 3] r' \<and> prod_list r' = 24} = {[2, 4, 3]} \<and>
   (\<nexists>r. infer_size_numel [0, -1] 0 = Inr r)"
proof -
  have "infer_size_numel [2, -1, 3] 24 = Inr [2, 4, 3]" by code_simp
  moreover have "\<nexists>r. infer_size_numel [0, -1] 0 = Inr r"
    by (simp add: infer_size_numel_def wrap64_id)
  ultimately show ?thesis using infer_size_unique_solution [of "[2, -1, 3]" 24 "[2, 4, 3]"] by (simp add: known_numel_def)
qed

text \<open>A shape whose element count wraps around to that of the tensor is accepted.\<close>

lemma infer_size_wraps: "infer_size_numel [2 ^ 62 + 2, 4] 8 = Inr [2 ^ 62 + 2, 4]"
  by code_simp

text \<open>
  Dimension lists: \<open>dim_list_to_bitset\<close> accepts a list iff the tensor has at most 64 dimensions, every
  entry is in \<open>[-n, n)\<close> (with \<open>n = 1\<close> for a scalar) and no two entries name the same dimension; it returns the set of
  their residues modulo \<open>n\<close>, all below 64; and the two list versions of wrapping agree on every input.
\<close>

theorem dim_list_to_bitset_iff:
  "(dim_list_to_bitset dims ndims = Inr s \<longleftrightarrow>
      ndims \<le> 64 \<and> list_all (wrappable ndims) dims \<and> distinct (map (wrapped ndims) dims) \<and>
      s = wrapped ndims ` set dims) \<and>
   (ndims \<le> 64 \<longrightarrow> wrapped ndims d < 64) \<and>
   maybe_wrap_dims dims ndims = wrap_all_dims dims ndims"
proof (intro conjI impI)
  show "dim_list_to_bitset dims ndims = Inr s \<longleftrightarrow>
      ndims \<le> 64 \<and> list_all (wrappable ndims) dims \<and> distinct (map (wrapped ndims) dims) \<and>
      s = wrapped ndims ` set dims"
    by (auto simp: dim_list_to_bitset_def bitset_loop_Inr)
  assume "ndims \<le> 64"
  then have "wrap_bound ndims \<le> 64" by (simp add: wrap_bound_def)
  with pos_mod_bound [OF wrap_bound_pos, of d ndims] have "d mod wrap_bound ndims < 64" by linarith
  then show "wrapped ndims d < 64" by (simp add: wrapped_def)
qed (rule maybe_wrap_dims_eq)

theorem dim_list_to_bitset_iff_witness:
  "dim_list_to_bitset [0, -1] 3 = Inr {0, 2} \<and> wrapped 3 (-1) < 64 \<and> (\<nexists>s. dim_list_to_bitset [1, -2] 3 = Inr s)"
  using dim_list_to_bitset_iff [of "[0, -1]" 3 "{0, 2}" "-1"] dim_list_to_bitset_iff [of "[1, -2]" 3]
  by (auto simp: wrappable_def wrapped_def wrap_bound_def)

end
