(* ===== verification/State_Exn.thy ===== *)
theory State_Exn
  imports Prelude
begin

text \<open>
  Stateful code that may throw: a computation maps a state to a result and the state it leaves behind, also when it
  throws, so that the effects before the exception stay visible. A Hoare triple has a postcondition for the normal
  return and one for the exception.
\<close>

type_synonym ('s, 'a) mon = "'s \<Rightarrow> 'a result \<times> 's"

definition ret :: "'a \<Rightarrow> ('s, 'a) mon" where
  "ret x = (\<lambda>s. (Inr x, s))"

definition throw :: "exn \<Rightarrow> ('s, 'a) mon" where
  "throw e = (\<lambda>s. (Inl e, s))"

definition bindm :: "('s, 'a) mon \<Rightarrow> ('a \<Rightarrow> ('s, 'b) mon) \<Rightarrow> ('s, 'b) mon" where
  "bindm m f = (\<lambda>s. case m s of (Inl e, t) \<Rightarrow> (Inl e, t) | (Inr x, t) \<Rightarrow> f x t)"

definition seqm :: "('s, 'a) mon \<Rightarrow> ('s, 'b) mon \<Rightarrow> ('s, 'b) mon" where
  "seqm m n = bindm m (\<lambda>_. n)"

definition gets :: "('s \<Rightarrow> 'a) \<Rightarrow> ('s, 'a) mon" where
  "gets f = (\<lambda>s. (Inr (f s), s))"

definition modify :: "('s \<Rightarrow> 's) \<Rightarrow> ('s, unit) mon" where
  "modify f = (\<lambda>s. (Inr (), f s))"

definition assertm :: "bool \<Rightarrow> ('s, unit) mon" where
  "assertm c = (if c then ret () else throw (C10Error ''ASSERT FAILED''))"

definition lift_result :: "'a result \<Rightarrow> ('s, 'a) mon" where
  "lift_result r = (case r of Inl e \<Rightarrow> throw e | Inr x \<Rightarrow> ret x)"

text \<open>The body of a \<open>noexcept\<close> function, and a body followed by the destructor of a local object.\<close>

definition noexcept :: "('s, 'a) mon \<Rightarrow> ('s, 'a) mon" where
  "noexcept m = (\<lambda>s. case m s of (Inl e, t) \<Rightarrow> (Inl (if e = UndefinedBehaviour then e else Terminated), t) | r \<Rightarrow> r)"

definition finallym :: "('s, 'a) mon \<Rightarrow> ('s, unit) mon \<Rightarrow> ('s, 'a) mon" where
  "finallym m d = (\<lambda>s. case m s of (r, t) \<Rightarrow> (case d t of (Inr _, u) \<Rightarrow> (r, u) | (Inl e, u) \<Rightarrow> (Inl e, u)))"

fun foreach :: "('x \<Rightarrow> ('s, unit) mon) \<Rightarrow> 'x list \<Rightarrow> ('s, unit) mon" where
  "foreach f [] = ret ()"
| "foreach f (x # xs) = seqm (f x) (foreach f xs)"

section \<open>Rewriting\<close>

lemma mon_simps [simp]:
  "ret x s = (Inr x, s)"
  "throw e s = (Inl e, s)"
  "gets f s = (Inr (f s), s)"
  "modify g s = (Inr (), g s)"
  "assertm True = ret ()"
  "assertm False = throw (C10Error ''ASSERT FAILED'')"
  by (simp_all add: ret_def throw_def gets_def modify_def assertm_def)

lemma bindm_run [simp]:
  "m s = (Inr x, t) \<Longrightarrow> bindm m f s = f x t"
  "m s = (Inl e, t) \<Longrightarrow> bindm m f s = (Inl e, t)"
  by (simp_all add: bindm_def)

lemma seqm_run [simp]:
  "m s = (Inr x, t) \<Longrightarrow> seqm m n s = n t"
  "m s = (Inl e, t) \<Longrightarrow> seqm m n s = (Inl e, t)"
  by (simp_all add: seqm_def)

lemma noexcept_run [simp]: "m s = (Inr x, t) \<Longrightarrow> noexcept m s = (Inr x, t)"
  by (simp add: noexcept_def)

lemma finallym_run [simp]: "m s = (r, t) \<Longrightarrow> d t = (Inr y, u) \<Longrightarrow> finallym m d s = (r, u)"
  by (simp add: finallym_def)

lemma lift_result_run [simp]:
  "lift_result (Inr x) = ret x"
  "lift_result (Inl e) = throw e"
  by (simp_all add: lift_result_def)

section \<open>Triples\<close>

definition triple :: "('s \<Rightarrow> bool) \<Rightarrow> ('s, 'a) mon \<Rightarrow> ('a \<Rightarrow> 's \<Rightarrow> bool) \<Rightarrow> (exn \<Rightarrow> 's \<Rightarrow> bool) \<Rightarrow> bool" where
  "triple P m Q E \<longleftrightarrow> (\<forall>s. P s \<longrightarrow> (case m s of (Inr x, t) \<Rightarrow> Q x t | (Inl e, t) \<Rightarrow> E e t))"

lemma tripleI:
  assumes "\<And>s x t. P s \<Longrightarrow> m s = (Inr x, t) \<Longrightarrow> Q x t"
    and "\<And>s e t. P s \<Longrightarrow> m s = (Inl e, t) \<Longrightarrow> E e t"
  shows "triple P m Q E"
  using assms by (auto simp: triple_def split: sum.splits prod.splits)

lemma tripleD:
  assumes "triple P m Q E" "P s"
  shows "m s = (Inr x, t) \<Longrightarrow> Q x t" and "m s = (Inl e, t) \<Longrightarrow> E e t"
  using assms by (auto simp: triple_def)

lemma triple_cases:
  assumes "triple P m Q E" "P s"
  obtains (ret) x t where "m s = (Inr x, t)" "Q x t" | (exn) e t where "m s = (Inl e, t)" "E e t"
proof -
  obtain r t where m: "m s = (r, t)" by fastforce
  show thesis
  proof (cases r)
    case (Inl e)
    then show thesis using exn tripleD(2) [OF assms] m by blast
  next
    case (Inr x)
    then show thesis using ret tripleD(1) [OF assms] m by blast
  qed
qed

lemma triple_bind:
  assumes "triple P m R E" and "\<And>x. triple (R x) (f x) Q E"
  shows "triple P (bindm m f) Q E"
  using assms by (fastforce simp: triple_def bindm_def split: sum.splits prod.splits)

lemma triple_seq:
  assumes "triple P m (\<lambda>_. R) E" and "triple R n Q E"
  shows "triple P (seqm m n) Q E"
  unfolding seqm_def by (rule triple_bind [OF assms(1)]) (rule assms(2))

lemma triple_conseq:
  assumes "triple P' m Q' E'" and "\<And>s. P s \<Longrightarrow> P' s" and "\<And>x t. Q' x t \<Longrightarrow> Q x t"
    and "\<And>e t. E' e t \<Longrightarrow> E e t"
  shows "triple P m Q E"
  using assms by (fastforce simp: triple_def split: sum.splits prod.splits)

lemma triple_pre: "triple P' m Q E \<Longrightarrow> (\<And>s. P s \<Longrightarrow> P' s) \<Longrightarrow> triple P m Q E"
  by (rule triple_conseq)

lemma triple_post: "triple P m Q' E \<Longrightarrow> (\<And>x t. Q' x t \<Longrightarrow> Q x t) \<Longrightarrow> triple P m Q E"
  by (rule triple_conseq)

lemma triple_ret: "(\<And>s. P s \<Longrightarrow> Q x s) \<Longrightarrow> triple P (ret x) Q E"
  by (simp add: triple_def)

lemma triple_gets: "(\<And>s. P s \<Longrightarrow> Q (f s) s) \<Longrightarrow> triple P (gets f) Q E"
  by (simp add: triple_def)

lemma triple_modify: "(\<And>s. P s \<Longrightarrow> Q () (f s)) \<Longrightarrow> triple P (modify f) Q E"
  by (simp add: triple_def)

lemma triple_run: "(\<And>s. P s \<Longrightarrow> m s = (Inr (f s), g s) \<and> Q (f s) (g s)) \<Longrightarrow> triple P m Q E"
  by (auto simp: triple_def)

lemma triple_if:
  "(c \<Longrightarrow> triple P m Q E) \<Longrightarrow> (\<not> c \<Longrightarrow> triple P n Q E) \<Longrightarrow> triple P (if c then m else n) Q E"
  by simp

lemma triple_pull: "(C \<Longrightarrow> triple P m Q E) \<Longrightarrow> triple (\<lambda>s. C \<and> P s) m Q E"
  by (auto simp: triple_def)

lemma triple_ex: "(\<And>x. triple (P x) m Q E) \<Longrightarrow> triple (\<lambda>s. \<exists>x. P x s) m Q E"
proof (rule tripleI)
  fix s x t assume "\<And>x. triple (P x) m Q E" "\<exists>x. P x s" "m s = (Inr x, t)"
  then show "Q x t" by (blast dest: tripleD(1))
next
  fix s e t assume "\<And>x. triple (P x) m Q E" "\<exists>x. P x s" "m s = (Inl e, t)"
  then show "E e t" by (blast dest: tripleD(2))
qed

lemma triple_foreach:
  assumes "\<And>x xs. triple (P (x # xs)) (f x) (\<lambda>_. P xs) E"
  shows "triple (P xs) (foreach f xs) (\<lambda>_. P []) E"
proof (induction xs)
  case Nil
  show ?case unfolding foreach.simps by (rule triple_ret)
next
  case (Cons x xs)
  then show ?case using triple_seq [OF assms] by simp
qed

end
