(* ===== verification/Caching_Allocator.thy ===== *)
theory Caching_Allocator
  imports State_Exn "HOL-Library.Product_Lexorder"
begin

text \<open>
  The CUDA caching allocator (c10/cuda/CUDACachingAllocator.cpp): its blocks, its two pools of free blocks, its
  queue of outstanding events and every operation of \<open>THCCachingAllocator\<close>. A \<open>Block*\<close> is a number, \<open>heap\<close> maps the
  live ones to their blocks, and a null pointer is \<open>None\<close>. Addresses and byte counts are natural numbers below
  \<open>2 ^ 64\<close> with the wrap-around of \<open>size_t\<close> written out. The CUDA runtime and the registered free-memory callbacks are
  arguments of the operations.
\<close>

section \<open>Data\<close>

definition kMinBlockSize :: nat where "kMinBlockSize = 512"
definition kSmallSize :: nat where "kSmallSize = 1048576"
definition kSmallBuffer :: nat where "kSmallBuffer = 2097152"
definition kLargeBuffer :: nat where "kLargeBuffer = 20971520"
definition kMinLargeAlloc :: nat where "kMinLargeAlloc = 10485760"
definition kRoundLarge :: nat where "kRoundLarge = 2097152"

lemmas k_defs = kMinBlockSize_def kSmallSize_def kSmallBuffer_def kLargeBuffer_def kMinLargeAlloc_def kRoundLarge_def

record DeviceStats =
  amount_allocated :: nat
  max_amount_allocated :: nat
  amount_cached :: nat
  max_amount_cached :: nat

definition new_DeviceStats :: DeviceStats where
  "new_DeviceStats = \<lparr>amount_allocated = 0, max_amount_allocated = 0, amount_cached = 0, max_amount_cached = 0\<rparr>"

definition increaseAllocated :: "nat \<Rightarrow> DeviceStats \<Rightarrow> DeviceStats" where
  "increaseAllocated delta st = (let a = add64 (amount_allocated st) delta in
     st\<lparr>amount_allocated := a, max_amount_allocated := max (max_amount_allocated st) a\<rparr>)"

definition decreaseAllocated :: "nat \<Rightarrow> DeviceStats \<Rightarrow> DeviceStats" where
  "decreaseAllocated delta st = st\<lparr>amount_allocated := sub64 (amount_allocated st) delta\<rparr>"

definition increaseCached :: "nat \<Rightarrow> DeviceStats \<Rightarrow> DeviceStats" where
  "increaseCached delta st = (let a = add64 (amount_cached st) delta in
     st\<lparr>amount_cached := a, max_amount_cached := max (max_amount_cached st) a\<rparr>)"

definition decreaseCached :: "nat \<Rightarrow> DeviceStats \<Rightarrow> DeviceStats" where
  "decreaseCached delta st = st\<lparr>amount_cached := sub64 (amount_cached st) delta\<rparr>"

datatype PoolId = SmallPool | LargePool

text \<open>
  A stream in \<open>stream_uses\<close> is its device index and its \<open>cudaStream_t\<close>. \<open>stream_uses\<close> is an unordered set of them: a
  list without repetitions, in the order in which the set is iterated.
\<close>

record Block =
  b_device :: int
  b_stream :: nat
  b_stream_uses :: "(int \<times> nat) list"
  b_size :: nat
  b_pool :: "PoolId option"
  b_ptr :: nat
  b_allocated :: bool
  b_prev :: "nat option"
  b_next :: "nat option"
  b_event_count :: int

definition new_Block :: "int \<Rightarrow> nat \<Rightarrow> nat \<Rightarrow> PoolId option \<Rightarrow> nat \<Rightarrow> Block" where
  "new_Block dev str sz pool p = \<lparr>b_device = dev, b_stream = str, b_stream_uses = [], b_size = sz, b_pool = pool,
     b_ptr = p, b_allocated = False, b_prev = None, b_next = None, b_event_count = 0\<rparr>"

definition search_key :: "int \<Rightarrow> nat \<Rightarrow> nat \<Rightarrow> Block" where
  "search_key dev str sz = new_Block dev str sz None 0"

definition BlockComparator :: "Block \<Rightarrow> Block \<Rightarrow> bool" where
  "BlockComparator a b =
    (if b_device a \<noteq> b_device b then b_device a < b_device b
     else if b_stream a \<noteq> b_stream b then b_stream a < b_stream b
     else if b_size a \<noteq> b_size b then b_size a < b_size b
     else b_ptr a < b_ptr b)"

record 'd THCCachingAllocator =
  device_stats :: "DeviceStats list"
  large_blocks :: "nat list"
  small_blocks :: "nat list"
  allocated_blocks :: "nat \<rightharpoonup> nat"
  cuda_events :: "(nat \<times> nat) list"
  heap :: "nat \<rightharpoonup> Block"
  fresh :: nat
  driver :: 'd

definition new_THCCachingAllocator :: "'d \<Rightarrow> 'd THCCachingAllocator" where
  "new_THCCachingAllocator d = \<lparr>device_stats = [], large_blocks = [], small_blocks = [], allocated_blocks = Map.empty,
     cuda_events = [], heap = Map.empty, fresh = 0, driver = d\<rparr>"

section \<open>The CUDA runtime\<close>

datatype cudaError = cudaSuccess | cudaErrorMemoryAllocation | cudaErrorNotReady | cudaErrorOther nat

type_synonym ('d, 'a) cuda_fun = "'d \<Rightarrow> (cudaError \<times> 'a) \<times> 'd"

record 'd cuda_api =
  cudaGetDevice :: "('d, int) cuda_fun"
  cudaSetDevice :: "int \<Rightarrow> ('d, unit) cuda_fun"
  cudaGetLastError :: "('d, unit) cuda_fun"
  cudaMalloc :: "nat \<Rightarrow> ('d, nat) cuda_fun"
  cudaFree :: "nat \<Rightarrow> ('d, unit) cuda_fun"
  cudaMemGetInfo :: "('d, nat \<times> nat) cuda_fun"
  cudaEventCreateWithFlags :: "('d, nat) cuda_fun"
  cudaEventRecord :: "nat \<Rightarrow> nat \<Rightarrow> ('d, unit) cuda_fun"
  cudaEventQuery :: "nat \<Rightarrow> ('d, unit) cuda_fun"
  cudaEventSynchronize :: "nat \<Rightarrow> ('d, unit) cuda_fun"
  cudaEventDestroy :: "nat \<Rightarrow> ('d, unit) cuda_fun"

type_synonym ('d, 'a) amon = "('d THCCachingAllocator, 'a) mon"

definition cuda_call :: "('d, 'a) cuda_fun \<Rightarrow> ('d, cudaError \<times> 'a) amon" where
  "cuda_call f = (\<lambda>s. case f (driver s) of (r, d) \<Rightarrow> (Inr r, s\<lparr>driver := d\<rparr>))"

definition CUDA_error :: exn where
  "CUDA_error = C10Error ''CUDA error''"

definition CUDA_OOM :: exn where
  "CUDA_OOM = C10Error ''CUDA out of memory''"

definition cuda_error_check :: "'d cuda_api \<Rightarrow> cudaError \<Rightarrow> ('d, unit) amon" where
  "cuda_error_check api err = (if err = cudaSuccess then ret ()
     else seqm (cuda_call (cudaGetLastError api)) (throw CUDA_error))"

definition C10_CUDA_CHECK :: "'d cuda_api \<Rightarrow> ('d, 'a) cuda_fun \<Rightarrow> ('d, 'a) amon" where
  "C10_CUDA_CHECK api f = bindm (cuda_call f) (\<lambda>(err, x). seqm (cuda_error_check api err) (ret x))"

section \<open>Blocks in memory\<close>

definition deref :: "nat \<Rightarrow> ('d, Block) amon" where
  "deref i = (\<lambda>s. case heap s i of None \<Rightarrow> (Inl UndefinedBehaviour, s) | Some b \<Rightarrow> (Inr b, s))"

definition upd_block :: "nat \<Rightarrow> (Block \<Rightarrow> Block) \<Rightarrow> ('d, unit) amon" where
  "upd_block i f = (\<lambda>s. case heap s i of None \<Rightarrow> (Inl UndefinedBehaviour, s)
     | Some b \<Rightarrow> (Inr (), s\<lparr>heap := (heap s)(i \<mapsto> f b)\<rparr>))"

definition new_block :: "Block \<Rightarrow> ('d, nat) amon" where
  "new_block b = (\<lambda>s. (Inr (fresh s), s\<lparr>heap := (heap s)(fresh s \<mapsto> b), fresh := Suc (fresh s)\<rparr>))"

definition delete_block :: "nat \<Rightarrow> ('d, unit) amon" where
  "delete_block i = (\<lambda>s. (Inr (), s\<lparr>heap := (heap s)(i := None)\<rparr>))"

text \<open>
  A pool is a \<open>std::set<Block*>\<close> ordered by \<open>BlockComparator\<close>: a list in that order. The comparator reads the blocks;
  the invariant of the allocator shows that every pointer in a pool is live, so \<open>blk\<close> never falls back on its default.
\<close>

definition blk :: "(nat \<rightharpoonup> Block) \<Rightarrow> nat \<Rightarrow> Block" where
  "blk h i = (case h i of Some b \<Rightarrow> b | None \<Rightarrow> new_Block 0 0 0 None 0)"

fun pool_insert :: "(nat \<rightharpoonup> Block) \<Rightarrow> nat \<Rightarrow> nat list \<Rightarrow> nat list" where
  "pool_insert h i [] = [i]"
| "pool_insert h i (x # xs) =
    (if BlockComparator (blk h i) (blk h x) then i # x # xs
     else if BlockComparator (blk h x) (blk h i) then x # pool_insert h i xs
     else x # xs)"

definition pool_erase :: "(nat \<rightharpoonup> Block) \<Rightarrow> nat \<Rightarrow> nat list \<Rightarrow> nat list" where
  "pool_erase h i xs =
     filter (\<lambda>x. BlockComparator (blk h x) (blk h i) \<or> BlockComparator (blk h i) (blk h x)) xs"

definition pool_lower_bound :: "(nat \<rightharpoonup> Block) \<Rightarrow> Block \<Rightarrow> nat list \<Rightarrow> nat list" where
  "pool_lower_bound h key xs = dropWhile (\<lambda>x. BlockComparator (blk h x) key) xs"

definition pool_of :: "PoolId \<Rightarrow> 'd THCCachingAllocator \<Rightarrow> nat list" where
  "pool_of p s = (case p of SmallPool \<Rightarrow> small_blocks s | LargePool \<Rightarrow> large_blocks s)"

definition upd_pool :: "PoolId \<Rightarrow> (nat list \<Rightarrow> nat list) \<Rightarrow> 'd THCCachingAllocator \<Rightarrow> 'd THCCachingAllocator" where
  "upd_pool p f s = (case p of SmallPool \<Rightarrow> s\<lparr>small_blocks := f (small_blocks s)\<rparr>
     | LargePool \<Rightarrow> s\<lparr>large_blocks := f (large_blocks s)\<rparr>)"

definition insert_into_pool :: "PoolId \<Rightarrow> nat \<Rightarrow> ('d, unit) amon" where
  "insert_into_pool p i = modify (\<lambda>s. upd_pool p (pool_insert (heap s) i) s)"

definition erase_from_pool :: "PoolId \<Rightarrow> nat \<Rightarrow> ('d, unit) amon" where
  "erase_from_pool p i = modify (\<lambda>s. upd_pool p (pool_erase (heap s) i) s)"

section \<open>Sizes and statistics\<close>

definition round_size :: "nat \<Rightarrow> nat" where
  "round_size sz = (if sz < kMinBlockSize then kMinBlockSize
     else kMinBlockSize * (add64 sz (kMinBlockSize - 1) div kMinBlockSize))"

definition get_allocation_size :: "nat \<Rightarrow> nat" where
  "get_allocation_size sz = (if sz \<le> kSmallSize then kSmallBuffer
     else if sz < kMinLargeAlloc then kLargeBuffer
     else kRoundLarge * (add64 sz (kRoundLarge - 1) div kRoundLarge))"

definition get_pool :: "nat \<Rightarrow> PoolId" where
  "get_pool sz = (if sz \<le> kSmallSize then SmallPool else LargePool)"

definition should_split :: "Block \<Rightarrow> nat \<Rightarrow> bool result" where
  "should_split b sz = (let remaining = sub64 (b_size b) sz in
     case b_pool b of
       Some SmallPool \<Rightarrow> Inr (kMinBlockSize \<le> remaining)
     | Some LargePool \<Rightarrow> Inr (kSmallSize < remaining)
     | None \<Rightarrow> Inl (C10Error ''should_split: invalid pool''))"

definition get_stats_for_device :: "int \<Rightarrow> ('d, unit) amon" where
  "get_stats_for_device dev = seqm (assertm (0 \<le> dev))
     (modify (\<lambda>s. s\<lparr>device_stats :=
        device_stats s @ replicate (nat dev + 1 - length (device_stats s)) new_DeviceStats\<rparr>))"

definition upd_stats :: "int \<Rightarrow> (DeviceStats \<Rightarrow> DeviceStats) \<Rightarrow> ('d, unit) amon" where
  "upd_stats dev f = modify (\<lambda>s. s\<lparr>device_stats := (device_stats s)[nat dev := f (device_stats s ! nat dev)]\<rparr>)"

text \<open>
  \<open>malloc\<close> keeps a reference to the statistics of its device. When \<open>device_stats\<close> has grown since the reference was
  taken (to a vector of another length), using it is undefined behaviour.
\<close>

definition upd_stats_ref :: "nat \<Rightarrow> int \<Rightarrow> (DeviceStats \<Rightarrow> DeviceStats) \<Rightarrow> ('d, unit) amon" where
  "upd_stats_ref len dev f =
     (\<lambda>s. if length (device_stats s) = len then upd_stats dev f s else (Inl UndefinedBehaviour, s))"

section \<open>Freeing\<close>

definition try_merge_blocks :: "nat \<Rightarrow> nat option \<Rightarrow> PoolId \<Rightarrow> ('d, unit) amon" where
  "try_merge_blocks dst src pool = (case src of None \<Rightarrow> ret () | Some j \<Rightarrow>
     bindm (deref j) (\<lambda>sb.
     if b_allocated sb \<or> 0 < b_event_count sb then ret () else
     bindm (deref dst) (\<lambda>db.
     seqm
       (if b_prev db = Some j
        then seqm (upd_block dst (\<lambda>b. b\<lparr>b_ptr := b_ptr sb, b_prev := b_prev sb\<rparr>))
          (case b_prev sb of None \<Rightarrow> ret () | Some k \<Rightarrow> upd_block k (\<lambda>b. b\<lparr>b_next := Some dst\<rparr>))
        else seqm (upd_block dst (\<lambda>b. b\<lparr>b_next := b_next sb\<rparr>))
          (case b_next sb of None \<Rightarrow> ret () | Some k \<Rightarrow> upd_block k (\<lambda>b. b\<lparr>b_prev := Some dst\<rparr>)))
     (seqm (upd_block dst (\<lambda>b. b\<lparr>b_size := add64 (b_size b) (b_size sb)\<rparr>))
     (seqm (erase_from_pool pool j)
     (delete_block j))))))"

definition free_block :: "nat \<Rightarrow> ('d, unit) amon" where
  "free_block i =
     bindm (deref i) (\<lambda>b.
     seqm (assertm (\<not> b_allocated b \<and> b_event_count b = 0))
     (case b_pool b of None \<Rightarrow> throw UndefinedBehaviour | Some pool \<Rightarrow>
      seqm (try_merge_blocks i (b_prev b) pool)
      (bindm (deref i) (\<lambda>b'.
      seqm (try_merge_blocks i (b_next b') pool)
      (insert_into_pool pool i)))))"

definition drop_event :: "nat \<Rightarrow> ('d, unit) amon" where
  "drop_event i =
     seqm (upd_block i (\<lambda>b. b\<lparr>b_event_count := b_event_count b - 1\<rparr>))
     (bindm (deref i) (\<lambda>b. if b_event_count b = 0 then free_block i else ret ()))"

fun insert_events_loop :: "'d cuda_api \<Rightarrow> nat \<Rightarrow> (int \<times> nat) list \<Rightarrow> ('d, unit) amon" where
  "insert_events_loop api i [] = ret ()"
| "insert_events_loop api i ((dev, str) # rest) =
     seqm (C10_CUDA_CHECK api (cudaSetDevice api dev))
     (bindm (C10_CUDA_CHECK api (cudaEventCreateWithFlags api)) (\<lambda>event.
      seqm (C10_CUDA_CHECK api (cudaEventRecord api event str))
      (seqm (upd_block i (\<lambda>b. b\<lparr>b_event_count := b_event_count b + 1\<rparr>))
      (seqm (modify (\<lambda>s. s\<lparr>cuda_events := cuda_events s @ [(event, i)]\<rparr>))
      (insert_events_loop api i rest)))))"

definition insert_events :: "'d cuda_api \<Rightarrow> nat \<Rightarrow> ('d, unit) amon" where
  "insert_events api i =
     bindm (C10_CUDA_CHECK api (cudaGetDevice api)) (\<lambda>prev_device.
     bindm (deref i) (\<lambda>b.
     seqm (upd_block i (\<lambda>b. b\<lparr>b_stream_uses := []\<rparr>))
     (seqm (insert_events_loop api i (b_stream_uses b))
     (C10_CUDA_CHECK api (cudaSetDevice api prev_device)))))"

definition free :: "'d cuda_api \<Rightarrow> nat \<Rightarrow> ('d, unit) amon" where
  "free api p = (if p = 0 then ret () else
     bindm (gets (\<lambda>s. allocated_blocks s p)) (\<lambda>it. case it of
       None \<Rightarrow> throw (C10Error ''invalid device pointer'')
     | Some i \<Rightarrow>
        seqm (modify (\<lambda>s. s\<lparr>allocated_blocks := (allocated_blocks s)(p := None)\<rparr>))
        (seqm (upd_block i (\<lambda>b. b\<lparr>b_allocated := False\<rparr>))
        (bindm (deref i) (\<lambda>b.
         seqm (get_stats_for_device (b_device b))
         (seqm (upd_stats (b_device b) (decreaseAllocated (b_size b)))
         (if b_stream_uses b \<noteq> [] then insert_events api i else free_block i)))))))"

fun process_events_loop :: "'d cuda_api \<Rightarrow> (nat \<times> nat) list \<Rightarrow> ('d, unit) amon" where
  "process_events_loop api [] = ret ()"
| "process_events_loop api ((event, i) # rest) =
     bindm (cuda_call (cudaEventQuery api event)) (\<lambda>(err, _).
     if err = cudaErrorNotReady then seqm (cuda_call (cudaGetLastError api)) (ret ())
     else seqm (cuda_error_check api err)
       (seqm (C10_CUDA_CHECK api (cudaEventDestroy api event))
       (seqm (drop_event i)
       (seqm (modify (\<lambda>s. s\<lparr>cuda_events := tl (cuda_events s)\<rparr>))
       (process_events_loop api rest)))))"

definition process_events :: "'d cuda_api \<Rightarrow> ('d, unit) amon" where
  "process_events api = bindm (gets cuda_events) (process_events_loop api)"

text \<open>\<open>remaining_events\<close> is the accumulator of the loop; the queue is replaced only after the last event.\<close>

fun synchronize_loop ::
  "'d cuda_api \<Rightarrow> int option \<Rightarrow> (nat \<times> nat) list \<Rightarrow> (nat \<times> nat) list \<Rightarrow> ('d, (nat \<times> nat) list) amon" where
  "synchronize_loop api dev remaining_events [] = ret remaining_events"
| "synchronize_loop api dev remaining_events ((event, i) # rest) =
     bindm (deref i) (\<lambda>b.
     if dev \<noteq> None \<and> dev \<noteq> Some (b_device b)
     then synchronize_loop api dev (remaining_events @ [(event, i)]) rest
     else seqm (C10_CUDA_CHECK api (cudaEventSynchronize api event))
       (seqm (C10_CUDA_CHECK api (cudaEventDestroy api event))
       (seqm (drop_event i)
       (synchronize_loop api dev remaining_events rest))))"

definition synchronize_and_free_events :: "'d cuda_api \<Rightarrow> int option \<Rightarrow> ('d, unit) amon" where
  "synchronize_and_free_events api dev =
     bindm (gets cuda_events) (\<lambda>evs.
     bindm (synchronize_loop api dev [] evs) (\<lambda>remaining_events.
     modify (\<lambda>s. s\<lparr>cuda_events := remaining_events\<rparr>)))"

text \<open>\<open>free_blocks\<close> visits the blocks between its two iterators; it erases only the one it is at.\<close>

definition free_unsplit :: "'d cuda_api \<Rightarrow> PoolId \<Rightarrow> nat \<Rightarrow> ('d, unit) amon" where
  "free_unsplit api pool i =
     bindm (deref i) (\<lambda>b.
     if b_prev b = None \<and> b_next b = None
     then seqm (C10_CUDA_CHECK api (cudaFree api (b_ptr b)))
       (seqm (get_stats_for_device (b_device b))
       (seqm (upd_stats (b_device b) (decreaseCached (b_size b)))
       (seqm (modify (upd_pool pool (remove1 i)))
       (delete_block i))))
     else ret ())"

definition free_blocks :: "'d cuda_api \<Rightarrow> PoolId \<Rightarrow> nat list \<Rightarrow> ('d, unit) amon" where
  "free_blocks api pool blocks = foreach (free_unsplit api pool) blocks"

definition pool_range :: "(nat \<rightharpoonup> Block) \<Rightarrow> int \<Rightarrow> nat list \<Rightarrow> nat list" where
  "pool_range h dev xs = takeWhile (\<lambda>x. BlockComparator (blk h x) (search_key (dev + 1) 0 0))
     (pool_lower_bound h (search_key dev 0 0) xs)"

definition free_cached_blocks :: "'d cuda_api \<Rightarrow> int \<Rightarrow> ('d, unit) amon" where
  "free_cached_blocks api dev =
     seqm (synchronize_and_free_events api (Some dev))
     (seqm (bindm (gets (\<lambda>s. pool_range (heap s) dev (large_blocks s))) (free_blocks api LargePool))
     (bindm (gets (\<lambda>s. pool_range (heap s) dev (small_blocks s))) (free_blocks api SmallPool)))"

definition emptyCache :: "'d cuda_api \<Rightarrow> ('d, unit) amon" where
  "emptyCache api =
     seqm (synchronize_and_free_events api None)
     (seqm (bindm (gets large_blocks) (free_blocks api LargePool))
     (bindm (gets small_blocks) (free_blocks api SmallPool)))"

section \<open>Allocating\<close>

definition cuda_malloc_retry :: "'d cuda_api \<Rightarrow> int \<Rightarrow> nat \<Rightarrow> ('d, cudaError \<times> nat) amon" where
  "cuda_malloc_retry api dev sz =
     bindm (cuda_call (cudaMalloc api sz)) (\<lambda>(err, p).
     if err \<noteq> cudaSuccess
     then seqm (cuda_call (cudaGetLastError api))
       (seqm (free_cached_blocks api dev)
       (cuda_call (cudaMalloc api sz)))
     else ret (err, p))"

definition find_free_block :: "PoolId \<Rightarrow> int \<Rightarrow> nat \<Rightarrow> nat \<Rightarrow> ('d, nat option) amon" where
  "find_free_block pool dev str sz = (\<lambda>s.
     case pool_lower_bound (heap s) (search_key dev str sz) (pool_of pool s) of
       [] \<Rightarrow> (Inr None, s)
     | i # _ \<Rightarrow>
        if b_device (blk (heap s) i) = dev \<and> b_stream (blk (heap s) i) = str
        then (Inr (Some i), upd_pool pool (remove1 i) s)
        else (Inr None, s))"

fun run_callbacks :: "('d, bool) amon list \<Rightarrow> bool \<Rightarrow> ('d, bool) amon" where
  "run_callbacks [] freed_memory = ret freed_memory"
| "run_callbacks (cb # cbs) freed_memory = bindm cb (\<lambda>r. run_callbacks cbs (freed_memory \<or> r))"

definition malloc_segment :: "'d cuda_api \<Rightarrow> nat \<Rightarrow> PoolId \<Rightarrow> int \<Rightarrow> nat \<Rightarrow> nat \<Rightarrow> ('d, nat) amon" where
  "malloc_segment api stats pool dev str sz =
     (let alloc_size = get_allocation_size sz in
     bindm (cuda_malloc_retry api dev alloc_size) (\<lambda>(err, p).
     seqm
       (if err = cudaSuccess then ret ()
        else if err = cudaErrorMemoryAllocation
        then seqm (cuda_call (cudaGetLastError api))
          (bindm (C10_CUDA_CHECK api (cudaMemGetInfo api)) (\<lambda>_.
           seqm (get_stats_for_device dev) (throw CUDA_OOM)))
        else cuda_error_check api err)
     (seqm (upd_stats_ref stats dev (increaseCached alloc_size))
     (new_block (new_Block dev str alloc_size (Some pool) p)))))"

definition split_block :: "PoolId \<Rightarrow> int \<Rightarrow> nat \<Rightarrow> nat \<Rightarrow> nat \<Rightarrow> ('d, nat) amon" where
  "split_block pool dev str sz remaining =
     bindm (deref remaining) (\<lambda>rb.
     bindm (new_block (new_Block dev str sz (Some pool) (b_ptr rb))) (\<lambda>block.
     seqm (upd_block block (\<lambda>b. b\<lparr>b_prev := b_prev rb\<rparr>))
     (seqm (case b_prev rb of None \<Rightarrow> ret () | Some k \<Rightarrow> upd_block k (\<lambda>b. b\<lparr>b_next := Some block\<rparr>))
     (seqm (upd_block block (\<lambda>b. b\<lparr>b_next := Some remaining\<rparr>))
     (seqm (upd_block remaining (\<lambda>b. b\<lparr>b_prev := Some block, b_ptr := add64 (b_ptr b) sz,
        b_size := sub64 (b_size b) sz\<rparr>))
     (seqm (insert_into_pool pool remaining)
     (ret block)))))))"

definition finish_malloc :: "nat \<Rightarrow> int \<Rightarrow> nat \<Rightarrow> ('d, nat) amon" where
  "finish_malloc stats dev block =
     seqm (upd_block block (\<lambda>b. b\<lparr>b_allocated := True\<rparr>))
     (bindm (deref block) (\<lambda>b.
      seqm (modify (\<lambda>s. s\<lparr>allocated_blocks := (allocated_blocks s)(b_ptr b \<mapsto> block)\<rparr>))
      (seqm (upd_stats_ref stats dev (increaseAllocated (b_size b)))
      (ret (b_ptr b)))))"

definition acquire_block ::
  "'d cuda_api \<Rightarrow> ('d, bool) amon list \<Rightarrow> nat \<Rightarrow> PoolId \<Rightarrow> int \<Rightarrow> nat \<Rightarrow> nat \<Rightarrow> ('d, nat) amon" where
  "acquire_block api callbacks stats pool dev str sz =
     bindm (find_free_block pool dev str sz) (\<lambda>found.
     bindm (case found of Some i \<Rightarrow> ret found | None \<Rightarrow>
        bindm (run_callbacks callbacks False) (\<lambda>freed_memory.
        if freed_memory then find_free_block pool dev str sz else ret None)) (\<lambda>found.
     case found of Some i \<Rightarrow> ret i | None \<Rightarrow> malloc_segment api stats pool dev str sz))"

definition hand_out :: "nat \<Rightarrow> PoolId \<Rightarrow> int \<Rightarrow> nat \<Rightarrow> nat \<Rightarrow> nat \<Rightarrow> ('d, nat) amon" where
  "hand_out stats pool dev str sz i =
     bindm (deref i) (\<lambda>b.
     bindm (lift_result (should_split b sz)) (\<lambda>split.
     bindm (if split then split_block pool dev str sz i else ret i)
     (finish_malloc stats dev)))"

definition malloc :: "'d cuda_api \<Rightarrow> ('d, bool) amon list \<Rightarrow> nat \<Rightarrow> nat \<Rightarrow> ('d, nat) amon" where
  "malloc api callbacks req str =
     bindm (C10_CUDA_CHECK api (cudaGetDevice api)) (\<lambda>dev.
     seqm (process_events api)
     (let sz = round_size req; pool = get_pool sz in
      seqm (get_stats_for_device dev)
      (bindm (gets (\<lambda>s. length (device_stats s))) (\<lambda>stats.
       bindm (acquire_block api callbacks stats pool dev str sz)
       (hand_out stats pool dev str sz)))))"

section \<open>Queries\<close>

definition find_allocated_block :: "nat \<Rightarrow> 'd THCCachingAllocator \<Rightarrow> nat option" where
  "find_allocated_block p s = allocated_blocks s p"

definition recordStream :: "nat \<Rightarrow> int \<times> nat \<Rightarrow> ('d, unit) amon" where
  "recordStream p str =
     bindm (gets (find_allocated_block p)) (\<lambda>block. case block of
       None \<Rightarrow> throw (C10Error ''invalid device pointer: %p'')
     | Some i \<Rightarrow> bindm (deref i) (\<lambda>b.
         if snd str = b_stream b then ret ()
         else upd_block i (\<lambda>b. b\<lparr>b_stream_uses := List.insert str (b_stream_uses b)\<rparr>)))"

partial_function (option) first_block :: "(nat \<rightharpoonup> Block) \<Rightarrow> nat \<Rightarrow> nat option" where
  "first_block h i = (case h i of None \<Rightarrow> None | Some b \<Rightarrow>
     (case b_prev b of None \<Rightarrow> Some i | Some j \<Rightarrow> first_block h j))"

partial_function (option) sum_blocks :: "(nat \<rightharpoonup> Block) \<Rightarrow> nat \<Rightarrow> nat option \<Rightarrow> nat option" where
  "sum_blocks h acc block = (case block of None \<Rightarrow> Some acc | Some i \<Rightarrow>
     (case h i of None \<Rightarrow> None | Some b \<Rightarrow> sum_blocks h (add64 acc (b_size b)) (b_next b)))"

text \<open>\<open>getBaseAllocation\<close>, with its out parameter: \<open>None\<close> if a loop does not end or follows a deleted block.\<close>

definition getBaseAllocation :: "nat \<Rightarrow> 'd THCCachingAllocator \<Rightarrow> (nat \<times> nat) result option" where
  "getBaseAllocation p s = (case find_allocated_block p s of
     None \<Rightarrow> Some (Inl (C10Error ''invalid device pointer: %p''))
   | Some i \<Rightarrow> (case first_block (heap s) i of None \<Rightarrow> None | Some f \<Rightarrow>
       (case sum_blocks (heap s) 0 (Some f) of None \<Rightarrow> None
        | Some n \<Rightarrow> Some (Inr (b_ptr (blk (heap s) f), n)))))"

definition cacheInfoAux :: "(nat \<rightharpoonup> Block) \<Rightarrow> nat list \<Rightarrow> int \<Rightarrow> nat \<times> nat \<Rightarrow> nat \<times> nat" where
  "cacheInfoAux h blocks dev acc =
     foldl (\<lambda>(total, largest) i. (add64 total (b_size (blk h i)), max largest (b_size (blk h i)))) acc
       (takeWhile (\<lambda>i. b_device (blk h i) = dev) (pool_lower_bound h (search_key dev 0 0) blocks))"

definition cacheInfo :: "int \<Rightarrow> nat \<times> nat \<Rightarrow> 'd THCCachingAllocator \<Rightarrow> nat \<times> nat" where
  "cacheInfo dev acc s =
     cacheInfoAux (heap s) (small_blocks s) dev (cacheInfoAux (heap s) (large_blocks s) dev acc)"

section \<open>The public interface\<close>

text \<open>
  \<open>getCurrentCUDAStream\<close> (the stream a device's work goes to) and \<open>device_count\<close> are arguments.
\<close>

definition raw_alloc ::
  "'d cuda_api \<Rightarrow> ('d, bool) amon list \<Rightarrow> (int \<Rightarrow> nat) \<Rightarrow> nat \<Rightarrow> ('d, nat) amon" where
  "raw_alloc api callbacks getCurrentCUDAStream nbytes = (if nbytes = 0 then ret 0 else
     bindm (C10_CUDA_CHECK api (cudaGetDevice api)) (\<lambda>dev.
     malloc api callbacks nbytes (getCurrentCUDAStream dev)))"

definition allocate ::
  "'d cuda_api \<Rightarrow> ('d, bool) amon list \<Rightarrow> (int \<Rightarrow> nat) \<Rightarrow> nat \<Rightarrow> ('d, nat \<times> int) amon" where
  "allocate api callbacks getCurrentCUDAStream sz =
     bindm (C10_CUDA_CHECK api (cudaGetDevice api)) (\<lambda>dev.
     bindm (if sz \<noteq> 0 then malloc api callbacks sz (getCurrentCUDAStream dev) else ret 0) (\<lambda>r.
     ret (r, dev)))"

definition read_stat :: "int \<Rightarrow> (DeviceStats \<Rightarrow> nat) \<Rightarrow> int \<Rightarrow> ('d, nat) amon" where
  "read_stat device_count f dev =
     seqm (assertm (0 \<le> dev \<and> dev < device_count))
     (seqm (get_stats_for_device dev)
     (gets (\<lambda>s. f (device_stats s ! nat dev))))"

definition currentMemoryAllocated :: "int \<Rightarrow> int \<Rightarrow> ('d, nat) amon" where
  "currentMemoryAllocated device_count = read_stat device_count amount_allocated"

definition maxMemoryAllocated :: "int \<Rightarrow> int \<Rightarrow> ('d, nat) amon" where
  "maxMemoryAllocated device_count = read_stat device_count max_amount_allocated"

definition currentMemoryCached :: "int \<Rightarrow> int \<Rightarrow> ('d, nat) amon" where
  "currentMemoryCached device_count = read_stat device_count amount_cached"

definition maxMemoryCached :: "int \<Rightarrow> int \<Rightarrow> ('d, nat) amon" where
  "maxMemoryCached device_count = read_stat device_count max_amount_cached"

definition resetMaxMemoryAllocated :: "int \<Rightarrow> int \<Rightarrow> ('d, unit) amon" where
  "resetMaxMemoryAllocated device_count dev =
     seqm (assertm (0 \<le> dev \<and> dev < device_count))
     (seqm (get_stats_for_device dev)
     (upd_stats dev (\<lambda>st. st\<lparr>max_amount_allocated := amount_allocated st\<rparr>)))"

definition resetMaxMemoryCached :: "int \<Rightarrow> int \<Rightarrow> ('d, unit) amon" where
  "resetMaxMemoryCached device_count dev =
     seqm (assertm (0 \<le> dev \<and> dev < device_count))
     (seqm (get_stats_for_device dev)
     (upd_stats dev (\<lambda>st. st\<lparr>max_amount_cached := amount_cached st\<rparr>)))"

end
