(* ===== verification/Allocator_Heap.thy ===== *)
theory Allocator_Heap
  imports Caching_Allocator
begin

text \<open>
  The block structure of the caching allocator: what the heap of blocks looks like (positive disjoint ranges, doubly
  linked neighbours, segments obtained from the driver, coalesced free blocks) and that splitting a block, merging it
  with a neighbour, adding a segment and removing an unsplit block keep it.
\<close>

section \<open>64-bit arithmetic\<close>

lemma add64_mod: "add64 (a mod 2 ^ 64) b = (a + b) mod 2 ^ 64"
  by (simp add: add64_def mod_simps)

lemma sub64_mod: "b \<le> a \<Longrightarrow> b \<le> 2 ^ 64 \<Longrightarrow> sub64 (a mod 2 ^ 64) b = (a - b) mod 2 ^ 64"
proof -
  assume b: "b \<le> a" "b \<le> 2 ^ 64"
  have "(a mod 2 ^ 64 + 2 ^ 64 - b) mod 2 ^ 64 = (a mod 2 ^ 64 + (2 ^ 64 - b)) mod 2 ^ 64"
    using b by (simp add: Nat.add_diff_assoc)
  also have "\<dots> = (a + (2 ^ 64 - b)) mod 2 ^ 64" by (rule mod_add_left_eq)
  also have "a + (2 ^ 64 - b) = (a - b) + 2 ^ 64" using b by simp
  finally show ?thesis by (simp add: sub64_def)
qed

section \<open>Well-formed heaps\<close>

definition isfree :: "Block \<Rightarrow> bool" where
  "isfree b \<longleftrightarrow> \<not> b_allocated b \<and> b_event_count b = 0"

definition same_segment :: "Block \<Rightarrow> Block \<Rightarrow> bool" where
  "same_segment b c \<longleftrightarrow> b_pool b = b_pool c \<and> b_device b = b_device c \<and> b_stream b = b_stream c"

definition geometry_ok :: "(nat \<rightharpoonup> Block) \<Rightarrow> bool" where
  "geometry_ok h \<longleftrightarrow> (\<forall>i b. h i = Some b \<longrightarrow>
     0 < b_ptr b \<and> 0 < b_size b \<and> b_ptr b + b_size b \<le> 2 ^ 64 \<and> b_pool b \<noteq> None)"

definition links_ok :: "(nat \<rightharpoonup> Block) \<Rightarrow> bool" where
  "links_ok h \<longleftrightarrow>
     (\<forall>i b j. h i = Some b \<longrightarrow> b_next b = Some j \<or> b_prev b = Some j \<longrightarrow> h j \<noteq> None) \<and>
     (\<forall>i j b c. h i = Some b \<longrightarrow> h j = Some c \<longrightarrow> (b_next b = Some j \<longleftrightarrow> b_prev c = Some i)) \<and>
     (\<forall>i j b c. h i = Some b \<longrightarrow> h j = Some c \<longrightarrow> b_next b = Some j \<longrightarrow>
        b_ptr c = b_ptr b + b_size b \<and> same_segment b c)"

definition disjoint_ok :: "(nat \<rightharpoonup> Block) \<Rightarrow> bool" where
  "disjoint_ok h \<longleftrightarrow> (\<forall>i j b c. h i = Some b \<longrightarrow> h j = Some c \<longrightarrow> i \<noteq> j \<longrightarrow>
     b_ptr b + b_size b \<le> b_ptr c \<or> b_ptr c + b_size c \<le> b_ptr b)"

definition coal_ok :: "nat set \<Rightarrow> (nat \<rightharpoonup> Block) \<Rightarrow> bool" where
  "coal_ok X h \<longleftrightarrow> (\<forall>i j b c. h i = Some b \<longrightarrow> b_next b = Some j \<longrightarrow> h j = Some c \<longrightarrow> i \<notin> X \<longrightarrow> j \<notin> X \<longrightarrow>
     \<not> (isfree b \<and> isfree c))"

text \<open>Every block lies in a segment of the driver, reaches its ends where it has no neighbour, and shares it with its neighbours.\<close>

definition in_segment :: "nat \<times> nat \<Rightarrow> Block \<Rightarrow> bool" where
  "in_segment g b \<longleftrightarrow> fst g \<le> b_ptr b \<and> b_ptr b + b_size b \<le> fst g + snd g \<and>
     (b_prev b = None \<longrightarrow> b_ptr b = fst g) \<and> (b_next b = None \<longrightarrow> b_ptr b + b_size b = fst g + snd g)"

definition segs_ok :: "(nat \<times> nat) set \<Rightarrow> (nat \<Rightarrow> nat \<times> nat) \<Rightarrow> (nat \<rightharpoonup> Block) \<Rightarrow> bool" where
  "segs_ok S g h \<longleftrightarrow> (\<forall>i b. h i = Some b \<longrightarrow> g i \<in> S \<and> in_segment (g i) b) \<and>
     (\<forall>i b j. h i = Some b \<longrightarrow> b_next b = Some j \<longrightarrow> g j = g i)"

definition segments_disjoint :: "(nat \<times> nat) set \<Rightarrow> bool" where
  "segments_disjoint S \<longleftrightarrow> (\<forall>x\<in>S. 0 < snd x) \<and>
     (\<forall>x\<in>S. \<forall>y\<in>S. x \<noteq> y \<longrightarrow> fst x + snd x \<le> fst y \<or> fst y + snd y \<le> fst x)"

definition heap_ok :: "(nat \<times> nat) set \<Rightarrow> (nat \<rightharpoonup> Block) \<Rightarrow> bool" where
  "heap_ok S h \<longleftrightarrow> geometry_ok h \<and> links_ok h \<and> disjoint_ok h \<and> segments_disjoint S \<and> (\<exists>g. segs_ok S g h)"

lemma geometry_okD:
  "geometry_ok h \<Longrightarrow> h i = Some b \<Longrightarrow> 0 < b_ptr b \<and> 0 < b_size b \<and> b_ptr b + b_size b \<le> 2 ^ 64 \<and> b_pool b \<noteq> None"
  by (auto simp: geometry_ok_def)

lemma links_live: "links_ok h \<Longrightarrow> h i = Some b \<Longrightarrow> b_next b = Some j \<or> b_prev b = Some j \<Longrightarrow> \<exists>c. h j = Some c"
  unfolding links_ok_def by blast

lemma links_iff: "links_ok h \<Longrightarrow> h i = Some b \<Longrightarrow> h j = Some c \<Longrightarrow> b_next b = Some j \<longleftrightarrow> b_prev c = Some i"
  unfolding links_ok_def by blast

lemma links_adjacent:
  "links_ok h \<Longrightarrow> h i = Some b \<Longrightarrow> h j = Some c \<Longrightarrow> b_next b = Some j \<Longrightarrow>
   b_ptr c = b_ptr b + b_size b \<and> same_segment b c"
  unfolding links_ok_def by blast

lemma links_next:
  assumes "links_ok h" "h i = Some b" "b_next b = Some j"
  obtains c where "h j = Some c" "b_prev c = Some i" "b_ptr c = b_ptr b + b_size b" "same_segment b c"
  using links_live [OF assms(1,2)] links_iff [OF assms(1,2)] links_adjacent [OF assms(1,2)] assms(3) by blast

lemma links_prev:
  assumes "links_ok h" "h i = Some b" "b_prev b = Some j"
  obtains c where "h j = Some c" "b_next c = Some i" "b_ptr b = b_ptr c + b_size c" "same_segment c b"
  using links_live [OF assms(1,2)] links_iff [OF assms(1) _ assms(2)] links_adjacent [OF assms(1) _ assms(2)] assms(3)
  by blast

lemma links_okI:
  assumes "\<And>i b j. h i = Some b \<Longrightarrow> b_next b = Some j \<Longrightarrow> \<exists>c. h j = Some c"
    and "\<And>i b j. h i = Some b \<Longrightarrow> b_prev b = Some j \<Longrightarrow> \<exists>c. h j = Some c"
    and "\<And>i j b c. h i = Some b \<Longrightarrow> h j = Some c \<Longrightarrow> b_next b = Some j \<longleftrightarrow> b_prev c = Some i"
    and "\<And>i j b c. h i = Some b \<Longrightarrow> h j = Some c \<Longrightarrow> b_next b = Some j \<Longrightarrow> b_ptr c = b_ptr b + b_size b \<and> same_segment b c"
  shows "links_ok h"
  unfolding links_ok_def using assms by (metis option.discI)

lemma disjoint_okD:
  "disjoint_ok h \<Longrightarrow> h i = Some b \<Longrightarrow> h j = Some c \<Longrightarrow> i \<noteq> j \<Longrightarrow>
   b_ptr b + b_size b \<le> b_ptr c \<or> b_ptr c + b_size c \<le> b_ptr b"
  by (auto simp: disjoint_ok_def)

section \<open>Updating links\<close>

definition relink_prev :: "nat option \<Rightarrow> nat \<Rightarrow> (nat \<rightharpoonup> Block) \<Rightarrow> (nat \<rightharpoonup> Block)" where
  "relink_prev k v h = (\<lambda>x. if k = Some x then map_option (\<lambda>b. b\<lparr>b_prev := Some v\<rparr>) (h x) else h x)"

definition relink_next :: "nat option \<Rightarrow> nat \<Rightarrow> (nat \<rightharpoonup> Block) \<Rightarrow> (nat \<rightharpoonup> Block)" where
  "relink_next k v h = (\<lambda>x. if k = Some x then map_option (\<lambda>b. b\<lparr>b_next := Some v\<rparr>) (h x) else h x)"

definition merge_next :: "nat \<Rightarrow> Block \<Rightarrow> nat \<Rightarrow> Block \<Rightarrow> (nat \<rightharpoonup> Block) \<Rightarrow> (nat \<rightharpoonup> Block)" where
  "merge_next i b j c h = (relink_prev (b_next c) i
     (h(i \<mapsto> b\<lparr>b_next := b_next c, b_size := b_size b + b_size c\<rparr>)))(j := None)"

definition merge_prev :: "nat \<Rightarrow> Block \<Rightarrow> nat \<Rightarrow> Block \<Rightarrow> (nat \<rightharpoonup> Block) \<Rightarrow> (nat \<rightharpoonup> Block)" where
  "merge_prev i b j c h = (relink_next (b_prev c) i
     (h(i \<mapsto> b\<lparr>b_ptr := b_ptr c, b_prev := b_prev c, b_size := b_size b + b_size c\<rparr>)))(j := None)"

definition split_heap :: "nat \<Rightarrow> Block \<Rightarrow> nat \<Rightarrow> nat \<Rightarrow> (nat \<rightharpoonup> Block) \<Rightarrow> (nat \<rightharpoonup> Block)" where
  "split_heap r b sz n h = (relink_next (b_prev b) n h)
     (n \<mapsto> b\<lparr>b_size := sz, b_next := Some r\<rparr>,
      r \<mapsto> b\<lparr>b_prev := Some n, b_ptr := b_ptr b + sz, b_size := b_size b - sz\<rparr>)"

section \<open>Merging with the next block\<close>

lemma merge_next_distinct:
  assumes "geometry_ok h" "links_ok h" "h i = Some b" "b_next b = Some j" "h j = Some c"
  shows "i \<noteq> j" "b_next c \<noteq> Some i" "b_next c \<noteq> Some j"
proof -
  have p: "b_ptr c = b_ptr b + b_size b" using links_adjacent [OF assms(2,3,5,4)] by simp
  have s: "0 < b_size b" "0 < b_size c" using geometry_okD [OF assms(1)] assms(3,5) by auto
  show "i \<noteq> j" using p s assms(3,5) by auto
  show "b_next c \<noteq> Some i" using links_adjacent [OF assms(2,5,3)] p s by auto
  show "b_next c \<noteq> Some j" using links_adjacent [OF assms(2,5,5)] s by auto
qed

definition same_flags :: "Block \<Rightarrow> Block \<Rightarrow> bool" where
  "same_flags d d0 \<longleftrightarrow> same_segment d d0 \<and> b_allocated d = b_allocated d0 \<and> b_event_count d = b_event_count d0 \<and>
     b_stream_uses d = b_stream_uses d0"

lemma merge_next_lookup:
  assumes "merge_next i b j c h x = Some d" "h i = Some b" "b_next c \<noteq> Some i" "i \<noteq> j"
  obtains d0 where "h x = Some d0" "x \<noteq> j" "b_next d = (if x = i then b_next c else b_next d0)"
    "b_prev d = (if b_next c = Some x then Some i else b_prev d0)" "b_ptr d = b_ptr d0"
    "b_size d = (if x = i then b_size b + b_size c else b_size d0)" "same_flags d d0"
  using assms by (auto simp: merge_next_def relink_prev_def same_flags_def same_segment_def split: if_splits)

lemma merge_next_live: "i \<noteq> j \<Longrightarrow> (\<exists>d. merge_next i b j c h x = Some d) \<longleftrightarrow> x \<noteq> j \<and> (x = i \<or> (\<exists>d. h x = Some d))"
  by (auto simp: merge_next_def relink_prev_def)

lemma links_merge_next:
  assumes "geometry_ok h" "links_ok h" "h i = Some b" "b_next b = Some j" "h j = Some c"
  shows "links_ok (merge_next i b j c h)"
proof (rule links_okI)
  note ne = merge_next_distinct [OF assms]
  have ij: "b_prev c = Some i" using links_iff [OF assms(2,3,5)] assms(4) by simp
  note live = links_live [OF assms(2)] and iff = links_iff [OF assms(2)] and adj = links_adjacent [OF assms(2)]
  have adjc: "b_ptr c = b_ptr b + b_size b" "same_segment b c" using adj [OF assms(3,5,4)] by auto
  fix x d y assume x: "merge_next i b j c h x = Some d"
  from merge_next_lookup [OF x assms(3) ne(2,1)] obtain d0 where d0: "h x = Some d0" "x \<noteq> j"
    "b_next d = (if x = i then b_next c else b_next d0)" "b_prev d = (if b_next c = Some x then Some i else b_prev d0)"
    "b_ptr d = b_ptr d0" "b_size d = (if x = i then b_size b + b_size c else b_size d0)" "same_flags d d0" .
  have nj: "b_next d0 = Some j \<longleftrightarrow> x = i" using iff [OF d0(1) assms(5)] ij by auto
  have pj: "b_prev d0 = Some j \<longleftrightarrow> b_next c = Some x" using iff [OF assms(5) d0(1)] by simp
  show "b_next d = Some y \<Longrightarrow> \<exists>e. merge_next i b j c h y = Some e"
    using d0 nj live [OF assms(5)] live [OF d0(1)] ne by (auto simp: merge_next_live split: if_splits)
  show "b_prev d = Some y \<Longrightarrow> \<exists>e. merge_next i b j c h y = Some e"
    using d0 pj live [OF d0(1)] ne by (auto simp: merge_next_live split: if_splits)
  fix e assume y: "merge_next i b j c h y = Some e"
  from merge_next_lookup [OF y assms(3) ne(2,1)] obtain e0 where e0: "h y = Some e0" "y \<noteq> j"
    "b_prev e = (if b_next c = Some y then Some i else b_prev e0)" "b_ptr e = b_ptr e0" "same_flags e e0" .
  have bi: "d0 = b" if "x = i" using that d0(1) assms(3) by simp
  show n: "b_next d = Some y \<longleftrightarrow> b_prev e = Some x"
  proof (cases "x = i")
    case True
    have "b_prev e0 \<noteq> Some i" using iff [OF assms(3) e0(1)] assms(4) e0(2) by auto
    with True d0(3) e0(3) show ?thesis by auto
  next
    case False
    have "b_next d0 \<noteq> Some y" if "b_next c = Some y"
      using iff [OF d0(1) e0(1)] iff [OF assms(5) e0(1)] that d0(2) by auto
    with False d0(3) e0(3) iff [OF d0(1) e0(1)] show ?thesis by auto
  qed
  show "b_next d = Some y \<Longrightarrow> b_ptr e = b_ptr d + b_size d \<and> same_segment d e"
    using d0 e0 bi adj [OF d0(1) e0(1)] adj [OF assms(5) e0(1)] adjc
    by (auto simp: same_flags_def same_segment_def split: if_splits)
qed

lemma geometry_merge_next:
  assumes "geometry_ok h" "links_ok h" "h i = Some b" "b_next b = Some j" "h j = Some c"
  shows "geometry_ok (merge_next i b j c h)"
  unfolding geometry_ok_def
proof (intro allI impI)
  fix x d assume x: "merge_next i b j c h x = Some d"
  note ne = merge_next_distinct [OF assms]
  from merge_next_lookup [OF x assms(3) ne(2,1)] obtain d0 where d0: "h x = Some d0" "b_ptr d = b_ptr d0"
    "b_size d = (if x = i then b_size b + b_size c else b_size d0)" "same_flags d d0" .
  then show "0 < b_ptr d \<and> 0 < b_size d \<and> b_ptr d + b_size d \<le> 2 ^ 64 \<and> b_pool d \<noteq> None"
    using geometry_okD [OF assms(1) d0(1)] geometry_okD [OF assms(1,5)] links_adjacent [OF assms(2,3,5,4)] assms(3)
    by (auto simp: same_flags_def same_segment_def)
qed

lemma disjoint_merge_next:
  assumes "geometry_ok h" "links_ok h" "disjoint_ok h" "h i = Some b" "b_next b = Some j" "h j = Some c"
  shows "disjoint_ok (merge_next i b j c h)"
  unfolding disjoint_ok_def
proof (intro allI impI)
  fix x y d e assume x: "merge_next i b j c h x = Some d" and y: "merge_next i b j c h y = Some e" and xy: "x \<noteq> y"
  note ne = merge_next_distinct [OF assms(1,2,4-6)]
  from merge_next_lookup [OF x assms(4) ne(2,1)] obtain d0 where d0: "h x = Some d0" "x \<noteq> j" "b_ptr d = b_ptr d0"
    "b_size d = (if x = i then b_size b + b_size c else b_size d0)" .
  from merge_next_lookup [OF y assms(4) ne(2,1)] obtain e0 where e0: "h y = Some e0" "y \<noteq> j" "b_ptr e = b_ptr e0"
    "b_size e = (if y = i then b_size b + b_size c else b_size e0)" .
  show "b_ptr d + b_size d \<le> b_ptr e \<or> b_ptr e + b_size e \<le> b_ptr d"
    using d0 e0 xy disjoint_okD [OF assms(3) d0(1) e0(1) xy] disjoint_okD [OF assms(3) d0(1) assms(6)]
      disjoint_okD [OF assms(3) e0(1) assms(6)] links_adjacent [OF assms(2,4,6,5)] assms(4)
      geometry_okD [OF assms(1) d0(1)] geometry_okD [OF assms(1) e0(1)]
    by (auto split: if_splits)
qed

lemma segs_merge_next:
  assumes "geometry_ok h" "links_ok h" "h i = Some b" "b_next b = Some j" "h j = Some c" "segs_ok S g h"
  shows "segs_ok S g (merge_next i b j c h)"
  unfolding segs_ok_def
proof (intro conjI allI impI)
  fix x d y assume x: "merge_next i b j c h x = Some d"
  note ne = merge_next_distinct [OF assms(1-5)]
  from merge_next_lookup [OF x assms(3) ne(2,1)] obtain d0 where d0: "h x = Some d0" "x \<noteq> j"
    "b_next d = (if x = i then b_next c else b_next d0)" "b_prev d = (if b_next c = Some x then Some i else b_prev d0)"
    "b_ptr d = b_ptr d0" "b_size d = (if x = i then b_size b + b_size c else b_size d0)" .
  have g: "g j = g i" using assms(3,4,6) by (simp add: segs_ok_def)
  have old: "g x \<in> S" "in_segment (g x) d0" "in_segment (g j) c" using d0(1) assms(5,6) by (simp_all add: segs_ok_def)
  have pj: "b_next c = Some x \<Longrightarrow> b_prev d0 \<noteq> None" using links_iff [OF assms(2,5) d0(1)] by auto
  show "g x \<in> S" by (rule old)
  show "in_segment (g x) d" using d0 old g pj links_adjacent [OF assms(2,3,5,4)] assms(3)
    by (auto simp: in_segment_def split: if_splits)
  assume "b_next d = Some y"
  then show "g y = g x" using d0(1,3) g assms(5,6) by (auto simp: segs_ok_def split: if_splits)
qed

lemma heap_merge_next:
  assumes "heap_ok S h" "h i = Some b" "b_next b = Some j" "h j = Some c"
  shows "heap_ok S (merge_next i b j c h)"
  using assms links_merge_next geometry_merge_next disjoint_merge_next segs_merge_next unfolding heap_ok_def by metis

section \<open>Merging with the previous block\<close>

lemma merge_prev_distinct:
  assumes "geometry_ok h" "links_ok h" "h i = Some b" "b_prev b = Some j" "h j = Some c"
  shows "i \<noteq> j" "b_prev c \<noteq> Some i" "b_prev c \<noteq> Some j" "b_next c = Some i"
proof -
  show n: "b_next c = Some i" using links_iff [OF assms(2,5,3)] assms(4) by simp
  have p: "b_ptr b = b_ptr c + b_size c" using links_adjacent [OF assms(2,5,3) n] by simp
  have s: "0 < b_size b" "0 < b_size c" using geometry_okD [OF assms(1)] assms(3,5) by auto
  show "i \<noteq> j" using p s assms(3,5) by auto
  show "b_prev c \<noteq> Some i" using links_iff [OF assms(2,3,5)] links_adjacent [OF assms(2,3,5)] p s by auto
  show "b_prev c \<noteq> Some j" using links_iff [OF assms(2,5,5)] links_adjacent [OF assms(2,5,5)] s by auto
qed

lemma merge_prev_lookup:
  assumes "merge_prev i b j c h x = Some d" "h i = Some b" "b_prev c \<noteq> Some i" "i \<noteq> j"
  obtains d0 where "h x = Some d0" "x \<noteq> j" "b_prev d = (if x = i then b_prev c else b_prev d0)"
    "b_next d = (if b_prev c = Some x then Some i else b_next d0)" "b_ptr d = (if x = i then b_ptr c else b_ptr d0)"
    "b_size d = (if x = i then b_size b + b_size c else b_size d0)" "same_flags d d0"
  using assms by (auto simp: merge_prev_def relink_next_def same_flags_def same_segment_def split: if_splits)

lemma merge_prev_live: "i \<noteq> j \<Longrightarrow> (\<exists>d. merge_prev i b j c h x = Some d) \<longleftrightarrow> x \<noteq> j \<and> (x = i \<or> (\<exists>d. h x = Some d))"
  by (auto simp: merge_prev_def relink_next_def)

lemma links_merge_prev:
  assumes "geometry_ok h" "links_ok h" "h i = Some b" "b_prev b = Some j" "h j = Some c"
  shows "links_ok (merge_prev i b j c h)"
proof (rule links_okI)
  note ne = merge_prev_distinct [OF assms]
  note live = links_live [OF assms(2)] and iff = links_iff [OF assms(2)] and adj = links_adjacent [OF assms(2)]
  have adjc: "b_ptr b = b_ptr c + b_size c" "same_segment c b" using adj [OF assms(5,3) ne(4)] by auto
  fix x d y assume x: "merge_prev i b j c h x = Some d"
  from merge_prev_lookup [OF x assms(3) ne(2,1)] obtain d0 where d0: "h x = Some d0" "x \<noteq> j"
    "b_prev d = (if x = i then b_prev c else b_prev d0)" "b_next d = (if b_prev c = Some x then Some i else b_next d0)"
    "b_ptr d = (if x = i then b_ptr c else b_ptr d0)" "b_size d = (if x = i then b_size b + b_size c else b_size d0)"
    "same_flags d d0" .
  have nj: "b_next d0 = Some j \<longleftrightarrow> b_prev c = Some x" using iff [OF d0(1) assms(5)] by auto
  have pj: "b_prev d0 = Some j \<longleftrightarrow> x = i" using iff [OF assms(5) d0(1)] ne(4) by auto
  show "b_next d = Some y \<Longrightarrow> \<exists>e. merge_prev i b j c h y = Some e"
    using d0 nj live [OF d0(1)] ne by (auto simp: merge_prev_live split: if_splits)
  show "b_prev d = Some y \<Longrightarrow> \<exists>e. merge_prev i b j c h y = Some e"
    using d0 pj live [OF assms(5)] live [OF d0(1)] ne by (auto simp: merge_prev_live split: if_splits)
  fix e assume y: "merge_prev i b j c h y = Some e"
  from merge_prev_lookup [OF y assms(3) ne(2,1)] obtain e0 where e0: "h y = Some e0" "y \<noteq> j"
    "b_prev e = (if y = i then b_prev c else b_prev e0)" "b_ptr e = (if y = i then b_ptr c else b_ptr e0)"
    "same_flags e e0" .
  have bi: "y = i \<Longrightarrow> e0 = b" "x = i \<Longrightarrow> d0 = b" using d0(1) e0(1) assms(3) by auto
  show "b_next d = Some y \<longleftrightarrow> b_prev e = Some x"
  proof (cases "y = i")
    case True
    have "b_next d0 \<noteq> Some i" using iff [OF d0(1) assms(3)] assms(4) d0(2) by auto
    with True d0(4) e0(3) show ?thesis by auto
  next
    case False
    have "b_prev e0 \<noteq> Some x" if "b_prev c = Some x"
      using iff [OF d0(1) e0(1)] nj that e0(2) by auto
    with False d0(4) e0(3) iff [OF d0(1) e0(1)] show ?thesis by auto
  qed
  have nc: "b_prev c = Some x \<Longrightarrow> b_ptr c = b_ptr d0 + b_size d0 \<and> same_segment d0 c" "b_prev c = Some x \<Longrightarrow> x \<noteq> i"
    using adj [OF d0(1) assms(5)] nj ne by auto
  have "b_next d0 = Some y \<Longrightarrow> y \<noteq> i" using iff [OF d0(1) assms(3)] assms(4) d0(2) by auto
  then show "b_next d = Some y \<Longrightarrow> b_ptr e = b_ptr d + b_size d \<and> same_segment d e"
    using d0 e0 bi adj [OF d0(1) e0(1)] nc adjc
    by (auto simp: same_flags_def same_segment_def split: if_splits)
qed

lemma geometry_merge_prev:
  assumes "geometry_ok h" "links_ok h" "h i = Some b" "b_prev b = Some j" "h j = Some c"
  shows "geometry_ok (merge_prev i b j c h)"
  unfolding geometry_ok_def
proof (intro allI impI)
  fix x d assume x: "merge_prev i b j c h x = Some d"
  note ne = merge_prev_distinct [OF assms]
  from merge_prev_lookup [OF x assms(3) ne(2,1)] obtain d0 where d0: "h x = Some d0"
    "b_ptr d = (if x = i then b_ptr c else b_ptr d0)"
    "b_size d = (if x = i then b_size b + b_size c else b_size d0)" "same_flags d d0" .
  then show "0 < b_ptr d \<and> 0 < b_size d \<and> b_ptr d + b_size d \<le> 2 ^ 64 \<and> b_pool d \<noteq> None"
    using geometry_okD [OF assms(1) d0(1)] geometry_okD [OF assms(1,5)] links_adjacent [OF assms(2,5,3) ne(4)] assms(3)
    by (auto simp: same_flags_def same_segment_def)
qed

lemma disjoint_merge_prev:
  assumes "geometry_ok h" "links_ok h" "disjoint_ok h" "h i = Some b" "b_prev b = Some j" "h j = Some c"
  shows "disjoint_ok (merge_prev i b j c h)"
  unfolding disjoint_ok_def
proof (intro allI impI)
  fix x y d e assume x: "merge_prev i b j c h x = Some d" and y: "merge_prev i b j c h y = Some e" and xy: "x \<noteq> y"
  note ne = merge_prev_distinct [OF assms(1,2,4-6)]
  from merge_prev_lookup [OF x assms(4) ne(2,1)] obtain d0 where d0: "h x = Some d0" "x \<noteq> j"
    "b_ptr d = (if x = i then b_ptr c else b_ptr d0)" "b_size d = (if x = i then b_size b + b_size c else b_size d0)" .
  from merge_prev_lookup [OF y assms(4) ne(2,1)] obtain e0 where e0: "h y = Some e0" "y \<noteq> j"
    "b_ptr e = (if y = i then b_ptr c else b_ptr e0)" "b_size e = (if y = i then b_size b + b_size c else b_size e0)" .
  show "b_ptr d + b_size d \<le> b_ptr e \<or> b_ptr e + b_size e \<le> b_ptr d"
    using d0 e0 xy disjoint_okD [OF assms(3) d0(1) e0(1) xy] disjoint_okD [OF assms(3) d0(1) assms(6)]
      disjoint_okD [OF assms(3) e0(1) assms(6)] links_adjacent [OF assms(2,6,4) ne(4)] assms(4)
      geometry_okD [OF assms(1) d0(1)] geometry_okD [OF assms(1) e0(1)]
    by (auto split: if_splits)
qed

lemma segs_merge_prev:
  assumes "geometry_ok h" "links_ok h" "h i = Some b" "b_prev b = Some j" "h j = Some c" "segs_ok S g h"
  shows "segs_ok S g (merge_prev i b j c h)"
  unfolding segs_ok_def
proof (intro conjI allI impI)
  fix x d y assume x: "merge_prev i b j c h x = Some d"
  note ne = merge_prev_distinct [OF assms(1-5)]
  from merge_prev_lookup [OF x assms(3) ne(2,1)] obtain d0 where d0: "h x = Some d0" "x \<noteq> j"
    "b_prev d = (if x = i then b_prev c else b_prev d0)" "b_next d = (if b_prev c = Some x then Some i else b_next d0)"
    "b_ptr d = (if x = i then b_ptr c else b_ptr d0)" "b_size d = (if x = i then b_size b + b_size c else b_size d0)" .
  have g: "g i = g j" using assms(5,6) ne(4) by (simp add: segs_ok_def)
  have old: "g x \<in> S" "in_segment (g x) d0" "in_segment (g j) c" using d0(1) assms(5,6) by (simp_all add: segs_ok_def)
  have pj: "b_next d0 = Some j" if "b_prev c = Some x" using links_iff [OF assms(2) d0(1) assms(5)] that by simp
  have gj: "g j = g x" if "b_prev c = Some x" using pj [OF that] d0(1) assms(6) by (simp add: segs_ok_def)
  show "g x \<in> S" by (rule old)
  show "in_segment (g x) d" using d0 old g pj links_adjacent [OF assms(2,5,3) ne(4)] assms(3)
    by (auto simp: in_segment_def split: if_splits)
  assume "b_next d = Some y"
  then show "g y = g x" using d0(1,4) g gj assms(6) by (auto simp: segs_ok_def split: if_splits)
qed

lemma heap_merge_prev:
  assumes "heap_ok S h" "h i = Some b" "b_prev b = Some j" "h j = Some c"
  shows "heap_ok S (merge_prev i b j c h)"
  using assms links_merge_prev geometry_merge_prev disjoint_merge_prev segs_merge_prev unfolding heap_ok_def by metis

section \<open>Splitting a block\<close>

lemma split_lookup:
  assumes "split_heap r b sz n h x = Some d" "h r = Some b" "h n = None" "b_prev b \<noteq> Some r"
  obtains (new) "x = n" "d = b\<lparr>b_size := sz, b_next := Some r\<rparr>"
    | (old) d0 where "x \<noteq> n" "h x = Some d0" "b_prev d = (if x = r then Some n else b_prev d0)"
      "b_next d = (if b_prev b = Some x then Some n else b_next d0)"
      "b_ptr d = (if x = r then b_ptr b + sz else b_ptr d0)"
      "b_size d = (if x = r then b_size b - sz else b_size d0)" "same_flags d d0"
proof -
  have rn: "r \<noteq> n" using assms(2,3) by auto
  consider "x = n" | "x = r" | "x \<noteq> n" "x \<noteq> r" by blast
  then show thesis
  proof cases
    case 1
    then show thesis using new assms(1) rn by (simp add: split_heap_def)
  next
    case 2
    then have "d = b\<lparr>b_prev := Some n, b_ptr := b_ptr b + sz, b_size := b_size b - sz\<rparr>"
      using assms(1) by (simp add: split_heap_def)
    then show thesis using 2 old [of b] assms rn by (simp add: same_flags_def same_segment_def)
  next
    case 3
    then show thesis using old assms(1) rn
      by (auto simp: split_heap_def relink_next_def same_flags_def same_segment_def split: if_splits)
  qed
qed

lemma split_live: "(\<exists>d. split_heap r b sz n h x = Some d) \<longleftrightarrow> x = n \<or> x = r \<or> (\<exists>d. h x = Some d)"
  by (auto simp: split_heap_def relink_next_def)

lemma no_self_link: "geometry_ok h \<Longrightarrow> links_ok h \<Longrightarrow> h r = Some b \<Longrightarrow> b_prev b \<noteq> Some r \<and> b_next b \<noteq> Some r"
  using geometry_okD [of h r b] links_adjacent [of h r b r b] links_iff [of h r b r b] by fastforce

lemma links_split:
  assumes "geometry_ok h" "links_ok h" "h r = Some b" "h n = None" "sz \<le> b_size b"
  shows "links_ok (split_heap r b sz n h)"
proof (rule links_okI)
  let ?h = "split_heap r b sz n h"
  have self: "b_prev b \<noteq> Some r" "b_next b \<noteq> Some r" using no_self_link [OF assms(1-3)] by auto
  note lookup = split_lookup [OF _ assms(3,4) self(1)]
  note live = links_live [OF assms(2)] and iff = links_iff [OF assms(2)] and adj = links_adjacent [OF assms(2)]
  have rn: "r \<noteq> n" using assms(3,4) by auto
  fix x d y assume x: "?h x = Some d"
  show "b_next d = Some y \<Longrightarrow> \<exists>e. ?h y = Some e"
    using x live by (cases rule: lookup) (fastforce simp: split_live split: if_splits)+
  show "b_prev d = Some y \<Longrightarrow> \<exists>e. ?h y = Some e"
    using x live [of x _ y] live [OF assms(3), of y] by (cases rule: lookup) (auto simp: split_live split: if_splits)
  fix e assume y: "?h y = Some e"
  have nn: "b_next d0 \<noteq> Some n" "b_prev d0 \<noteq> Some n" if "h z = Some d0" for z d0
    using live [OF that, of n] assms(4) by auto
  show "b_next d = Some y \<longleftrightarrow> b_prev e = Some x"
  proof (cases rule: lookup [OF x, case_names new old])
    case new
    then show ?thesis using y rn nn [OF assms(3)] nn by (cases rule: lookup [OF y, case_names new old]) auto
  next
    case (old d0)
    note x0 = this
    show ?thesis
    proof (cases rule: lookup [OF y, case_names new old])
      case new
      then show ?thesis using x0 nn(1) [OF x0(2)] by auto
    next
      case (old e0)
      have "b_next d0 = Some y \<longleftrightarrow> b_prev e0 = Some x" by (rule iff [OF x0(2) old(2)])
      moreover have "b_next d0 = Some r \<longleftrightarrow> b_prev b = Some x" by (rule iff [OF x0(2) assms(3)])
      moreover have "y = r \<Longrightarrow> e0 = b" using old(2) assms(3) by simp
      ultimately show ?thesis using x0 old by auto
    qed
  qed
  assume nx: "b_next d = Some y"
  show "b_ptr e = b_ptr d + b_size d \<and> same_segment d e"
  proof (cases rule: lookup [OF x, case_names new old])
    case new
    with nx have "y = r" by simp
    then show ?thesis using new rn assms(3)
      by (cases rule: lookup [OF y, case_names new old]) (auto simp: same_flags_def same_segment_def)
  next
    case (old d0)
    note x0 = this
    show ?thesis
    proof (cases rule: lookup [OF y, case_names new old])
      case new
      then have "b_prev b = Some x" "x \<noteq> r" using nx x0 nn(1) [OF x0(2)] self by (auto split: if_splits)
      then show ?thesis using new x0 adj [OF x0(2) assms(3)] iff [OF x0(2) assms(3)]
        by (auto simp: same_flags_def same_segment_def)
    next
      case (old e0)
      have "y \<noteq> r" using nx x0 iff [OF x0(2) assms(3)] rn by (auto split: if_splits)
      moreover have "x = r \<Longrightarrow> d0 = b" using x0(2) assms(3) by simp
      ultimately show ?thesis using nx x0 old adj [OF x0(2) old(2)] assms(5)
        by (auto simp: same_flags_def same_segment_def split: if_splits)
    qed
  qed
qed

lemma geometry_split:
  assumes "geometry_ok h" "links_ok h" "h r = Some b" "h n = None" "0 < sz" "sz < b_size b"
  shows "geometry_ok (split_heap r b sz n h)"
  unfolding geometry_ok_def
proof (intro allI impI)
  fix x d assume x: "split_heap r b sz n h x = Some d"
  have self: "b_prev b \<noteq> Some r" using no_self_link [OF assms(1-3)] by auto
  from x show "0 < b_ptr d \<and> 0 < b_size d \<and> b_ptr d + b_size d \<le> 2 ^ 64 \<and> b_pool d \<noteq> None"
    using geometry_okD [OF assms(1)] assms(3,5,6)
    by (cases rule: split_lookup [OF _ assms(3,4) self])
       (fastforce simp: same_flags_def same_segment_def split: if_splits)+
qed

lemma disjoint_split:
  assumes "geometry_ok h" "links_ok h" "disjoint_ok h" "h r = Some b" "h n = None" "sz < b_size b"
  shows "disjoint_ok (split_heap r b sz n h)"
  unfolding disjoint_ok_def
proof (intro allI impI)
  fix x y d e assume x: "split_heap r b sz n h x = Some d" and y: "split_heap r b sz n h y = Some e" and xy: "x \<noteq> y"
  have self: "b_prev b \<noteq> Some r" using no_self_link [OF assms(1,2,4)] by auto
  note lookup = split_lookup [OF _ assms(4,5) self] and dis = disjoint_okD [OF assms(3)]
  show "b_ptr d + b_size d \<le> b_ptr e \<or> b_ptr e + b_size e \<le> b_ptr d"
  proof (cases rule: lookup [OF x, case_names new old])
    case new
    then show ?thesis using xy dis [OF _ assms(4), of y] assms(4,6) by (cases rule: lookup [OF y, case_names new old]) (auto split: if_splits)
  next
    case (old d0)
    note x0 = this
    show ?thesis
    proof (cases rule: lookup [OF y, case_names new old])
      case new
      then show ?thesis using x0 dis [OF x0(2) assms(4)] assms(4,6) by (auto split: if_splits)
    next
      case (old e0)
      then show ?thesis using x0 dis [OF x0(2) old(2) xy] assms(4,6) by (auto split: if_splits)
    qed
  qed
qed

lemma segs_split:
  assumes "geometry_ok h" "links_ok h" "h r = Some b" "h n = None" "sz < b_size b" "segs_ok S g h"
  shows "segs_ok S (g(n := g r)) (split_heap r b sz n h)"
  unfolding segs_ok_def
proof (intro conjI allI impI)
  fix x d y assume x: "split_heap r b sz n h x = Some d"
  have self: "b_prev b \<noteq> Some r" using no_self_link [OF assms(1-3)] by auto
  have rn: "r \<noteq> n" using assms(3,4) by auto
  note lookup = split_lookup [OF _ assms(3,4) self]
  have S: "g z \<in> S" "in_segment (g z) d0" if "h z = Some d0" for z d0 using that assms(6) by (auto simp: segs_ok_def)
  have nn: "b_next d0 \<noteq> Some n" if "h z = Some d0" for z d0
    using links_live [OF assms(2) that, of n] assms(4) by auto
  show "(g(n := g r)) x \<in> S" using x S assms(3) by (cases rule: lookup) auto
  show "in_segment ((g(n := g r)) x) d"
  proof (cases rule: lookup [OF x, case_names new old])
    case new
    then show ?thesis using S(2) [OF assms(3)] assms(5) by (auto simp: in_segment_def)
  next
    case (old d0)
    then show ?thesis using S(2) [OF assms(3)] S(2) [OF old(2)] assms(3,5) links_iff [OF assms(2) old(2) assms(3)]
      by (auto simp: in_segment_def split: if_splits)
  qed
  assume nx: "b_next d = Some y"
  show "(g(n := g r)) y = (g(n := g r)) x"
  proof (cases rule: lookup [OF x, case_names new old])
    case new
    then show ?thesis using nx rn by auto
  next
    case (old d0)
    have "b_prev b = Some x \<Longrightarrow> b_next d0 = Some r" using links_iff [OF assms(2) old(2) assms(3)] by simp
    then show ?thesis using nx old nn [OF old(2)] assms(6) by (auto simp: segs_ok_def split: if_splits)
  qed
qed

lemma heap_split:
  assumes "heap_ok S h" "h r = Some b" "h n = None" "0 < sz" "sz < b_size b"
  shows "heap_ok S (split_heap r b sz n h)"
  using assms links_split [of h r b n sz] geometry_split [of h r b n sz] disjoint_split [of h r b n sz]
    segs_split [of h r b n sz S]
  unfolding heap_ok_def by auto

section \<open>Adding a segment and removing an unsplit block\<close>

lemma heap_new_segment:
  assumes "heap_ok S h" "h n = None" "0 < p" "0 < sz" "p + sz \<le> 2 ^ 64"
    and fresh: "\<forall>x\<in>S. p + sz \<le> fst x \<or> fst x + snd x \<le> p"
  shows "heap_ok (insert (p, sz) S) (h(n \<mapsto> new_Block dev str sz (Some pool) p))"
proof -
  let ?b = "new_Block dev str sz (Some pool) p" and ?S = "insert (p, sz) S"
  from assms(1) obtain g where H: "geometry_ok h" "links_ok h" "disjoint_ok h" "segments_disjoint S" "segs_ok S g h"
    by (auto simp: heap_ok_def)
  have nb: "b_next ?b = None" "b_prev ?b = None" "b_ptr ?b = p" "b_size ?b = sz" "b_pool ?b = Some pool"
    by (simp_all add: new_Block_def)
  have nn: "b_next d \<noteq> Some n" "b_prev d \<noteq> Some n" if "h x = Some d" for x d
    using links_live [OF H(2) that, of n] assms(2) by auto
  have away: "p + sz \<le> b_ptr d \<or> b_ptr d + b_size d \<le> p" if "h x = Some d" for x d
    using that H(5) fresh by (force simp: segs_ok_def in_segment_def)
  have "geometry_ok (h(n \<mapsto> ?b))" using H(1) assms(3-5) nb by (simp add: geometry_ok_def)
  moreover have "links_ok (h(n \<mapsto> ?b))"
  proof (rule links_okI)
    fix x y d assume x: "(h(n \<mapsto> ?b)) x = Some d"
    show "b_next d = Some y \<Longrightarrow> \<exists>c. (h(n \<mapsto> ?b)) y = Some c" "b_prev d = Some y \<Longrightarrow> \<exists>c. (h(n \<mapsto> ?b)) y = Some c"
      using x nb links_live [OF H(2), of x d y] by (auto split: if_splits)
    fix e assume y: "(h(n \<mapsto> ?b)) y = Some e"
    show n: "b_next d = Some y \<longleftrightarrow> b_prev e = Some x"
      using x y nb nn [of x d] nn [of y e] links_iff [OF H(2), of x d y e] by (auto split: if_splits)
    show "b_next d = Some y \<Longrightarrow> b_ptr e = b_ptr d + b_size d \<and> same_segment d e"
      using x y nb nn [of x d] links_adjacent [OF H(2), of x d y e] by (auto split: if_splits)
  qed
  moreover have "disjoint_ok (h(n \<mapsto> ?b))"
    unfolding disjoint_ok_def
  proof (intro allI impI)
    fix x y d e assume xy: "(h(n \<mapsto> ?b)) x = Some d" "(h(n \<mapsto> ?b)) y = Some e" "x \<noteq> y"
    then show "b_ptr d + b_size d \<le> b_ptr e \<or> b_ptr e + b_size e \<le> b_ptr d"
      using disjoint_okD [OF H(3), of x d y e] nb away [of x d] away [of y e] by (auto split: if_splits)
  qed
  moreover have "segments_disjoint ?S" using H(4) fresh assms(4) unfolding segments_disjoint_def by auto
  moreover have "segs_ok ?S (g(n := (p, sz))) (h(n \<mapsto> ?b))"
    using H(5) nb nn unfolding segs_ok_def by (auto simp: in_segment_def)
  ultimately show ?thesis unfolding heap_ok_def by blast
qed

lemma unsplit_is_segment:
  assumes "heap_ok S h" "h i = Some b" "b_prev b = None" "b_next b = None"
  shows "(b_ptr b, b_size b) \<in> S"
proof -
  from assms(1,2) obtain g where "g i \<in> S" "in_segment (g i) b" by (auto simp: heap_ok_def segs_ok_def)
  moreover from this assms(3,4) have "g i = (b_ptr b, b_size b)" by (cases "g i") (auto simp: in_segment_def)
  ultimately show ?thesis by simp
qed

lemma heap_remove_unsplit:
  assumes "heap_ok S h" "h i = Some b" "b_prev b = None" "b_next b = None"
  shows "heap_ok {x \<in> S. fst x \<noteq> b_ptr b} (h(i := None))"
proof -
  let ?h = "h(i := None)" and ?S = "{x \<in> S. fst x \<noteq> b_ptr b}"
  from assms(1) obtain g where H: "geometry_ok h" "links_ok h" "disjoint_ok h" "segments_disjoint S" "segs_ok S g h"
    by (auto simp: heap_ok_def)
  have seg: "(b_ptr b, b_size b) \<in> S" by (rule unsplit_is_segment [OF assms])
  have ni: "b_next d \<noteq> Some i" "b_prev d \<noteq> Some i" if "h x = Some d" for x d
    using links_iff [OF H(2) that assms(2)] links_iff [OF H(2) assms(2) that] assms(3,4) by auto
  have "fst (g x) \<noteq> b_ptr b" if x: "h x = Some d" "x \<noteq> i" for x d
  proof
    assume f: "fst (g x) = b_ptr b"
    have gx: "g x \<in> S" "in_segment (g x) d" using x H(5) by (auto simp: segs_ok_def)
    have sb: "0 < b_size b" "0 < b_size d" using geometry_okD [OF H(1)] assms(2) x by auto
    have "0 < snd (g x)" using gx(1) H(4) by (auto simp: segments_disjoint_def)
    then have "g x = (b_ptr b, b_size b)"
      using gx(1) seg H(4) f sb by (force simp: segments_disjoint_def)
    then show False using gx(2) disjoint_okD [OF H(3) x(1) assms(2) x(2)] sb by (auto simp: in_segment_def)
  qed
  then have "segs_ok ?S g ?h" using H(5) unfolding segs_ok_def by (auto split: if_splits)
  moreover have "geometry_ok ?h" "disjoint_ok ?h" "segments_disjoint ?S"
    using H(1,3,4) by (auto simp: geometry_ok_def disjoint_ok_def segments_disjoint_def)
  moreover have "links_ok ?h"
  proof (rule links_okI)
    fix x y d assume x: "?h x = Some d"
    then have x0: "h x = Some d" by (auto split: if_splits)
    show "b_next d = Some y \<Longrightarrow> \<exists>c. ?h y = Some c" "b_prev d = Some y \<Longrightarrow> \<exists>c. ?h y = Some c"
      using links_live [OF H(2) x0, of y] ni [OF x0] by auto
    fix e assume "?h y = Some e"
    then have y0: "h y = Some e" by (auto split: if_splits)
    show "b_next d = Some y \<longleftrightarrow> b_prev e = Some x" by (rule links_iff [OF H(2) x0 y0])
    show "b_next d = Some y \<Longrightarrow> b_ptr e = b_ptr d + b_size d \<and> same_segment d e"
      by (rule links_adjacent [OF H(2) x0 y0])
  qed
  ultimately show ?thesis unfolding heap_ok_def by blast
qed

section \<open>Updating flags\<close>

definition same_geometry :: "Block \<Rightarrow> Block \<Rightarrow> bool" where
  "same_geometry d b \<longleftrightarrow> same_segment d b \<and> b_ptr d = b_ptr b \<and> b_size d = b_size b \<and> b_prev d = b_prev b \<and> b_next d = b_next b"

lemma heap_same_geometry:
  assumes "heap_ok S h" "h i = Some b" "same_geometry d b"
  shows "heap_ok S (h(i \<mapsto> d))"
proof -
  from assms(1) obtain g where H: "geometry_ok h" "links_ok h" "disjoint_ok h" "segments_disjoint S" "segs_ok S g h"
    by (auto simp: heap_ok_def)
  have d: "b_ptr d = b_ptr b" "b_size d = b_size b" "b_prev d = b_prev b" "b_next d = b_next b" "b_pool d = b_pool b"
    "same_segment d b" using assms(3) by (auto simp: same_geometry_def same_segment_def)
  have "geometry_ok (h(i \<mapsto> d))" using H(1) assms(2) d by (auto simp: geometry_ok_def)
  moreover have "links_ok (h(i \<mapsto> d))"
  proof (rule links_okI)
    fix x y e assume x: "(h(i \<mapsto> d)) x = Some e"
    then obtain e0 where e0: "h x = Some e0" "b_next e = b_next e0" "b_prev e = b_prev e0" "b_ptr e = b_ptr e0"
      "b_size e = b_size e0" "same_segment e e0"
      using assms(2) d by (auto simp: same_segment_def split: if_splits)
    show "b_next e = Some y \<Longrightarrow> \<exists>c. (h(i \<mapsto> d)) y = Some c" "b_prev e = Some y \<Longrightarrow> \<exists>c. (h(i \<mapsto> d)) y = Some c"
      using links_live [OF H(2) e0(1), of y] e0 by auto
    fix f assume y: "(h(i \<mapsto> d)) y = Some f"
    then obtain f0 where f0: "h y = Some f0" "b_prev f = b_prev f0" "b_ptr f = b_ptr f0" "same_segment f f0"
      using assms(2) d by (auto simp: same_segment_def split: if_splits)
    show "b_next e = Some y \<longleftrightarrow> b_prev f = Some x" using links_iff [OF H(2) e0(1) f0(1)] e0 f0 by simp
    show "b_next e = Some y \<Longrightarrow> b_ptr f = b_ptr e + b_size e \<and> same_segment e f"
      using links_adjacent [OF H(2) e0(1) f0(1)] e0 f0 by (simp add: same_segment_def)
  qed
  moreover have "disjoint_ok (h(i \<mapsto> d))" using H(3) assms(2) d by (auto simp: disjoint_ok_def)
  moreover have "segs_ok S g (h(i \<mapsto> d))" using H(5) assms(2) d by (auto simp: segs_ok_def in_segment_def)
  ultimately show ?thesis using H(4) unfolding heap_ok_def by blast
qed

lemma ptr_inj:
  assumes "heap_ok S h" "h i = Some b" "h j = Some c" "b_ptr b = b_ptr c"
  shows "i = j"
proof (rule ccontr)
  assume "i \<noteq> j"
  then have "b_ptr b + b_size b \<le> b_ptr c \<or> b_ptr c + b_size c \<le> b_ptr b"
    using assms disjoint_okD [of h i b j c] by (simp add: heap_ok_def)
  moreover have "0 < b_size b" "0 < b_size c" using assms geometry_okD by (auto simp: heap_ok_def)
  ultimately show False using assms(4) by simp
qed

section \<open>Coalescing\<close>

lemma isfree_same_flags: "same_flags d d0 \<Longrightarrow> isfree d = isfree d0"
  by (simp add: same_flags_def isfree_def)

definition lonely :: "(nat \<rightharpoonup> Block) \<Rightarrow> Block \<Rightarrow> bool" where
  "lonely h b \<longleftrightarrow> (\<forall>j c. h j = Some c \<longrightarrow> b_prev b = Some j \<or> b_next b = Some j \<longrightarrow> \<not> isfree c)"

lemma coal_okD:
  "coal_ok X h \<Longrightarrow> h i = Some b \<Longrightarrow> b_next b = Some j \<Longrightarrow> h j = Some c \<Longrightarrow> i \<notin> X \<Longrightarrow> j \<notin> X \<Longrightarrow> \<not> (isfree b \<and> isfree c)"
  unfolding coal_ok_def by blast

lemma coal_merge_next:
  assumes "heap_ok S h" "coal_ok {i} h" "h i = Some b" "b_next b = Some j" "h j = Some c"
  shows "coal_ok {i} (merge_next i b j c h)"
  unfolding coal_ok_def
proof (intro allI impI)
  fix x y d e
  assume x: "merge_next i b j c h x = Some d" and nx: "b_next d = Some y" and y: "merge_next i b j c h y = Some e"
    and ni: "x \<notin> {i}" "y \<notin> {i}"
  have H: "geometry_ok h" "links_ok h" using assms(1) by (auto simp: heap_ok_def)
  note ne = merge_next_distinct [OF H assms(3-5)]
  from merge_next_lookup [OF x assms(3) ne(2,1)] obtain d0 where d0: "h x = Some d0"
    "b_next d = (if x = i then b_next c else b_next d0)" "same_flags d d0" .
  from merge_next_lookup [OF y assms(3) ne(2,1)] obtain e0 where e0: "h y = Some e0" "same_flags e e0" .
  show "\<not> (isfree d \<and> isfree e)"
    using coal_okD [OF assms(2) d0(1) _ e0(1) ni] nx ni(1) d0 e0(2) by (auto simp: isfree_same_flags)
qed

lemma coal_merge_prev:
  assumes "heap_ok S h" "coal_ok {i} h" "h i = Some b" "b_prev b = Some j" "h j = Some c"
  shows "coal_ok {i} (merge_prev i b j c h)"
  unfolding coal_ok_def
proof (intro allI impI)
  fix x y d e
  assume x: "merge_prev i b j c h x = Some d" and nx: "b_next d = Some y" and y: "merge_prev i b j c h y = Some e"
    and ni: "x \<notin> {i}" "y \<notin> {i}"
  have H: "geometry_ok h" "links_ok h" using assms(1) by (auto simp: heap_ok_def)
  note ne = merge_prev_distinct [OF H assms(3-5)]
  from merge_prev_lookup [OF x assms(3) ne(2,1)] obtain d0 where d0: "h x = Some d0"
    "b_next d = (if b_prev c = Some x then Some i else b_next d0)" "same_flags d d0" .
  from merge_prev_lookup [OF y assms(3) ne(2,1)] obtain e0 where e0: "h y = Some e0" "same_flags e e0" .
  show "\<not> (isfree d \<and> isfree e)"
    using coal_okD [OF assms(2) d0(1) _ e0(1) ni] nx ni(2) d0 e0(2)
    by (auto simp: isfree_same_flags split: if_splits)
qed

lemma coal_split:
  assumes "heap_ok S h" "coal_ok {r} h" "h r = Some b" "h n = None" "lonely h b"
  shows "coal_ok {n} (split_heap r b sz n h)"
  unfolding coal_ok_def
proof (intro allI impI)
  fix x y d e
  assume x: "split_heap r b sz n h x = Some d" and nx: "b_next d = Some y" and y: "split_heap r b sz n h y = Some e"
    and ni: "x \<notin> {n}" "y \<notin> {n}"
  have H: "geometry_ok h" "links_ok h" using assms(1) by (auto simp: heap_ok_def)
  have self: "b_prev b \<noteq> Some r" using no_self_link [OF H assms(3)] by auto
  note lookup = split_lookup [OF _ assms(3,4) self]
  obtain d0 where d0: "h x = Some d0" "b_next d = (if b_prev b = Some x then Some n else b_next d0)" "same_flags d d0"
    using x ni(1) by (auto elim: lookup)
  obtain e0 where e0: "h y = Some e0" "same_flags e e0" using y ni(2) by (auto elim: lookup)
  have nx0: "b_next d0 = Some y" "b_prev b \<noteq> Some x" using nx d0(2) ni(2) by (auto split: if_splits)
  have "y \<noteq> r" using links_iff [OF H(2) d0(1) assms(3)] nx0 by auto
  moreover have "x = r \<Longrightarrow> \<not> isfree e0" using assms(3,5) d0(1) e0(1) nx0 by (auto simp: lonely_def)
  ultimately show "\<not> (isfree d \<and> isfree e)"
    using coal_okD [OF assms(2) d0(1) nx0(1) e0(1)] d0(3) e0(2) by (auto simp: isfree_same_flags)
qed

lemma coal_weaken: "coal_ok X h \<Longrightarrow> X \<subseteq> Y \<Longrightarrow> coal_ok Y h"
  unfolding coal_ok_def by blast

lemma coal_lonely:
  assumes "heap_ok S h" "coal_ok {i} h" "h i = Some b" "lonely h b"
  shows "coal_ok {} h"
  unfolding coal_ok_def
proof (intro allI impI)
  fix x y d e assume x: "h x = Some d" and nx: "b_next d = Some y" and y: "h y = Some e"
  have l: "b_prev e = Some x" using links_iff [OF _ x y] nx assms(1) by (simp add: heap_ok_def)
  consider "x = i" | "y = i" | "x \<noteq> i" "y \<noteq> i" by blast
  then show "\<not> (isfree d \<and> isfree e)"
  proof cases
    case 3
    then show ?thesis using coal_okD [OF assms(2) x nx y] by simp
  qed (use assms(3,4) x y nx l in \<open>auto simp: lonely_def\<close>)
qed

lemma coal_not_free: "coal_ok {i} h \<Longrightarrow> h i = Some b \<Longrightarrow> \<not> isfree b \<Longrightarrow> coal_ok {} h"
  unfolding coal_ok_def by (metis option.inject singletonD)

lemma lonely_in_pool:
  assumes "heap_ok S h" "coal_ok {} h" "h i = Some b" "isfree b"
  shows "lonely h b"
  unfolding lonely_def
proof (intro allI impI)
  fix j c assume j: "h j = Some c" and n: "b_prev b = Some j \<or> b_next b = Some j"
  have "b_next c = Some i \<longleftrightarrow> b_prev b = Some j" using links_iff [OF _ j assms(3)] assms(1) by (simp add: heap_ok_def)
  with n show "\<not> isfree c" using coal_okD [OF assms(2) j _ assms(3)] coal_okD [OF assms(2,3) _ j] assms(4) by auto
qed

lemma coal_same_next: "coal_ok X h \<Longrightarrow> i \<in> X \<Longrightarrow> h i = Some b \<Longrightarrow> coal_ok X (h(i \<mapsto> d))"
  unfolding coal_ok_def by (auto split: if_splits)

end
