(* ===== verification/Allocator_Invariant.thy ===== *)
theory Allocator_Invariant
  imports Allocator_Heap
begin

text \<open>
  The invariant of the caching allocator: the heap of blocks is well formed, each pool holds exactly the free blocks
  assigned to it in the comparator's order, the map of allocated blocks is exact, event counts are the entries of the
  event queue and the statistics are sums of block sizes. A set of blocks taken out of the pools, and the events still
  to be counted, are parameters, so that the intermediate states of an operation satisfy it too.
\<close>

section \<open>Pools as ordered sets\<close>

definition bkey :: "Block \<Rightarrow> int \<times> nat \<times> nat \<times> nat" where
  "bkey b = (b_device b, b_stream b, b_size b, b_ptr b)"

lemma BlockComparator_key: "BlockComparator a b \<longleftrightarrow> bkey a < bkey b"
  by (auto simp: BlockComparator_def bkey_def)

definition sorted_pool :: "(nat \<rightharpoonup> Block) \<Rightarrow> nat list \<Rightarrow> bool" where
  "sorted_pool h xs \<longleftrightarrow> sorted_wrt (\<lambda>x y. bkey (blk h x) < bkey (blk h y)) xs"

lemma blk_Some [simp]: "h i = Some b \<Longrightarrow> blk h i = b"
  by (simp add: blk_def)

lemma sorted_pool_distinct: "sorted_pool h xs \<Longrightarrow> distinct xs"
  by (induction xs) (auto simp: sorted_pool_def)

lemma sorted_pool_cong:
  assumes "\<And>x. x \<in> set xs \<Longrightarrow> bkey (blk h' x) = bkey (blk h x)"
  shows "sorted_pool h' xs \<longleftrightarrow> sorted_pool h xs"
  using assms by (induction xs) (auto simp: sorted_pool_def)

lemma sorted_pool_filter: "sorted_pool h xs \<Longrightarrow> sorted_pool h (filter P xs)"
  by (simp add: sorted_pool_def sorted_wrt_filter)

lemma pool_insert_set:
  "\<forall>x\<in>set xs. bkey (blk h x) \<noteq> bkey (blk h i) \<Longrightarrow> set (pool_insert h i xs) = insert i (set xs)"
  by (induction xs) (auto simp: BlockComparator_key)

lemma pool_insert_sorted:
  "\<forall>x\<in>set xs. bkey (blk h x) \<noteq> bkey (blk h i) \<Longrightarrow> sorted_pool h xs \<Longrightarrow> sorted_pool h (pool_insert h i xs)"
proof (induction xs)
  case (Cons x xs)
  then have IH: "sorted_pool h (pool_insert h i xs)" by (simp add: sorted_pool_def)
  have s: "set (pool_insert h i xs) = insert i (set xs)" using Cons.prems(1) by (intro pool_insert_set) simp
  show ?case using Cons.prems IH s
    by (auto simp: sorted_pool_def BlockComparator_key)
qed (simp add: sorted_pool_def)

lemma pool_erase_filter:
  "\<forall>x\<in>set xs. x \<noteq> i \<longrightarrow> bkey (blk h x) \<noteq> bkey (blk h i) \<Longrightarrow> pool_erase h i xs = filter (\<lambda>x. x \<noteq> i) xs"
  unfolding pool_erase_def by (rule filter_cong) (auto simp: BlockComparator_key)

section \<open>The invariant\<close>

definition pool_ok :: "nat set \<Rightarrow> (nat \<rightharpoonup> Block) \<Rightarrow> PoolId \<Rightarrow> nat list \<Rightarrow> bool" where
  "pool_ok X h p xs \<longleftrightarrow> sorted_pool h xs \<and>
     set xs = {i. \<exists>b. h i = Some b \<and> isfree b \<and> b_pool b = Some p \<and> i \<notin> X}"

definition alloc_ok :: "(nat \<rightharpoonup> Block) \<Rightarrow> (nat \<rightharpoonup> nat) \<Rightarrow> bool" where
  "alloc_ok h A \<longleftrightarrow> (\<forall>p i. A p = Some i \<longleftrightarrow> (\<exists>b. h i = Some b \<and> b_allocated b \<and> b_ptr b = p))"

definition block_events :: "nat set \<Rightarrow> (nat \<times> nat) list \<Rightarrow> nat \<Rightarrow> Block \<Rightarrow> bool" where
  "block_events X E i b \<longleftrightarrow> b_event_count b = int (count_list (map snd E) i) \<and>
     (b_allocated b \<longrightarrow> b_event_count b = 0) \<and> (\<not> b_allocated b \<longrightarrow> i \<notin> X \<longrightarrow> b_stream_uses b = [])"

definition events_ok :: "nat set \<Rightarrow> (nat \<rightharpoonup> Block) \<Rightarrow> (nat \<times> nat) list \<Rightarrow> bool" where
  "events_ok X h E \<longleftrightarrow> snd ` set E \<subseteq> dom h \<and>
     (\<forall>i b. h i = Some b \<longrightarrow> block_events X E i b)"

definition weight :: "bool \<Rightarrow> int \<Rightarrow> Block \<Rightarrow> nat" where
  "weight a dev b = (if b_device b = dev \<and> (a \<longrightarrow> b_allocated b) then b_size b else 0)"

definition bytes :: "bool \<Rightarrow> int \<Rightarrow> (nat \<rightharpoonup> Block) \<Rightarrow> nat" where
  "bytes a dev h = (\<Sum>i\<in>dom h. weight a dev (blk h i))"

definition stats_ok :: "(nat \<rightharpoonup> Block) \<Rightarrow> DeviceStats list \<Rightarrow> bool" where
  "stats_ok h st \<longleftrightarrow> (\<forall>i b. h i = Some b \<longrightarrow> 0 \<le> b_device b \<and> nat (b_device b) < length st) \<and>
     (\<forall>d < length st. amount_allocated (st ! d) = bytes True (int d) h \<and>
        amount_cached (st ! d) = bytes False (int d) h \<and>
        amount_allocated (st ! d) \<le> max_amount_allocated (st ! d) \<and>
        amount_cached (st ! d) \<le> max_amount_cached (st ! d))"

definition alloc_wf :: "('d \<Rightarrow> (nat \<times> nat) set) \<Rightarrow> nat set \<Rightarrow> (nat \<times> nat) list \<Rightarrow> 'd THCCachingAllocator \<Rightarrow> bool" where
  "alloc_wf segs X E s \<longleftrightarrow> heap_ok (segs (driver s)) (heap s) \<and> coal_ok X (heap s) \<and>
     (\<forall>p. pool_ok X (heap s) p (pool_of p s)) \<and> alloc_ok (heap s) (allocated_blocks s) \<and> events_ok X (heap s) E \<and>
     (\<forall>i\<in>dom (heap s). i < fresh s) \<and> stats_ok (heap s) (device_stats s)"

definition allocator_inv :: "('d \<Rightarrow> (nat \<times> nat) set) \<Rightarrow> 'd THCCachingAllocator \<Rightarrow> bool" where
  "allocator_inv segs s \<longleftrightarrow> alloc_wf segs {} (cuda_events s) s"

lemma block_events_same_flags: "same_flags d d0 \<Longrightarrow> block_events X E i d = block_events X E i d0"
  by (simp add: block_events_def same_flags_def)

lemma events_okD: "events_ok X h E \<Longrightarrow> h i = Some b \<Longrightarrow> block_events X E i b"
  by (simp add: events_ok_def)

lemma alloc_wfD:
  assumes "alloc_wf segs X E s"
  shows "heap_ok (segs (driver s)) (heap s)" "coal_ok X (heap s)" "pool_ok X (heap s) p (pool_of p s)"
    "alloc_ok (heap s) (allocated_blocks s)" "events_ok X (heap s) E" "\<forall>i\<in>dom (heap s). i < fresh s"
    "stats_ok (heap s) (device_stats s)" "finite (dom (heap s))"
proof -
  show "finite (dom (heap s))" using assms
    by (intro finite_subset [OF _ finite_lessThan [of "fresh s"]]) (auto simp: alloc_wf_def)
qed (use assms in \<open>auto simp: alloc_wf_def\<close>)

lemma keys_distinct:
  assumes "heap_ok S h" "h i = Some b" "h j = Some c" "i \<noteq> j"
  shows "bkey b \<noteq> bkey c"
  using assms ptr_inj by (auto simp: bkey_def)

lemma pool_of_upd [simp]:
  "pool_of q (upd_pool p f s) = (if q = p then f (pool_of p s) else pool_of q s)"
  "heap (upd_pool p f s) = heap s" "driver (upd_pool p f s) = driver s" "cuda_events (upd_pool p f s) = cuda_events s"
  "allocated_blocks (upd_pool p f s) = allocated_blocks s" "fresh (upd_pool p f s) = fresh s"
  "device_stats (upd_pool p f s) = device_stats s"
  by (cases p; cases q; simp add: pool_of_def upd_pool_def)+

lemma pool_of_other [simp]:
  "pool_of p (s\<lparr>heap := h\<rparr>) = pool_of p s" "pool_of p (s\<lparr>driver := d\<rparr>) = pool_of p s"
  "pool_of p (s\<lparr>allocated_blocks := A\<rparr>) = pool_of p s" "pool_of p (s\<lparr>cuda_events := E\<rparr>) = pool_of p s"
  "pool_of p (s\<lparr>device_stats := st\<rparr>) = pool_of p s" "pool_of p (s\<lparr>fresh := n\<rparr>) = pool_of p s"
  by (cases p; simp add: pool_of_def)+

section \<open>Sums of sizes\<close>

lemma bytes_remove:
  assumes "finite (dom h)" "h i = Some b"
  shows "bytes a dev h = weight a dev b + bytes a dev (h(i := None))"
proof -
  have "bytes a dev h = weight a dev (blk h i) + (\<Sum>x\<in>dom h - {i}. weight a dev (blk h x))"
    unfolding bytes_def using assms by (intro sum.remove) auto
  also have "(\<Sum>x\<in>dom h - {i}. weight a dev (blk h x)) = bytes a dev (h(i := None))"
    unfolding bytes_def by (intro sum.cong) (auto simp: blk_def)
  finally show ?thesis using assms by simp
qed

lemma bytes_cong:
  assumes "\<And>x. rel_option (\<lambda>d d0. weight a dev d = weight a dev d0) (h' x) (h x)"
  shows "bytes a dev h' = bytes a dev h"
proof -
  have "dom h' = dom h" using assms by (auto simp: dom_def option_rel_Some1 option_rel_Some2 dest: spec)
    (metis assms option_rel_Some1 option_rel_Some2)+
  moreover have "weight a dev (blk h' x) = weight a dev (blk h x)" for x
    using assms [of x] by (cases "h' x"; cases "h x") (auto simp: blk_def)
  ultimately show ?thesis unfolding bytes_def by (intro sum.cong) auto
qed

lemma bytes_insert:
  assumes "finite (dom h)" "h i = None"
  shows "bytes a dev (h(i \<mapsto> b)) = weight a dev b + bytes a dev h"
proof -
  have "h(i \<mapsto> b, i := None) = h" using assms(2) by auto
  then show ?thesis using bytes_remove [of "h(i \<mapsto> b)" i b a dev] assms(1) by simp
qed

lemma bytes_update:
  assumes "finite (dom h)" "h i = Some b"
  shows "bytes a dev (h(i \<mapsto> d)) + weight a dev b = bytes a dev h + weight a dev d"
  using bytes_remove [OF assms] bytes_insert [of "h(i := None)" i a dev d] assms by simp

lemma bytes_le_total:
  assumes "finite (dom h)"
  shows "bytes a dev h \<le> (\<Sum>i\<in>dom h. b_size (blk h i))"
  unfolding bytes_def by (intro sum_mono) (simp add: weight_def)

text \<open>The ranges of the blocks are disjoint subsets of the address space, so no sum of sizes wraps around.\<close>

lemma bytes_less:
  assumes "heap_ok S h" "finite (dom h)"
  shows "bytes a dev h < 2 ^ 64"
proof -
  let ?R = "\<lambda>i. {b_ptr (blk h i) ..< b_ptr (blk h i) + b_size (blk h i)}"
  have H: "geometry_ok h" "disjoint_ok h" using assms(1) by (auto simp: heap_ok_def)
  have "(\<Sum>i\<in>dom h. b_size (blk h i)) = (\<Sum>i\<in>dom h. card (?R i))" by simp
  also have "\<dots> = card (\<Union>i\<in>dom h. ?R i)"
  proof (rule card_UN_disjoint [symmetric])
    show "\<forall>i\<in>dom h. \<forall>j\<in>dom h. i \<noteq> j \<longrightarrow> ?R i \<inter> ?R j = {}"
    proof (intro ballI impI)
      fix i j assume ij: "i \<in> dom h" "j \<in> dom h" "i \<noteq> j"
      then obtain b c where "h i = Some b" "h j = Some c" by auto
      with disjoint_okD [OF H(2) this ij(3)] show "?R i \<inter> ?R j = {}" by auto
    qed
  qed (use assms(2) in auto)
  also have "\<dots> \<le> card {1 ..< (2 :: nat) ^ 64}"
    using geometry_okD [OF H(1)] by (intro card_mono) (force simp: dom_def)+
  finally show ?thesis using bytes_le_total [OF assms(2), of a dev] by simp
qed

section \<open>Taking a block out of its pool and putting it back\<close>

lemma wf_upd_pool:
  assumes "alloc_wf segs X E s" "\<And>q. pool_ok Y (heap s) q (pool_of q (upd_pool p f s))" "coal_ok Y (heap s)"
    "events_ok Y (heap s) E"
  shows "alloc_wf segs Y E (upd_pool p f s)"
  using assms unfolding alloc_wf_def by simp

lemma events_ok_mono: "events_ok X h E \<Longrightarrow> X \<subseteq> Y \<Longrightarrow> events_ok Y h E"
  unfolding events_ok_def block_events_def by blast

lemma events_ok_single:
  assumes "events_ok {i} h E" "h i = Some b" "\<not> b_allocated b \<longrightarrow> b_stream_uses b = []"
  shows "events_ok {} h E"
  using assms unfolding events_ok_def block_events_def by (metis option.inject singletonD)

lemma remove1_filter: "distinct xs \<Longrightarrow> remove1 i xs = filter (\<lambda>x. x \<noteq> i) xs"
  by (simp add: distinct_remove1_removeAll removeAll_filter_not_eq) (metis (no_types, lifting))

lemma wf_detach:
  assumes "alloc_wf segs {} E s" "i \<in> set (pool_of p s)"
  shows "alloc_wf segs {i} E (upd_pool p (remove1 i) s)"
proof (rule wf_upd_pool [OF assms(1)])
  note W = alloc_wfD [OF assms(1)]
  from assms(2) W(3) obtain b where b: "heap s i = Some b" "b_pool b = Some p" unfolding pool_ok_def by fastforce
  show "coal_ok {i} (heap s)" using W(2) by (rule coal_weaken) simp
  show "events_ok {i} (heap s) E" using W(5) by (rule events_ok_mono) simp
  fix q
  have d: "distinct (pool_of p s)" using W(3) by (auto simp: pool_ok_def intro: sorted_pool_distinct)
  show "pool_ok {i} (heap s) q (pool_of q (upd_pool p (remove1 i) s))"
  proof (cases "q = p")
    case True
    have "remove1 i (pool_of p s) = filter (\<lambda>x. x \<noteq> i) (pool_of p s)" by (rule remove1_filter [OF d])
    then show ?thesis using True W(3) [of p] by (auto simp: pool_ok_def sorted_pool_filter)
  next
    case False
    then show ?thesis using W(3) [of q] b by (auto simp: pool_ok_def)
  qed
qed

lemma wf_attach:
  assumes "alloc_wf segs {i} E s" "heap s i = Some b" "isfree b" "b_pool b = Some p" "lonely (heap s) b" "b_stream_uses b = []"
  shows "alloc_wf segs {} E (upd_pool p (pool_insert (heap s) i) s)"
proof (rule wf_upd_pool [OF assms(1)])
  note W = alloc_wfD [OF assms(1)]
  show "coal_ok {} (heap s)" by (rule coal_lonely [OF W(1,2) assms(2,5)])
  show "events_ok {} (heap s) E" using events_ok_single [OF W(5) assms(2)] assms(6) by simp
  have ne: "\<forall>x\<in>set (pool_of p s). bkey (blk (heap s) x) \<noteq> bkey (blk (heap s) i)"
  proof
    fix x assume "x \<in> set (pool_of p s)"
    then obtain c where "heap s x = Some c" "x \<noteq> i" using W(3) [of p] by (auto simp: pool_ok_def)
    then show "bkey (blk (heap s) x) \<noteq> bkey (blk (heap s) i)" using keys_distinct [OF W(1) _ assms(2)] assms(2) by simp
  qed
  fix q
  show "pool_ok {} (heap s) q (pool_of q (upd_pool p (pool_insert (heap s) i) s))"
  proof (cases "q = p")
    case True
    then show ?thesis using W(3) [of p] assms(2-4) pool_insert_sorted [OF ne] pool_insert_set [OF ne]
      by (auto simp: pool_ok_def)
  next
    case False
    then have "x \<noteq> i" if "heap s x = Some c" "b_pool c = Some q" for x c using that assms(2,4) by auto
    with False show ?thesis using W(3) [of q] by (auto simp: pool_ok_def)
  qed
qed

lemma wf_not_free:
  assumes "alloc_wf segs {i} E s" "heap s i = Some b" "\<not> isfree b" "\<not> b_allocated b \<longrightarrow> b_stream_uses b = []"
  shows "alloc_wf segs {} E s"
proof -
  note W = alloc_wfD [OF assms(1)]
  have "coal_ok {} (heap s)" by (rule coal_not_free [OF W(2) assms(2,3)])
  moreover have "events_ok {} (heap s) E" using events_ok_single [OF W(5) assms(2,4)] by simp
  moreover have "pool_ok {} (heap s) p (pool_of p s)" for p using W(3) [of p] assms(2,3) by (auto simp: pool_ok_def)
  ultimately show ?thesis using assms(1) unfolding alloc_wf_def by blast
qed

section \<open>Absorbing a neighbour\<close>

definition same_block :: "Block \<Rightarrow> Block \<Rightarrow> bool" where
  "same_block d d0 \<longleftrightarrow> same_flags d d0 \<and> b_ptr d = b_ptr d0 \<and> b_size d = b_size d0"

lemma same_block_weight: "same_block d d0 \<Longrightarrow> weight a dev d = weight a dev d0"
  by (auto simp: same_block_def same_flags_def same_segment_def weight_def)

text \<open>\<open>h'\<close> is \<open>h\<close> after the free block \<open>i\<close> has absorbed the free block \<open>j\<close>.\<close>

definition absorbed :: "nat \<Rightarrow> nat \<Rightarrow> (nat \<rightharpoonup> Block) \<Rightarrow> (nat \<rightharpoonup> Block) \<Rightarrow> bool" where
  "absorbed i j h h' \<longleftrightarrow> i \<noteq> j \<and> h' j = None \<and>
     (\<exists>b c b'. h i = Some b \<and> h j = Some c \<and> h' i = Some b' \<and> isfree b \<and> isfree c \<and> same_segment b c \<and>
        same_flags b' b \<and> b_size b' = b_size b + b_size c) \<and>
     (\<forall>x. x \<noteq> i \<longrightarrow> x \<noteq> j \<longrightarrow> rel_option same_block (h' x) (h x))"

lemma absorbed_merge_next:
  assumes "heap_ok S h" "h i = Some b" "b_next b = Some j" "h j = Some c" "isfree b" "isfree c"
  shows "absorbed i j h (merge_next i b j c h)"
proof -
  have H: "geometry_ok h" "links_ok h" using assms(1) by (auto simp: heap_ok_def)
  note ne = merge_next_distinct [OF H assms(2-4)]
  have "rel_option same_block (merge_next i b j c h x) (h x)" if "x \<noteq> i" "x \<noteq> j" for x
    using that by (cases "h x") (auto simp: merge_next_def relink_prev_def same_block_def same_flags_def same_segment_def)
  moreover have "same_segment b c" using links_adjacent [OF H(2) assms(2,4,3)] by simp
  ultimately show ?thesis using assms ne
    by (auto simp: absorbed_def merge_next_def relink_prev_def same_flags_def same_segment_def)
qed

lemma absorbed_merge_prev:
  assumes "heap_ok S h" "h i = Some b" "b_prev b = Some j" "h j = Some c" "isfree b" "isfree c"
  shows "absorbed i j h (merge_prev i b j c h)"
proof -
  have H: "geometry_ok h" "links_ok h" using assms(1) by (auto simp: heap_ok_def)
  note ne = merge_prev_distinct [OF H assms(2-4)]
  have "rel_option same_block (merge_prev i b j c h x) (h x)" if "x \<noteq> i" "x \<noteq> j" for x
    using that by (cases "h x") (auto simp: merge_prev_def relink_next_def same_block_def same_flags_def same_segment_def)
  moreover have "same_segment b c" using links_adjacent [OF H(2) assms(4,2) ne(4)] by (simp add: same_segment_def)
  ultimately show ?thesis using assms ne
    by (auto simp: absorbed_def merge_prev_def relink_next_def same_flags_def same_segment_def)
qed

lemma absorbed_lookup:
  assumes "absorbed i j h h'" "h' x = Some d"
  obtains d0 where "h x = Some d0" "x \<noteq> j" "same_flags d d0" "x \<noteq> i \<Longrightarrow> same_block d d0" "x = i \<Longrightarrow> isfree d0"
proof (cases "x = i")
  case True
  then show thesis using assms that unfolding absorbed_def by fastforce
next
  case False
  moreover have "x \<noteq> j" using assms unfolding absorbed_def by auto
  moreover from calculation obtain d0 where "h x = Some d0" "same_block d d0"
    using assms unfolding absorbed_def by (metis option_rel_Some1)
  ultimately show thesis using that by (auto simp: same_block_def)
qed

lemma absorbed_live: "absorbed i j h h' \<Longrightarrow> h x = Some d0 \<Longrightarrow> x \<noteq> j \<Longrightarrow> \<exists>d. h' x = Some d"
  unfolding absorbed_def by (metis option_rel_Some2)

lemma absorbed_dom: "absorbed i j h h' \<Longrightarrow> dom h' = dom h - {j}"
  by (auto elim: absorbed_lookup dest: absorbed_live simp: dom_def)

lemma absorbed_bytes:
  assumes "absorbed i j h h'" "finite (dom h)"
  shows "bytes a dev h' = bytes a dev h"
proof -
  from assms(1) obtain b c b' where ij: "i \<noteq> j" "h' j = None" "h i = Some b" "h j = Some c" "h' i = Some b'"
    "isfree b" "isfree c" "same_segment b c" "same_flags b' b" "b_size b' = b_size b + b_size c"
    and other: "\<And>x. x \<noteq> i \<Longrightarrow> x \<noteq> j \<Longrightarrow> rel_option same_block (h' x) (h x)" unfolding absorbed_def by blast
  have w: "weight a dev b' = weight a dev b + weight a dev c"
    using ij by (auto simp: weight_def same_segment_def same_flags_def isfree_def)
  have "bytes a dev h = weight a dev b + (weight a dev c + bytes a dev (h(i := None, j := None)))"
    using bytes_remove [OF assms(2) ij(3)] bytes_remove [of "h(i := None)" j c a dev] ij assms(2) by simp
  moreover have "finite (dom h')" using absorbed_dom [OF assms(1)] assms(2) by simp
  then have "bytes a dev h' = weight a dev b' + bytes a dev (h'(i := None))" using ij(5) by (rule bytes_remove)
  moreover have "bytes a dev (h'(i := None)) = bytes a dev (h(i := None, j := None))"
  proof (rule bytes_cong)
    fix x
    show "rel_option (\<lambda>d d0. weight a dev d = weight a dev d0) ((h'(i := None)) x) ((h(i := None, j := None)) x)"
      using other [of x] ij(2) by (cases "h x"; cases "h' x") (auto simp: same_block_weight)
  qed
  ultimately show ?thesis using w by simp
qed

lemma wf_absorb:
  assumes "alloc_wf segs {i} E s" "absorbed i j (heap s) h'" "heap_ok (segs (driver s)) h'" "coal_ok {i} h'"
    "b_pool (blk (heap s) j) = Some p"
  shows "alloc_wf segs {i} E (upd_pool p (filter (\<lambda>x. x \<noteq> j)) (s\<lparr>heap := h'\<rparr>))"
proof -
  note W = alloc_wfD [OF assms(1)] and look = absorbed_lookup [OF assms(2)]
  from assms(2) obtain b c where ij: "heap s i = Some b" "heap s j = Some c" "isfree b" "isfree c" "i \<noteq> j" "h' j = None"
    unfolding absorbed_def by blast
  have key: "bkey (blk h' x) = bkey (blk (heap s) x)" if "x \<in> set (pool_of q s)" "x \<noteq> j" for x q
  proof -
    from that(1) W(3) [of q] obtain d0 where d0: "heap s x = Some d0" "x \<noteq> i" by (auto simp: pool_ok_def)
    with absorbed_live [OF assms(2) d0(1) that(2)] obtain d where d: "h' x = Some d" by auto
    then show ?thesis using d0 by (auto elim!: look simp: bkey_def same_block_def same_flags_def same_segment_def)
  qed
  have pools: "pool_ok {i} h' q (filter (\<lambda>x. x \<noteq> j) (pool_of q s))" for q
  proof -
    have "sorted_pool h' (filter (\<lambda>x. x \<noteq> j) (pool_of q s)) \<longleftrightarrow> sorted_pool (heap s) (filter (\<lambda>x. x \<noteq> j) (pool_of q s))"
      using key [of _ q] by (intro sorted_pool_cong) auto
    moreover have "(\<exists>d. h' x = Some d \<and> isfree d \<and> b_pool d = Some q \<and> x \<notin> {i}) \<longleftrightarrow>
        (\<exists>d. heap s x = Some d \<and> isfree d \<and> b_pool d = Some q \<and> x \<notin> {i}) \<and> x \<noteq> j" for x
    proof
      assume "\<exists>d. h' x = Some d \<and> isfree d \<and> b_pool d = Some q \<and> x \<notin> {i}"
      then show "(\<exists>d. heap s x = Some d \<and> isfree d \<and> b_pool d = Some q \<and> x \<notin> {i}) \<and> x \<noteq> j"
        by (auto elim!: look simp: same_flags_def same_segment_def isfree_def)
    next
      assume R: "(\<exists>d. heap s x = Some d \<and> isfree d \<and> b_pool d = Some q \<and> x \<notin> {i}) \<and> x \<noteq> j"
      then obtain d where "h' x = Some d" using absorbed_live [OF assms(2)] by blast
      with R show "\<exists>d. h' x = Some d \<and> isfree d \<and> b_pool d = Some q \<and> x \<notin> {i}"
        by (auto elim!: look simp: same_flags_def same_segment_def isfree_def)
    qed
    ultimately show ?thesis using W(3) [of q] by (auto simp: pool_ok_def sorted_pool_filter)
  qed
  have "j \<notin> set (pool_of q s)" if "q \<noteq> p" for q using W(3) [of q] assms(5) ij(2) that by (auto simp: pool_ok_def)
  then have "filter (\<lambda>x. x \<noteq> j) (pool_of q s) = pool_of q s" if "q \<noteq> p" for q
    using that by (intro filter_True) auto
  with pools have "pool_ok {i} h' q (pool_of q (upd_pool p (filter (\<lambda>x. x \<noteq> j)) (s\<lparr>heap := h'\<rparr>)))" for q
    by (cases "q = p") (auto, metis)
  moreover have "alloc_ok h' (allocated_blocks s)"
    unfolding alloc_ok_def
  proof (intro allI)
    fix a x
    have "(\<exists>d. h' x = Some d \<and> b_allocated d \<and> b_ptr d = a) \<longleftrightarrow>
        (\<exists>d. heap s x = Some d \<and> b_allocated d \<and> b_ptr d = a)" (is "?L \<longleftrightarrow> ?R")
    proof
      assume ?L then show ?R by (auto elim!: look simp: same_block_def same_flags_def isfree_def)
    next
      assume R: ?R
      then have x: "x \<noteq> i" "x \<noteq> j" using ij by (auto simp: isfree_def)
      then obtain d where "h' x = Some d" using R absorbed_live [OF assms(2)] by blast
      with R x show ?L by (auto elim!: look simp: same_block_def same_flags_def)
    qed
    with W(4) show "allocated_blocks s a = Some x \<longleftrightarrow> (\<exists>d. h' x = Some d \<and> b_allocated d \<and> b_ptr d = a)"
      by (simp add: alloc_ok_def)
  qed
  moreover have "events_ok {i} h' E"
  proof -
    have "count_list (map snd E) j = 0"
      using events_okD [OF W(5) ij(2)] ij(4) by (auto simp: block_events_def isfree_def)
    then have "snd ` set E \<subseteq> dom h'" using W(5) absorbed_dom [OF assms(2)] by (auto simp: events_ok_def count_list_0_iff)
    moreover have "block_events {i} E x d" if x: "h' x = Some d" for x d
      using x events_okD [OF W(5)] by (auto elim!: look simp: block_events_same_flags)
    ultimately show ?thesis unfolding events_ok_def by blast
  qed
  moreover have "\<forall>x\<in>dom h'. x < fresh s" using W(6) absorbed_dom [OF assms(2)] by auto
  moreover have "stats_ok h' (device_stats s)"
    using W(7) absorbed_bytes [OF assms(2) W(8)] unfolding stats_ok_def
    by (auto elim!: look simp: same_flags_def same_segment_def)
  ultimately show ?thesis using assms(3,4) unfolding alloc_wf_def by simp
qed

section \<open>Changing one block\<close>

lemma pool_ok_upd:
  assumes "pool_ok X h p xs" "X \<subseteq> {i}" "h i = Some b" "X = {} \<Longrightarrow> \<not> isfree b"
  shows "pool_ok {i} (h(i \<mapsto> d)) p xs"
proof -
  have S: "set xs = {x. \<exists>c. h x = Some c \<and> isfree c \<and> b_pool c = Some p \<and> x \<notin> X}" "sorted_pool h xs"
    using assms(1) by (auto simp: pool_ok_def)
  then have "i \<notin> set xs" using assms(2-4) by auto
  then have "bkey (blk (h(i \<mapsto> d)) x) = bkey (blk h x)" if "x \<in> set xs" for x
    using that by (cases "x = i") (auto simp: blk_def)
  then have "sorted_pool (h(i \<mapsto> d)) xs" using S(2) sorted_pool_cong by metis
  moreover have "set xs = {x. \<exists>c. (h(i \<mapsto> d)) x = Some c \<and> isfree c \<and> b_pool c = Some p \<and> x \<notin> {i}}"
    using S(1) \<open>i \<notin> set xs\<close> assms(2) by auto
  ultimately show ?thesis by (simp add: pool_ok_def)
qed

lemma wf_upd_block:
  assumes "alloc_wf segs X E s" "X \<subseteq> {i}" "heap s i = Some b" "same_geometry d b" "X = {} \<Longrightarrow> \<not> isfree b"
    and E': "\<forall>x. x \<noteq> i \<longrightarrow> count_list (map snd E') x = count_list (map snd E) x" "block_events {i} E' i d"
    and s': "heap s' = (heap s)(i \<mapsto> d)" "\<And>p. pool_of p s' = pool_of p s" "fresh s' = fresh s"
      "segs (driver s') = segs (driver s)" "alloc_ok (heap s') (allocated_blocks s')" "stats_ok (heap s') (device_stats s')"
  shows "alloc_wf segs {i} E' s'"
proof -
  note W = alloc_wfD [OF assms(1)]
  have "heap_ok (segs (driver s')) (heap s')" unfolding s' by (rule heap_same_geometry [OF W(1) assms(3,4)])
  moreover have "coal_ok {i} (heap s')"
    unfolding s' by (rule coal_same_next [OF coal_weaken [OF W(2) assms(2)] _ assms(3)]) simp
  moreover have "pool_ok {i} (heap s') p (pool_of p s')" for p
    unfolding s' by (rule pool_ok_upd [OF W(3) assms(2,3,5)])
  moreover have "events_ok {i} (heap s') E'"
    unfolding events_ok_def
  proof (intro conjI allI impI)
    show "snd ` set E' \<subseteq> dom (heap s')"
    proof
      fix x assume "x \<in> snd ` set E'"
      then have "count_list (map snd E') x \<noteq> 0" by (simp add: count_list_0_iff)
      then have "x = i \<or> x \<in> snd ` set E" using E'(1) by (metis count_list_0_iff list.set_map)
      then show "x \<in> dom (heap s')" using W(5) s'(1) by (auto simp: events_ok_def)
    qed
    fix x c assume "heap s' x = Some c"
    then show "block_events {i} E' x c"
      using E' events_okD [OF W(5), of x c] assms(2) by (auto simp: s'(1) block_events_def split: if_splits)
  qed
  moreover have "\<forall>x\<in>dom (heap s'). x < fresh s'" using W(6) assms(3) s' by auto
  ultimately show ?thesis using s' unfolding alloc_wf_def by blast
qed

lemma alloc_ok_same:
  assumes "alloc_ok h A" "h i = Some b" "b_ptr d = b_ptr b" "b_allocated d = b_allocated b"
  shows "alloc_ok (h(i \<mapsto> d)) A"
  using assms unfolding alloc_ok_def by auto

lemma alloc_ok_mark:
  assumes "alloc_ok h A" "heap_ok S h" "h i = Some b" "b_ptr d = b_ptr b" "b_allocated d"
  shows "alloc_ok (h(i \<mapsto> d)) (A(b_ptr b \<mapsto> i))"
  unfolding alloc_ok_def
proof (intro allI)
  fix p x
  have A: "A p = Some x \<longleftrightarrow> (\<exists>c. h x = Some c \<and> b_allocated c \<and> b_ptr c = p)" using assms(1) by (simp add: alloc_ok_def)
  have "p \<noteq> b_ptr b \<or> \<not> (\<exists>c. h x = Some c \<and> b_allocated c \<and> b_ptr c = p)" if "x \<noteq> i"
    using ptr_inj [OF assms(2) _ assms(3)] that by blast
  with A show "(A(b_ptr b \<mapsto> i)) p = Some x \<longleftrightarrow> (\<exists>c. (h(i \<mapsto> d)) x = Some c \<and> b_allocated c \<and> b_ptr c = p)"
    using assms(3-5) by (cases "p = b_ptr b"; cases "x = i") auto
qed

lemma alloc_ok_unmark:
  assumes "alloc_ok h A" "heap_ok S h" "h i = Some b" "b_ptr d = b_ptr b" "\<not> b_allocated d"
  shows "alloc_ok (h(i \<mapsto> d)) (A(b_ptr b := None))"
  unfolding alloc_ok_def
proof (intro allI)
  fix p x
  have A: "A p = Some x \<longleftrightarrow> (\<exists>c. h x = Some c \<and> b_allocated c \<and> b_ptr c = p)" using assms(1) by (simp add: alloc_ok_def)
  have "p \<noteq> b_ptr b \<or> \<not> (\<exists>c. h x = Some c \<and> b_allocated c \<and> b_ptr c = p)" if "x \<noteq> i"
    using ptr_inj [OF assms(2) _ assms(3)] that by blast
  with A show "(A(b_ptr b := None)) p = Some x \<longleftrightarrow> (\<exists>c. (h(i \<mapsto> d)) x = Some c \<and> b_allocated c \<and> b_ptr c = p)"
    using assms(3-5) by (cases "p = b_ptr b"; cases "x = i") auto
qed

lemma stats_ok_same:
  assumes "stats_ok h st" "finite (dom h)" "h i = Some b" "same_geometry d b" "b_allocated d = b_allocated b"
  shows "stats_ok (h(i \<mapsto> d)) st"
proof -
  have "weight a dev d = weight a dev b" for a dev
    using assms(4,5) by (auto simp: weight_def same_geometry_def same_segment_def)
  then have "bytes a dev (h(i \<mapsto> d)) = bytes a dev h" for a dev using bytes_update [OF assms(2,3), of a dev d] by simp
  then show ?thesis using assms(1,3,4) unfolding stats_ok_def by (auto simp: same_geometry_def same_segment_def)
qed

text \<open>The statistics follow when one of the sums of the block's device changes with the block.\<close>

lemma stats_ok_upd:
  assumes "stats_ok h st" "0 \<le> dev" "nat dev < length st"
    and dev: "\<And>i b. h' i = Some b \<Longrightarrow> 0 \<le> b_device b \<and> nat (b_device b) < length st"
    and other: "\<And>a d. d \<noteq> dev \<Longrightarrow> bytes a d h' = bytes a d h"
    and here: "amount_allocated st' = bytes True dev h'" "amount_cached st' = bytes False dev h'"
      "amount_allocated st' \<le> max_amount_allocated st'" "amount_cached st' \<le> max_amount_cached st'"
  shows "stats_ok h' (st[nat dev := st'])"
  unfolding stats_ok_def length_list_update
proof (intro conjI allI impI)
  fix d assume d: "d < length st"
  have old: "amount_allocated (st ! d) = bytes True (int d) h" "amount_cached (st ! d) = bytes False (int d) h"
    "amount_allocated (st ! d) \<le> max_amount_allocated (st ! d)" "amount_cached (st ! d) \<le> max_amount_cached (st ! d)"
    using assms(1) d by (auto simp: stats_ok_def)
  have "d = nat dev \<or> d \<noteq> nat dev \<and> int d \<noteq> dev" by auto
  with d old other [of "int d"] here assms(2)
  show "amount_allocated (st[nat dev := st'] ! d) = bytes True (int d) h'"
    "amount_cached (st[nat dev := st'] ! d) = bytes False (int d) h'"
    "amount_allocated (st[nat dev := st'] ! d) \<le> max_amount_allocated (st[nat dev := st'] ! d)"
    "amount_cached (st[nat dev := st'] ! d) \<le> max_amount_cached (st[nat dev := st'] ! d)" by auto
qed (use dev in auto)

lemma stats_okD:
  assumes "stats_ok h st" "h i = Some b"
  shows "0 \<le> b_device b" "nat (b_device b) < length st"
    "amount_allocated (st ! nat (b_device b)) = bytes True (b_device b) h"
    "amount_cached (st ! nat (b_device b)) = bytes False (b_device b) h"
    "amount_allocated (st ! nat (b_device b)) \<le> max_amount_allocated (st ! nat (b_device b))"
    "amount_cached (st ! nat (b_device b)) \<le> max_amount_cached (st ! nat (b_device b))"
proof -
  show d: "0 \<le> b_device b" "nat (b_device b) < length st" using assms by (auto simp: stats_ok_def)
  have "\<forall>d < length st. amount_allocated (st ! d) = bytes True (int d) h \<and>
        amount_cached (st ! d) = bytes False (int d) h \<and>
        amount_allocated (st ! d) \<le> max_amount_allocated (st ! d) \<and>
        amount_cached (st ! d) \<le> max_amount_cached (st ! d)" using assms(1) unfolding stats_ok_def by blast
  from this [rule_format, OF d(2)] d(1)
  show "amount_allocated (st ! nat (b_device b)) = bytes True (b_device b) h"
    "amount_cached (st ! nat (b_device b)) = bytes False (b_device b) h"
    "amount_allocated (st ! nat (b_device b)) \<le> max_amount_allocated (st ! nat (b_device b))"
    "amount_cached (st ! nat (b_device b)) \<le> max_amount_cached (st ! nat (b_device b))" by auto
qed

lemma stats_ok_mark:
  assumes "stats_ok h st" "heap_ok S h" "finite (dom h)" "h i = Some b" "\<not> b_allocated b" "same_geometry d b" "b_allocated d"
  shows "stats_ok (h(i \<mapsto> d)) (st[nat (b_device b) := increaseAllocated (b_size b) (st ! nat (b_device b))])"
proof -
  note old = stats_okD [OF assms(1,4)]
  have d: "b_device d = b_device b" "b_size d = b_size b" using assms(6) by (auto simp: same_geometry_def same_segment_def)
  have fin: "finite (dom (h(i \<mapsto> d)))" using assms(3) by simp
  note less = bytes_less [OF heap_same_geometry [OF assms(2,4,6)] fin, of True "b_device b"]
  have up: "bytes a x (h(i \<mapsto> d)) = bytes a x h + (if a \<and> x = b_device b then b_size b else 0)" for a x
    using bytes_update [OF assms(3,4), of a x d] d assms(5,7) by (auto simp: weight_def split: if_splits)
  have add: "add64 (bytes True (b_device b) h) (b_size b) = bytes True (b_device b) (h(i \<mapsto> d))"
    using less up [of True "b_device b"] by simp
  have "0 \<le> b_device c \<and> nat (b_device c) < length st" if "(h(i \<mapsto> d)) x = Some c" for x c
    using that old(1,2) d assms(1) by (auto simp: stats_ok_def split: if_splits)
  then show ?thesis
    by (rule stats_ok_upd [OF assms(1) old(1,2)]) (use old add up in \<open>auto simp: increaseAllocated_def Let_def\<close>)
qed

lemma stats_ok_unmark:
  assumes "stats_ok h st" "heap_ok S h" "finite (dom h)" "h i = Some b" "b_allocated b" "same_geometry d b" "\<not> b_allocated d"
  shows "stats_ok (h(i \<mapsto> d)) (st[nat (b_device b) := decreaseAllocated (b_size b) (st ! nat (b_device b))])"
proof -
  note old = stats_okD [OF assms(1,4)]
  have d: "b_device d = b_device b" "b_size d = b_size b" using assms(6) by (auto simp: same_geometry_def same_segment_def)
  have up: "bytes a x h = bytes a x (h(i \<mapsto> d)) + (if a \<and> x = b_device b then b_size b else 0)" for a x
    using bytes_update [OF assms(3,4), of a x d] d assms(5,7) by (auto simp: weight_def split: if_splits)
  have sub: "sub64 (bytes True (b_device b) h) (b_size b) = bytes True (b_device b) (h(i \<mapsto> d))"
    using bytes_less [OF assms(2,3), of True "b_device b"] up [of True "b_device b"] by simp
  have "0 \<le> b_device c \<and> nat (b_device c) < length st" if "(h(i \<mapsto> d)) x = Some c" for x c
    using that old(1,2) d assms(1) by (auto simp: stats_ok_def split: if_splits)
  then show ?thesis
    by (rule stats_ok_upd [OF assms(1) old(1,2)])
       (use old sub up [of True "b_device b"] up [of False "b_device b"] up in \<open>auto simp: decreaseAllocated_def\<close>)
qed

section \<open>Adding and removing segments\<close>

lemma bytes_no_device: "(\<And>i b. h i = Some b \<Longrightarrow> b_device b \<noteq> dev) \<Longrightarrow> bytes a dev h = 0"
  unfolding bytes_def by (intro sum.neutral ballI) (fastforce simp: weight_def)

lemma stats_ok_grow:
  assumes "stats_ok h st"
  shows "stats_ok h (st @ replicate n new_DeviceStats)"
  unfolding stats_ok_def
proof (intro conjI allI impI)
  fix i b assume "h i = Some b"
  then show "0 \<le> b_device b" "nat (b_device b) < length (st @ replicate n new_DeviceStats)"
    using stats_okD(1,2) [OF assms] by fastforce+
next
  fix d assume d: "d < length (st @ replicate n new_DeviceStats)"
  have zero: "bytes a (int d) h = 0" if "\<not> d < length st" for a
    using that stats_okD(2) [OF assms] by (intro bytes_no_device) fastforce
  show "amount_allocated ((st @ replicate n new_DeviceStats) ! d) = bytes True (int d) h"
    "amount_cached ((st @ replicate n new_DeviceStats) ! d) = bytes False (int d) h"
    "amount_allocated ((st @ replicate n new_DeviceStats) ! d) \<le> max_amount_allocated ((st @ replicate n new_DeviceStats) ! d)"
    "amount_cached ((st @ replicate n new_DeviceStats) ! d) \<le> max_amount_cached ((st @ replicate n new_DeviceStats) ! d)"
    using assms d zero by (cases "d < length st"; auto simp: stats_ok_def nth_append new_DeviceStats_def)+
qed

lemma wf_new_segment:
  assumes "alloc_wf (\<lambda>_. S) {} E s" "0 < p" "0 < sz" "p + sz \<le> 2 ^ 64" "\<forall>x\<in>S. p + sz \<le> fst x \<or> fst x + snd x \<le> p"
    and dev: "0 \<le> dev" "nat dev < length (device_stats s)" "segs (driver s') = insert (p, sz) S"
    and s': "heap s' = (heap s)(fresh s \<mapsto> new_Block dev str sz (Some pool) p)" "fresh s' = Suc (fresh s)"
      "\<And>p. pool_of p s' = pool_of p s" "allocated_blocks s' = allocated_blocks s"
      "device_stats s' = (device_stats s)[nat dev := increaseCached sz (device_stats s ! nat dev)]"
  shows "alloc_wf segs {fresh s} E s'"
proof -
  note W = alloc_wfD [OF assms(1)]
  let ?n = "fresh s" and ?b = "new_Block dev str sz (Some pool) p" and ?h = "heap s"
  have n: "?h ?n = None" using W(6) by (metis domIff less_irrefl)
  have H: "heap_ok (segs (driver s')) (heap s')"
    unfolding s' dev by (rule heap_new_segment [OF W(1) n assms(2-5)])
  have nb: "b_device ?b = dev" "b_size ?b = sz" "\<not> b_allocated ?b" "b_event_count ?b = 0" "b_next ?b = None" "b_stream_uses ?b = []"
    by (simp_all add: new_Block_def)
  have "pool_ok {?n} (heap s') q (pool_of q s')" for q
  proof -
    have "?n \<notin> set (pool_of q s)" using W(3) [of q] n by (auto simp: pool_ok_def)
    then have "sorted_pool (heap s') (pool_of q s) \<longleftrightarrow> sorted_pool ?h (pool_of q s)"
      unfolding s' by (intro sorted_pool_cong) (auto simp: blk_def)
    then show ?thesis using W(3) [of q] n unfolding s' pool_ok_def by auto
  qed
  moreover have "coal_ok {?n} (heap s')"
    using W(2) unfolding s' coal_ok_def by (auto split: if_splits)
  moreover have "alloc_ok (heap s') (allocated_blocks s')"
    using W(4) n nb(3) unfolding s' alloc_ok_def by auto
  moreover have "events_ok {?n} (heap s') E"
  proof -
    have "?n \<notin> snd ` set E" using W(5) n by (auto simp: events_ok_def)
    then have "count_list (map snd E) ?n = 0" by (simp add: count_list_0_iff)
    then have "block_events {?n} E ?n ?b" using nb by (simp add: block_events_def)
    moreover have "block_events {?n} E x d" if "heap s x = Some d" for x d
      using events_okD [OF W(5) that] unfolding block_events_def by blast
    ultimately show ?thesis using W(5) unfolding s' events_ok_def by auto
  qed
  moreover have "stats_ok (heap s') (device_stats s')"
  proof -
    have up: "bytes a x (heap s') = bytes a x ?h + (if \<not> a \<and> x = dev then sz else 0)" for a x
      using bytes_insert [OF W(8) n, of a x ?b] nb unfolding s' by (simp add: weight_def)
    have fin: "finite (dom (heap s'))" using W(8) by (simp add: s')
    have st: "amount_allocated (device_stats s ! nat dev) = bytes True dev ?h" "amount_cached (device_stats s ! nat dev) = bytes False dev ?h"
      "amount_allocated (device_stats s ! nat dev) \<le> max_amount_allocated (device_stats s ! nat dev)"
      using W(7) dev by (auto simp: stats_ok_def)
    have add: "add64 (bytes False dev ?h) sz = bytes False dev (heap s')"
      using bytes_less [OF H fin, of False dev] up [of False dev] by simp
    have "0 \<le> b_device c \<and> nat (b_device c) < length (device_stats s)" if "heap s' x = Some c" for x c
      using that dev W(7) nb unfolding s' by (auto simp: stats_ok_def split: if_splits)
    then show ?thesis unfolding s'(5)
      by (rule stats_ok_upd [OF W(7) dev(1,2)]) (use st add up in \<open>auto simp: increaseCached_def Let_def\<close>)
  qed
  moreover have "\<forall>x\<in>dom (heap s'). x < fresh s'"
    using W(6) unfolding s' by (auto simp: less_Suc_eq)
  ultimately show ?thesis using H unfolding alloc_wf_def by blast
qed

lemma wf_remove_unsplit:
  assumes "alloc_wf segs {} E s" "i \<in> set (pool_of p s)" "heap s i = Some b" "b_prev b = None" "b_next b = None"
    and s': "heap s' = (heap s)(i := None)" "fresh s' = fresh s" "allocated_blocks s' = allocated_blocks s"
      "\<And>q. pool_of q s' = (if q = p then remove1 i (pool_of q s) else pool_of q s)"
      "segs (driver s') = {x \<in> segs (driver s). fst x \<noteq> b_ptr b}"
      "device_stats s' = (device_stats s)[nat (b_device b) := decreaseCached (b_size b) (device_stats s ! nat (b_device b))]"
  shows "alloc_wf segs {} E s'"
proof -
  note W = alloc_wfD [OF assms(1)]
  have b: "isfree b" "b_pool b = Some p" using W(3) [of p] assms(2,3) by (auto simp: pool_ok_def)
  have H: "heap_ok (segs (driver s')) (heap s')" unfolding s' by (rule heap_remove_unsplit [OF W(1) assms(3-5)])
  have "pool_ok {} (heap s') q (pool_of q s')" for q
  proof -
    have d: "distinct (pool_of q s)" using W(3) by (auto simp: pool_ok_def intro: sorted_pool_distinct)
    have i: "i \<in> set (pool_of q s) \<longleftrightarrow> q = p" using W(3) [of q] assms(3) b by (auto simp: pool_ok_def)
    have f: "pool_of q s' = filter (\<lambda>x. x \<noteq> i) (pool_of q s)"
    proof (cases "q = p")
      case True
      then show ?thesis using remove1_filter [OF d, of i] by (simp add: s'(4))
    next
      case False
      then have "filter (\<lambda>x. x \<noteq> i) (pool_of q s) = pool_of q s" using i by (intro filter_True) auto
      with False show ?thesis by (simp add: s'(4))
    qed
    have "sorted_pool (heap s') (pool_of q s') \<longleftrightarrow> sorted_pool (heap s) (pool_of q s')"
      unfolding s'(1) by (rule sorted_pool_cong) (auto simp: f blk_def)
    then show ?thesis using W(3) [of q] by (auto simp: pool_ok_def f sorted_pool_filter s'(1))
  qed
  moreover have "coal_ok {} (heap s')" using W(2) unfolding s' coal_ok_def by (auto split: if_splits)
  moreover have "alloc_ok (heap s') (allocated_blocks s')"
    using W(4) assms(3) b(1) unfolding s' alloc_ok_def by (auto simp: isfree_def)
  moreover have "events_ok {} (heap s') E"
  proof -
    have "count_list (map snd E) i = 0" using events_okD [OF W(5) assms(3)] b(1) by (auto simp: block_events_def isfree_def)
    then show ?thesis using W(5) unfolding s' events_ok_def by (auto simp: count_list_0_iff)
  qed
  moreover have "stats_ok (heap s') (device_stats s')"
  proof -
    note old = stats_okD [OF W(7) assms(3)]
    have up: "bytes a x (heap s) = bytes a x (heap s') + (if \<not> a \<and> x = b_device b then b_size b else 0)" for a x
      using bytes_remove [OF W(8) assms(3), of a x] b(1) unfolding s' by (auto simp: weight_def isfree_def)
    have sub: "sub64 (bytes False (b_device b) (heap s)) (b_size b) = bytes False (b_device b) (heap s')"
      using bytes_less [OF W(1,8), of False "b_device b"] up [of False "b_device b"] by simp
    have "0 \<le> b_device c \<and> nat (b_device c) < length (device_stats s)" if "heap s' x = Some c" for x c
      using that W(7) unfolding s' by (auto simp: stats_ok_def split: if_splits)
    then show ?thesis unfolding s'(6)
      by (rule stats_ok_upd [OF W(7) old(1,2)])
         (use old sub up [of True "b_device b"] up [of False "b_device b"] up in \<open>auto simp: decreaseCached_def\<close>)
  qed
  moreover have "\<forall>x\<in>dom (heap s'). x < fresh s'" using W(6) unfolding s' by auto
  ultimately show ?thesis using H unfolding alloc_wf_def by blast
qed

section \<open>Splitting\<close>

lemma bytes_split:
  assumes "finite (dom h)" "h r = Some b" "h n = None" "sz \<le> b_size b" "\<not> b_allocated b" "b_prev b \<noteq> Some r"
  shows "bytes a dev (split_heap r b sz n h) = bytes a dev h"
proof -
  let ?r = "relink_next (b_prev b) n h"
  let ?n = "b\<lparr>b_size := sz, b_next := Some r\<rparr>" and ?b = "b\<lparr>b_prev := Some n, b_ptr := b_ptr b + sz, b_size := b_size b - sz\<rparr>"
  have rn: "r \<noteq> n" using assms(2,3) by auto
  have dom: "dom ?r = dom h" by (auto simp: relink_next_def split: if_splits)
  have "bytes a dev ?r = bytes a dev h"
  proof (rule bytes_cong)
    fix x show "rel_option (\<lambda>d d0. weight a dev d = weight a dev d0) (?r x) (h x)"
      by (cases "h x") (auto simp: relink_next_def weight_def)
  qed
  moreover have b: "?r r = Some b" using assms(2,6) by (simp add: relink_next_def)
  moreover have "?r n = None" using dom assms(3) by (metis domIff)
  then have "bytes a dev (?r(n \<mapsto> ?n)) = weight a dev ?n + bytes a dev ?r"
    using assms(1) dom by (intro bytes_insert) auto
  moreover have "bytes a dev (split_heap r b sz n h) + weight a dev b = bytes a dev (?r(n \<mapsto> ?n)) + weight a dev ?b"
    unfolding split_heap_def using b rn assms(1) dom by (intro bytes_update) auto
  ultimately show ?thesis using assms(4,5) by (auto simp: weight_def split: if_splits)
qed

lemma wf_split:
  assumes "alloc_wf segs {r} E s" "heap s r = Some b" "isfree b" "b_pool b = Some p" "lonely (heap s) b" "b_stream_uses b = []"
    "0 < sz" "sz < b_size b"
    and s': "heap s' = split_heap r b sz (fresh s) (heap s)" "fresh s' = Suc (fresh s)"
      "\<And>q. pool_of q s' = (if q = p then pool_insert (heap s') r (pool_of q s) else pool_of q s)"
      "allocated_blocks s' = allocated_blocks s" "device_stats s' = device_stats s" "segs (driver s') = segs (driver s)"
  shows "alloc_wf segs {fresh s} E s'"
proof -
  note W = alloc_wfD [OF assms(1)]
  let ?n = "fresh s" and ?h = "heap s"
  have n: "?h ?n = None" using W(6) by (metis domIff less_irrefl)
  have rn: "r \<noteq> ?n" using n assms(2) by auto
  have self: "b_prev b \<noteq> Some r" using no_self_link [of "heap s" r b] assms(2) W(1) by (auto simp: heap_ok_def)
  have H: "heap_ok (segs (driver s')) (heap s')" unfolding s' by (rule heap_split [OF W(1) assms(2) n assms(7,8)])
  have look: "x = ?n \<and> d = b\<lparr>b_size := sz, b_next := Some r\<rparr> \<or>
      x \<noteq> ?n \<and> (\<exists>d0. ?h x = Some d0 \<and> same_flags d d0 \<and> (x \<noteq> r \<longrightarrow> same_block d d0))" if "heap s' x = Some d" for x d
    using that unfolding s'(1)
    by (rule split_lookup [OF _ assms(2) n self]) (auto simp: same_block_def)
  have live: "heap s' x \<noteq> None" if "?h x \<noteq> None" for x
    using that split_live [of r b sz ?n ?h x] unfolding s' by auto
  have coal: "coal_ok {?n} (heap s')" unfolding s' by (rule coal_split [OF W(1,2) assms(2) n assms(5)])
  have nfree: "isfree (b\<lparr>b_size := sz, b_next := Some r\<rparr>)" using assms(3) by (simp add: isfree_def)
  have mem: "(\<exists>d. heap s' x = Some d \<and> isfree d \<and> b_pool d = Some q \<and> x \<notin> {?n}) \<longleftrightarrow>
      (\<exists>d. ?h x = Some d \<and> isfree d \<and> b_pool d = Some q)" for x q
  proof
    assume "\<exists>d. heap s' x = Some d \<and> isfree d \<and> b_pool d = Some q \<and> x \<notin> {?n}"
    then show "\<exists>d. ?h x = Some d \<and> isfree d \<and> b_pool d = Some q"
      using look [of x] by (auto simp: same_flags_def same_segment_def isfree_def)
  next
    assume R: "\<exists>d. ?h x = Some d \<and> isfree d \<and> b_pool d = Some q"
    then have "x \<noteq> ?n" using n by auto
    moreover obtain d where "heap s' x = Some d" using R live [of x] by auto
    ultimately show "\<exists>d. heap s' x = Some d \<and> isfree d \<and> b_pool d = Some q \<and> x \<notin> {?n}" using R
      using look [of x d] by (auto simp: same_flags_def same_segment_def isfree_def)
  qed
  have P: "sorted_pool ?h (pool_of q s)" "set (pool_of q s) = {x. \<exists>d. ?h x = Some d \<and> isfree d \<and> b_pool d = Some q} - {r}" for q
    using W(3) [of q] by (auto simp: pool_ok_def)
  have key: "bkey (blk (heap s') x) = bkey (blk ?h x)" "x \<noteq> r" "x \<noteq> ?n" "heap s' x \<noteq> None" if "x \<in> set (pool_of q s)" for x q
  proof -
    from that P(2) [of q] obtain d0 where d0: "?h x = Some d0" "x \<noteq> r" by auto
    then obtain d where d: "heap s' x = Some d" using live [of x] by auto
    show "x \<noteq> r" "x \<noteq> ?n" "heap s' x \<noteq> None" using d0 d n by auto
    then show "bkey (blk (heap s') x) = bkey (blk ?h x)"
      using look [OF d] d0 d by (auto simp: same_block_def same_flags_def same_segment_def bkey_def)
  qed
  obtain br where br: "heap s' r = Some br" using live assms(2) by fastforce
  have "\<forall>x\<in>set (pool_of p s). bkey (blk (heap s') x) \<noteq> bkey (blk (heap s') r)"
  proof
    fix x assume x: "x \<in> set (pool_of p s)"
    then obtain c where "heap s' x = Some c" using key(4) by blast
    then show "bkey (blk (heap s') x) \<noteq> bkey (blk (heap s') r)"
      using keys_distinct [OF H _ br, of x c] key(2) [OF x] br by simp
  qed
  note ins = pool_insert_set [OF this] pool_insert_sorted [OF this]
  have "pool_ok {?n} (heap s') q (pool_of q s')" for q
  proof (cases "q = p")
    case True
    have "sorted_pool (heap s') (pool_of p s)" using P(1) [of p] sorted_pool_cong [OF key(1)] by simp
    then show ?thesis using True ins P(2) [of p] mem [of _ p] assms(2-4) unfolding pool_ok_def s'(3) by auto
  next
    case False
    then have "sorted_pool (heap s') (pool_of q s)" using P(1) [of q] sorted_pool_cong [OF key(1)] by simp
    then show ?thesis using False P(2) [of q] mem [of _ q] assms(2,4) unfolding pool_ok_def s'(3) by auto
  qed
  moreover have "alloc_ok (heap s') (allocated_blocks s')"
  proof -
    have "(\<exists>d. heap s' x = Some d \<and> b_allocated d \<and> b_ptr d = a) \<longleftrightarrow> (\<exists>d. ?h x = Some d \<and> b_allocated d \<and> b_ptr d = a)" for x a
    proof
      assume "\<exists>d. heap s' x = Some d \<and> b_allocated d \<and> b_ptr d = a"
      then show "\<exists>d. ?h x = Some d \<and> b_allocated d \<and> b_ptr d = a"
        using look [of x] assms(2,3) by (auto simp: same_block_def same_flags_def isfree_def)
    next
      assume R: "\<exists>d. ?h x = Some d \<and> b_allocated d \<and> b_ptr d = a"
      then have "x \<noteq> ?n" "x \<noteq> r" using n assms(2,3) by (auto simp: isfree_def)
      moreover obtain d where "heap s' x = Some d" using R live [of x] by auto
      ultimately show "\<exists>d. heap s' x = Some d \<and> b_allocated d \<and> b_ptr d = a" using R
        using look [of x d] by (auto simp: same_block_def same_flags_def)
    qed
    with W(4) show ?thesis unfolding s'(4) alloc_ok_def by simp
  qed
  moreover have "events_ok {?n} (heap s') E"
  proof -
    have nE: "?n \<notin> snd ` set E" using W(5) n by (auto simp: events_ok_def)
    then have "count_list (map snd E) ?n = 0" by (simp add: count_list_0_iff)
    then have "block_events {?n} E ?n (b\<lparr>b_size := sz, b_next := Some r\<rparr>)"
      using assms(3) by (simp add: block_events_def isfree_def)
    moreover have "block_events {?n} E x d0" if "?h x = Some d0" "x \<noteq> ?n" for x d0
      using events_okD [OF W(5) that(1)] assms(2,6) that by (cases "x = r") (auto simp: block_events_def)
    moreover have "snd ` set E \<subseteq> dom (heap s')" using W(5) live by (fastforce simp: events_ok_def)
    ultimately show ?thesis using look unfolding events_ok_def by (auto simp: block_events_same_flags dest!: look)
  qed
  moreover have "stats_ok (heap s') (device_stats s')"
  proof -
    have "bytes a x (heap s') = bytes a x ?h" for a x
      unfolding s'(1) using assms(3,8) self by (intro bytes_split [OF W(8) assms(2) n]) (auto simp: isfree_def)
    moreover have "0 \<le> b_device d \<and> nat (b_device d) < length (device_stats s)" if "heap s' x = Some d" for x d
      using look [OF that] stats_okD(1,2) [OF W(7)] assms(2) by (auto simp: same_flags_def same_segment_def)
    ultimately show ?thesis using W(7) unfolding stats_ok_def s'(5) by auto
  qed
  moreover have "\<forall>x\<in>dom (heap s'). x < fresh s'"
  proof
    fix x assume "x \<in> dom (heap s')"
    then obtain d where "heap s' x = Some d" by auto
    from look [OF this] have "x = ?n \<or> x \<in> dom ?h" by auto
    then show "x < fresh s'" using W(6) unfolding s'(2) by (auto simp: less_Suc_eq)
  qed
  ultimately show ?thesis using H coal unfolding alloc_wf_def by blast
qed

end
