(* ===== verification/Allocator_Safety.thy ===== *)
theory Allocator_Safety
  imports Allocator_Invariant
begin

text \<open>
  Every operation of the caching allocator keeps the invariant, under the documented behaviour of the CUDA runtime, and
  refines an abstract allocator: a finite map from addresses to sizes, devices and streams.
\<close>

section \<open>The abstract allocator\<close>

definition allocs :: "'d THCCachingAllocator \<Rightarrow> nat \<Rightarrow> (nat \<times> int \<times> nat) option" where
  "allocs s p = map_option (\<lambda>i. (b_size (blk (heap s) i), b_device (blk (heap s) i), b_stream (blk (heap s) i)))
     (allocated_blocks s p)"

definition same_frame :: "'d THCCachingAllocator \<Rightarrow> 'd THCCachingAllocator \<Rightarrow> bool" where
  "same_frame s t \<longleftrightarrow> cuda_events t = cuda_events s \<and> driver t = driver s \<and> fresh t = fresh s \<and>
     device_stats t = device_stats s \<and> allocs t = allocs s"

lemma same_frame_refl [simp]: "same_frame s s"
  by (simp add: same_frame_def)

lemma same_frame_trans: "same_frame s t \<Longrightarrow> same_frame t u \<Longrightarrow> same_frame s u"
  by (simp add: same_frame_def)

section \<open>Running the primitives\<close>

lemma deref_run [simp]: "heap s i = Some b \<Longrightarrow> deref i s = (Inr b, s)"
  by (simp add: deref_def)

lemma upd_block_run [simp]: "heap s i = Some b \<Longrightarrow> upd_block i f s = (Inr (), s\<lparr>heap := (heap s)(i \<mapsto> f b)\<rparr>)"
  by (simp add: upd_block_def)

lemma relink_next_run:
  assumes "\<And>j. k = Some j \<Longrightarrow> heap s j \<noteq> None"
  shows "(case k of None \<Rightarrow> ret () | Some j \<Rightarrow> upd_block j (\<lambda>b. b\<lparr>b_next := Some v\<rparr>)) s =
    (Inr (), s\<lparr>heap := relink_next k v (heap s)\<rparr>)"
  using assms by (cases k) (auto simp: relink_next_def fun_eq_iff)

lemma relink_prev_run:
  assumes "\<And>j. k = Some j \<Longrightarrow> heap s j \<noteq> None"
  shows "(case k of None \<Rightarrow> ret () | Some j \<Rightarrow> upd_block j (\<lambda>b. b\<lparr>b_prev := Some v\<rparr>)) s =
    (Inr (), s\<lparr>heap := relink_prev k v (heap s)\<rparr>)"
  using assms by (cases k) (auto simp: relink_prev_def fun_eq_iff)

lemma relink_next_upd: "k \<noteq> Some i \<Longrightarrow> (relink_next k v h)(i \<mapsto> y) = relink_next k v (h(i \<mapsto> y))"
  by (auto simp: relink_next_def fun_eq_iff)

lemma relink_prev_upd: "k \<noteq> Some i \<Longrightarrow> (relink_prev k v h)(i \<mapsto> y) = relink_prev k v (h(i \<mapsto> y))"
  by (auto simp: relink_prev_def fun_eq_iff)

lemma relink_other [simp]: "k \<noteq> Some i \<Longrightarrow> relink_next k v h i = h i" "k \<noteq> Some i \<Longrightarrow> relink_prev k v h i = h i"
  by (auto simp: relink_next_def relink_prev_def)

lemmas run_defs = bindm_def seqm_def

lemma upd_pool_heap: "upd_pool p f (s\<lparr>heap := h\<rparr>) = (upd_pool p f s)\<lparr>heap := h\<rparr>"
  by (cases p) (simp_all add: upd_pool_def)

lemma upd_pool_cong: "f (pool_of p s) = g (pool_of p s) \<Longrightarrow> upd_pool p f s = upd_pool p g s"
  by (cases p) (simp_all add: upd_pool_def pool_of_def)

lemma erase_run:
  assumes "alloc_wf segs {i} E s" "heap s j = Some c" "bkey (blk h j) = bkey c"
    "\<And>x. x \<in> set (pool_of p s) \<Longrightarrow> x \<noteq> j \<Longrightarrow> bkey (blk h x) = bkey (blk (heap s) x)"
  shows "pool_erase h j (pool_of p s) = filter (\<lambda>x. x \<noteq> j) (pool_of p s)"
proof (rule pool_erase_filter, intro ballI impI)
  fix x assume x: "x \<in> set (pool_of p s)" "x \<noteq> j"
  then obtain d where d: "heap s x = Some d" using alloc_wfD(3) [OF assms(1), of p] by (auto simp: pool_ok_def)
  from keys_distinct [OF alloc_wfD(1) [OF assms(1)] d assms(2) x(2)] assms(3,4) x d
  show "bkey (blk h x) \<noteq> bkey (blk h j)" by simp
qed

lemma allocs_absorbed:
  assumes "alloc_wf segs {i} E s" "absorbed i j (heap s) (heap t)" "allocated_blocks t = allocated_blocks s"
  shows "allocs t = allocs s"
proof
  fix p
  show "allocs t p = allocs s p"
  proof (cases "allocated_blocks s p")
    case None
    then show ?thesis by (simp add: allocs_def assms(3))
  next
    case (Some x)
    then obtain d0 where d0: "heap s x = Some d0" "b_allocated d0" using alloc_wfD(4) [OF assms(1)] by (auto simp: alloc_ok_def)
    have x: "x \<noteq> i" "x \<noteq> j" using assms(2) d0 by (auto simp: absorbed_def isfree_def)
    then obtain d where d: "heap t x = Some d" using absorbed_live [OF assms(2) d0(1)] by blast
    with x d0 absorbed_lookup [OF assms(2) d] have "same_block d d0" by (metis option.inject)
    with d d0 Some assms(3) show ?thesis by (simp add: allocs_def same_block_def same_flags_def same_segment_def)
  qed
qed

section \<open>Merging\<close>

definition prev_busy :: "(nat \<rightharpoonup> Block) \<Rightarrow> Block \<Rightarrow> bool" where
  "prev_busy h b \<longleftrightarrow> (\<forall>j c. b_prev b = Some j \<longrightarrow> h j = Some c \<longrightarrow> \<not> isfree c)"

definition next_busy :: "(nat \<rightharpoonup> Block) \<Rightarrow> Block \<Rightarrow> bool" where
  "next_busy h b \<longleftrightarrow> (\<forall>j c. b_next b = Some j \<longrightarrow> h j = Some c \<longrightarrow> \<not> isfree c)"

lemma lonely_busy: "lonely h b \<longleftrightarrow> prev_busy h b \<and> next_busy h b"
  by (auto simp: lonely_def prev_busy_def next_busy_def)

lemma event_count_free:
  assumes "events_ok X h E" "h j = Some c"
  shows "b_allocated c \<or> 0 < b_event_count c \<longleftrightarrow> \<not> isfree c"
  using events_okD [OF assms] by (auto simp: block_events_def isfree_def)

lemma try_merge_prev:
  assumes "alloc_wf segs {i} E s" "heap s i = Some b" "isfree b" "b_pool b = Some p"
  shows "\<exists>t b'. try_merge_blocks i (b_prev b) p s = (Inr (), t) \<and> alloc_wf segs {i} E t \<and> same_frame s t \<and>
    heap t i = Some b' \<and> same_flags b' b \<and> prev_busy (heap t) b'"
proof (cases "b_prev b")
  case None
  then show ?thesis using assms by (auto simp: try_merge_blocks_def prev_busy_def same_flags_def same_segment_def)
next
  case (Some j)
  note W = alloc_wfD [OF assms(1)]
  have L: "geometry_ok (heap s)" "links_ok (heap s)" using W(1) by (auto simp: heap_ok_def)
  from links_prev [OF L(2) assms(2) Some] obtain c where c: "heap s j = Some c" "b_next c = Some i"
    "b_ptr b = b_ptr c + b_size c" "same_segment c b" .
  show ?thesis
  proof (cases "isfree c")
    case False
    then have "b_allocated c \<or> 0 < b_event_count c" using event_count_free [OF W(5) c(1)] by simp
    then show ?thesis using Some c False assms
      by (auto simp: try_merge_blocks_def prev_busy_def same_flags_def same_segment_def)
  next
    case True
    note ne = merge_prev_distinct [OF L assms(2) Some c(1)]
    let ?h = "merge_prev i b j c (heap s)"
    let ?m = "relink_next (b_prev c) i ((heap s)(i \<mapsto> b\<lparr>b_ptr := b_ptr c, b_prev := b_prev c, b_size := b_size b + b_size c\<rparr>))"
    have free: "\<not> (b_allocated c \<or> 0 < b_event_count c)" using event_count_free [OF W(5) c(1)] True by simp
    have live: "heap s k \<noteq> None" if "b_prev c = Some k" for k using links_live [OF L(2) c(1), of k] that by auto
    have sz: "b_size b + b_size c < 2 ^ 64" using geometry_okD [OF L(1) assms(2)] geometry_okD [OF L(1) c(1)] c(3) by simp
    have p: "b_pool c = Some p" using c(4) assms(4) by (simp add: same_segment_def)
    have erase: "pool_erase ?m j (pool_of p s) = filter (\<lambda>x. x \<noteq> j) (pool_of p s)"
    proof (rule erase_run [OF assms(1) c(1)])
      show "bkey (blk ?m j) = bkey c" using c(1) ne by (simp add: blk_def relink_next_def)
      fix x assume "x \<in> set (pool_of p s)"
      then have "x \<noteq> i" using W(3) [of p] by (auto simp: pool_ok_def)
      then show "bkey (blk ?m x) = bkey (blk (heap s) x)" by (cases "heap s x") (auto simp: blk_def relink_next_def bkey_def)
    qed
    let ?t = "upd_pool p (filter (\<lambda>x. x \<noteq> j)) (s\<lparr>heap := ?h\<rparr>)"
    have run: "try_merge_blocks i (b_prev b) p s = (Inr (), ?t)"
    proof -
      have "upd_pool p (pool_erase ?m j) (s\<lparr>heap := ?m\<rparr>) = upd_pool p (filter (\<lambda>x. x \<noteq> j)) (s\<lparr>heap := ?m\<rparr>)"
        using erase by (intro upd_pool_cong) simp
      then show ?thesis
        using Some c(1) assms(2) free live ne sz
        by (simp add: try_merge_blocks_def run_defs relink_next_run relink_next_upd erase_from_pool_def delete_block_def
            merge_prev_def upd_pool_heap)
    qed
    have H: "heap_ok (segs (driver s)) ?h" by (rule heap_merge_prev [OF W(1) assms(2) Some c(1)])
    have A: "absorbed i j (heap s) ?h" by (rule absorbed_merge_prev [OF W(1) assms(2) Some c(1) assms(3) True])
    have C: "coal_ok {i} ?h" by (rule coal_merge_prev [OF W(1,2) assms(2) Some c(1)])
    have "alloc_wf segs {i} E ?t" using c(1) p by (intro wf_absorb [OF assms(1) A H C]) simp
    moreover have "same_frame s ?t"
      using allocs_absorbed [OF assms(1), of j ?t] A by (simp add: same_frame_def)
    moreover obtain b' where b': "?h i = Some b'" "b_prev b' = b_prev c" "same_flags b' b"
      using ne by (auto simp: merge_prev_def relink_next_def same_flags_def same_segment_def)
    moreover have "prev_busy (heap ?t) b'"
      unfolding prev_busy_def
    proof (intro allI impI)
      fix k d assume k: "b_prev b' = Some k" "heap ?t k = Some d"
      from merge_prev_lookup [OF k(2) [simplified] assms(2) ne(2,1)] obtain d0 where d0: "heap s k = Some d0" "same_flags d d0" "k \<noteq> j"
        by blast
      have "b_next d0 = Some j" using links_iff [OF L(2) d0(1) c(1)] k(1) b'(2) by simp
      moreover have "k \<noteq> i" using k(1) b'(2) ne(2) by auto
      ultimately show "\<not> isfree d" using coal_okD [OF W(2) d0(1) _ c(1)] True ne(1) isfree_same_flags [OF d0(2)] by auto
    qed
    ultimately show ?thesis using run by auto
  qed
qed

lemma try_merge_next:
  assumes "alloc_wf segs {i} E s" "heap s i = Some b" "isfree b" "b_pool b = Some p" "prev_busy (heap s) b"
  shows "\<exists>t b'. try_merge_blocks i (b_next b) p s = (Inr (), t) \<and> alloc_wf segs {i} E t \<and> same_frame s t \<and>
    heap t i = Some b' \<and> same_flags b' b \<and> lonely (heap t) b'"
proof (cases "b_next b")
  case None
  then show ?thesis using assms
    by (auto simp: try_merge_blocks_def lonely_busy next_busy_def same_flags_def same_segment_def)
next
  case (Some j)
  note W = alloc_wfD [OF assms(1)]
  have L: "geometry_ok (heap s)" "links_ok (heap s)" using W(1) by (auto simp: heap_ok_def)
  from links_next [OF L(2) assms(2) Some] obtain c where c: "heap s j = Some c" "b_prev c = Some i"
    "b_ptr c = b_ptr b + b_size b" "same_segment b c" .
  show ?thesis
  proof (cases "isfree c")
    case False
    then have "b_allocated c \<or> 0 < b_event_count c" using event_count_free [OF W(5) c(1)] by simp
    then show ?thesis using Some c False assms
      by (auto simp: try_merge_blocks_def lonely_busy next_busy_def same_flags_def same_segment_def)
  next
    case True
    note ne = merge_next_distinct [OF L assms(2) Some c(1)]
    have pj: "b_prev b \<noteq> Some j" using links_iff [OF L(2) c(1) assms(2)] ne(2) by simp
    let ?h = "merge_next i b j c (heap s)"
    let ?m = "relink_prev (b_next c) i ((heap s)(i \<mapsto> b\<lparr>b_next := b_next c, b_size := b_size b + b_size c\<rparr>))"
    have free: "\<not> (b_allocated c \<or> 0 < b_event_count c)" using event_count_free [OF W(5) c(1)] True by simp
    have live: "heap s k \<noteq> None" if "b_next c = Some k" for k using links_live [OF L(2) c(1), of k] that by auto
    have sz: "b_size b + b_size c < 2 ^ 64" using geometry_okD [OF L(1) assms(2)] geometry_okD [OF L(1) c(1)] c(3) by simp
    have p: "b_pool c = Some p" using c(4) assms(4) by (simp add: same_segment_def)
    have erase: "pool_erase ?m j (pool_of p s) = filter (\<lambda>x. x \<noteq> j) (pool_of p s)"
    proof (rule erase_run [OF assms(1) c(1)])
      show "bkey (blk ?m j) = bkey c" using c(1) ne by (simp add: blk_def relink_prev_def)
      fix x assume "x \<in> set (pool_of p s)"
      then have "x \<noteq> i" using W(3) [of p] by (auto simp: pool_ok_def)
      then show "bkey (blk ?m x) = bkey (blk (heap s) x)" by (cases "heap s x") (auto simp: blk_def relink_prev_def bkey_def)
    qed
    let ?t = "upd_pool p (filter (\<lambda>x. x \<noteq> j)) (s\<lparr>heap := ?h\<rparr>)"
    have run: "try_merge_blocks i (b_next b) p s = (Inr (), ?t)"
    proof -
      have "upd_pool p (pool_erase ?m j) (s\<lparr>heap := ?m\<rparr>) = upd_pool p (filter (\<lambda>x. x \<noteq> j)) (s\<lparr>heap := ?m\<rparr>)"
        using erase by (intro upd_pool_cong) simp
      then show ?thesis
        using Some c(1) assms(2) free live ne sz pj
        by (simp add: try_merge_blocks_def run_defs relink_prev_run relink_prev_upd erase_from_pool_def delete_block_def
            merge_next_def upd_pool_heap)
    qed
    have H: "heap_ok (segs (driver s)) ?h" by (rule heap_merge_next [OF W(1) assms(2) Some c(1)])
    have A: "absorbed i j (heap s) ?h" by (rule absorbed_merge_next [OF W(1) assms(2) Some c(1) assms(3) True])
    have C: "coal_ok {i} ?h" by (rule coal_merge_next [OF W(1,2) assms(2) Some c(1)])
    have "alloc_wf segs {i} E ?t" using c(1) p by (intro wf_absorb [OF assms(1) A H C]) simp
    moreover have "same_frame s ?t"
      using allocs_absorbed [OF assms(1), of j ?t] A by (simp add: same_frame_def)
    moreover obtain b' where b': "?h i = Some b'" "b_next b' = b_next c" "b_prev b' = b_prev b" "same_flags b' b"
      using ne by (auto simp: merge_next_def relink_prev_def same_flags_def same_segment_def)
    moreover have "\<not> isfree d" if "b_prev b' = Some k" "heap ?t k = Some d" for k d
    proof -
      from that(2) have k: "?h k = Some d" by simp
      from merge_next_lookup [OF k assms(2) ne(2,1)] obtain d0 where "heap s k = Some d0" "same_flags d d0" by blast
      then show ?thesis using assms(5) that(1) b'(3) isfree_same_flags by (auto simp: prev_busy_def)
    qed
    moreover have "\<not> isfree d" if "b_next b' = Some k" "heap ?t k = Some d" for k d
    proof -
      from that(2) have k: "?h k = Some d" by simp
      from merge_next_lookup [OF k assms(2) ne(2,1)] obtain d0 where d0: "heap s k = Some d0" "same_flags d d0" by blast
      have "k \<noteq> i" using that(1) b'(2) ne(2) by auto
      then show ?thesis using coal_okD [OF W(2) c(1) _ d0(1)] that(1) b'(2) True ne(1) isfree_same_flags [OF d0(2)] by auto
    qed
    ultimately show ?thesis using run unfolding lonely_busy prev_busy_def next_busy_def by auto
  qed
qed

lemma same_flags_trans: "same_flags a b \<Longrightarrow> same_flags b c \<Longrightarrow> same_flags a c"
  by (simp add: same_flags_def same_segment_def)

lemma free_block_run:
  assumes "alloc_wf segs {i} E s" "heap s i = Some b" "isfree b" "b_stream_uses b = []"
  shows "\<exists>t. free_block i s = (Inr (), t) \<and> alloc_wf segs {} E t \<and> same_frame s t"
proof -
  obtain p where p: "b_pool b = Some p"
    using geometry_okD [of "heap s" i b] assms(2) alloc_wfD(1) [OF assms(1)] by (auto simp: heap_ok_def)
  obtain t b' where t: "try_merge_blocks i (b_prev b) p s = (Inr (), t)" "alloc_wf segs {i} E t" "same_frame s t"
    "heap t i = Some b'" "same_flags b' b" "prev_busy (heap t) b'"
    using try_merge_prev [OF assms(1-3) p] by blast
  have b': "isfree b'" "b_pool b' = Some p"
    using t(5) assms(3) p by (simp_all add: isfree_same_flags) (simp add: same_flags_def same_segment_def)
  obtain u b2 where u: "try_merge_blocks i (b_next b') p t = (Inr (), u)" "alloc_wf segs {i} E u" "same_frame t u"
    "heap u i = Some b2" "same_flags b2 b'" "lonely (heap u) b2"
    using try_merge_next [OF t(2,4) b' t(6)] by blast
  have b2: "same_flags b2 b" by (rule same_flags_trans [OF u(5) t(5)])
  have "alloc_wf segs {} E (upd_pool p (pool_insert (heap u) i) u)"
    by (rule wf_attach [OF u(2,4) _ _ u(6)])
       (use b2 assms(3,4) p in \<open>auto simp: same_flags_def same_segment_def isfree_def\<close>)
  moreover have "free_block i s = (Inr (), upd_pool p (pool_insert (heap u) i) u)"
    using assms(2,3) p t(1,4) u(1)
    by (simp add: free_block_def run_defs isfree_def insert_into_pool_def)
  moreover have "same_frame s (upd_pool p (pool_insert (heap u) i) u)"
    using same_frame_trans [OF t(3) u(3)] by (simp add: same_frame_def allocs_def fun_eq_iff)
  ultimately show ?thesis by blast
qed

section \<open>Events\<close>

lemma allocs_upd_block:
  assumes "heap s i = Some b" "same_geometry d b" "heap t = (heap s)(i \<mapsto> d)" "allocated_blocks t = allocated_blocks s"
  shows "allocs t = allocs s"
proof
  fix p show "allocs t p = allocs s p"
    using assms by (cases "allocated_blocks s p") (auto simp: allocs_def blk_def same_geometry_def same_segment_def)
qed

lemma drop_event_run:
  assumes "alloc_wf segs {} (E1 @ (e, i) # E2) s"
  shows "\<exists>t. drop_event i s = (Inr (), t) \<and> alloc_wf segs {} (E1 @ E2) t \<and> same_frame s t"
proof -
  note W = alloc_wfD [OF assms]
  obtain b where b: "heap s i = Some b" using W(5) by (auto simp: events_ok_def)
  have ev: "b_event_count b = int (count_list (map snd (E1 @ E2)) i) + 1" "\<not> b_allocated b" "b_stream_uses b = []"
    using events_okD [OF W(5) b] by (auto simp: block_events_def)
  let ?d = "b\<lparr>b_event_count := b_event_count b - 1\<rparr>"
  let ?s = "s\<lparr>heap := (heap s)(i \<mapsto> ?d)\<rparr>"
  have g: "same_geometry ?d b" by (simp add: same_geometry_def same_segment_def)
  have s: "alloc_wf segs {i} (E1 @ E2) ?s"
  proof (rule wf_upd_block [OF assms _ b g])
    show "alloc_ok (heap ?s) (allocated_blocks ?s)" using alloc_ok_same [OF W(4) b] by simp
    show "stats_ok (heap ?s) (device_stats ?s)" using stats_ok_same [OF W(7,8) b g] by simp
  qed (use ev in \<open>auto simp: block_events_def isfree_def\<close>)
  have fr: "same_frame s ?s" using allocs_upd_block [OF b g, of ?s] by (simp add: same_frame_def)
  have run: "drop_event i s = (if b_event_count ?d = 0 then free_block i ?s else (Inr (), ?s))"
    using b by (simp add: drop_event_def run_defs)
  show ?thesis
  proof (cases "b_event_count ?d = 0")
    case True
    then have "isfree ?d" using ev(2) by (simp add: isfree_def)
    then obtain t where "free_block i ?s = (Inr (), t)" "alloc_wf segs {} (E1 @ E2) t" "same_frame ?s t"
      using free_block_run [OF s, of ?d] ev(3) by auto
    then show ?thesis using run True same_frame_trans [OF fr] by auto
  next
    case False
    then have "alloc_wf segs {} (E1 @ E2) ?s" using ev by (intro wf_not_free [OF s, of ?d]) (auto simp: isfree_def)
    then show ?thesis using run False fr by auto
  qed
qed

section \<open>The CUDA runtime\<close>

definition keeps :: "('d \<Rightarrow> (nat \<times> nat) set) \<Rightarrow> ('d, 'a) cuda_fun \<Rightarrow> bool" where
  "keeps segs f \<longleftrightarrow> (\<forall>d. segs (snd (f d)) = segs d)"

text \<open>
  The documented behaviour of the CUDA runtime that the allocator relies on. \<open>segs d\<close> are the device allocations that
  are live in the driver state \<open>d\<close>, in the unified address space. \<open>cudaMalloc\<close> returns memory outside them, \<open>cudaFree\<close>
  releases the allocation that starts at its argument, no other call changes them, and device ordinals are not negative.
\<close>

definition cuda_contract :: "'d cuda_api \<Rightarrow> ('d \<Rightarrow> (nat \<times> nat) set) \<Rightarrow> bool" where
  "cuda_contract api segs \<longleftrightarrow>
     keeps segs (cudaGetDevice api) \<and> (\<forall>x. keeps segs (cudaSetDevice api x)) \<and> keeps segs (cudaGetLastError api) \<and>
     keeps segs (cudaMemGetInfo api) \<and> keeps segs (cudaEventCreateWithFlags api) \<and>
     (\<forall>e x. keeps segs (cudaEventRecord api e x)) \<and> (\<forall>e. keeps segs (cudaEventQuery api e)) \<and>
     (\<forall>e. keeps segs (cudaEventSynchronize api e)) \<and> (\<forall>e. keeps segs (cudaEventDestroy api e)) \<and>
     (\<forall>d dev d'. cudaGetDevice api d = ((cudaSuccess, dev), d') \<longrightarrow> 0 \<le> dev) \<and>
     (\<forall>n d err p d'. cudaMalloc api n d = ((err, p), d') \<longrightarrow>
        (if err = cudaSuccess \<and> 0 < n
         then 0 < p \<and> p + n \<le> 2 ^ 64 \<and> (\<forall>x\<in>segs d. p + n \<le> fst x \<or> fst x + snd x \<le> p) \<and> segs d' = insert (p, n) (segs d)
         else segs d' = segs d)) \<and>
     (\<forall>p d err u d'. cudaFree api p d = ((err, u), d') \<longrightarrow>
        segs d' = (if err = cudaSuccess then {x \<in> segs d. fst x \<noteq> p} else segs d))"

text \<open>The exceptions of an operation: a CUDA error, or, where allocations \<open>B\<close> are named, the out-of-memory error.\<close>

definition exn_ok :: "('d \<Rightarrow> (nat \<times> nat) set) \<Rightarrow> (nat \<Rightarrow> (nat \<times> int \<times> nat) option) option \<Rightarrow> exn \<Rightarrow> 'd THCCachingAllocator \<Rightarrow> bool" where
  "exn_ok segs B e s \<longleftrightarrow> e = CUDA_error \<or> e = CUDA_OOM \<and> (\<exists>A. B = Some A \<and> allocator_inv segs s \<and> allocs s \<subseteq>\<^sub>m A)"

lemma exn_ok_error [simp]: "exn_ok segs A CUDA_error s"
  by (simp add: exn_ok_def)

lemma triple_check:
  assumes "\<And>s d x. P s \<Longrightarrow> f (driver s) = ((cudaSuccess, x), d) \<Longrightarrow> Q x (s\<lparr>driver := d\<rparr>)"
  shows "triple P (C10_CUDA_CHECK api f) Q (exn_ok segs A)"
  using assms
  by (auto simp: triple_def C10_CUDA_CHECK_def run_defs cuda_call_def cuda_error_check_def split: prod.splits sum.splits if_splits)

lemma wf_driver: "alloc_wf segs X E s \<Longrightarrow> segs d = segs (driver s) \<Longrightarrow> alloc_wf segs X E (s\<lparr>driver := d\<rparr>)"
  by (simp add: alloc_wf_def)

lemma allocs_upd [simp]:
  "allocs (s\<lparr>driver := d\<rparr>) = allocs s" "allocs (s\<lparr>cuda_events := E\<rparr>) = allocs s" "allocs (s\<lparr>device_stats := st\<rparr>) = allocs s"
  "allocs (upd_pool p f s) = allocs s"
  by (simp_all add: allocs_def fun_eq_iff)

text \<open>What the operations keep: the invariant, the abstract allocations and the number of device statistics.\<close>

definition kept :: "('d \<Rightarrow> (nat \<times> nat) set) \<Rightarrow> (nat \<Rightarrow> (nat \<times> int \<times> nat) option) \<Rightarrow> nat \<Rightarrow> nat set \<Rightarrow> (nat \<times> nat) list \<Rightarrow>
    'd THCCachingAllocator \<Rightarrow> bool" where
  "kept segs A L X E s \<longleftrightarrow> alloc_wf segs X E s \<and> allocs s = A \<and> length (device_stats s) = L"

lemma kept_driver: "kept segs A L X E s \<Longrightarrow> segs d = segs (driver s) \<Longrightarrow> kept segs A L X E (s\<lparr>driver := d\<rparr>)"
  by (simp add: kept_def wf_driver)

lemma kept_frame: "alloc_wf segs Y F t \<Longrightarrow> same_frame s t \<Longrightarrow> kept segs A L X E s \<Longrightarrow> kept segs A L Y F t"
  by (simp add: kept_def same_frame_def)

lemma kept_events: "kept segs A L X E s \<Longrightarrow> kept segs A L X E (s\<lparr>cuda_events := F\<rparr>)"
  by (simp add: kept_def alloc_wf_def)

lemma triple_check_keeps:
  assumes "keeps segs f"
  shows "triple (\<lambda>s. kept segs A L X E s \<and> cuda_events s = F) (C10_CUDA_CHECK api f)
    (\<lambda>_ s. kept segs A L X E s \<and> cuda_events s = F) (exn_ok segs B)"
proof (rule triple_check)
  fix s d x assume "kept segs A L X E s \<and> cuda_events s = F" "f (driver s) = ((cudaSuccess, x), d)"
  moreover from this assms have "segs d = segs (driver s)" unfolding keeps_def by (metis snd_conv)
  ultimately show "kept segs A L X E (s\<lparr>driver := d\<rparr>) \<and> cuda_events (s\<lparr>driver := d\<rparr>) = F" by (simp add: kept_driver)
qed

lemma triple_drop_event:
  "triple (\<lambda>s. kept segs A L {} (E1 @ (e, i) # E2) s \<and> cuda_events s = F) (drop_event i)
    (\<lambda>_ s. kept segs A L {} (E1 @ E2) s \<and> cuda_events s = F) Err"
proof (rule tripleI)
  fix s r t assume s: "kept segs A L {} (E1 @ (e, i) # E2) s \<and> cuda_events s = F" "drop_event i s = (Inr r, t)"
  then have "alloc_wf segs {} (E1 @ (e, i) # E2) s" by (simp add: kept_def)
  from drop_event_run [OF this] s show "kept segs A L {} (E1 @ E2) t \<and> cuda_events t = F"
    using kept_frame by (fastforce simp: same_frame_def)
next
  fix s x t assume s: "kept segs A L {} (E1 @ (e, i) # E2) s \<and> cuda_events s = F" "drop_event i s = (Inl x, t)"
  then have "alloc_wf segs {} (E1 @ (e, i) # E2) s" by (simp add: kept_def)
  from drop_event_run [OF this] s show "Err x t" by auto
qed

section \<open>Processing events\<close>

lemma triple_call:
  assumes "\<And>s x d. P s \<Longrightarrow> f (driver s) = (x, d) \<Longrightarrow> Q x (s\<lparr>driver := d\<rparr>)"
  shows "triple P (cuda_call f) Q Err"
  using assms by (auto simp: triple_def cuda_call_def split: prod.splits)

lemma triple_call_keeps:
  assumes "keeps segs f"
  shows "triple (\<lambda>s. kept segs A L X E s \<and> cuda_events s = F) (cuda_call f)
    (\<lambda>_ s. kept segs A L X E s \<and> cuda_events s = F) Err"
proof (rule triple_call)
  fix s d x assume "kept segs A L X E s \<and> cuda_events s = F" "f (driver s) = (x, d)"
  moreover from this assms have "segs d = segs (driver s)" unfolding keeps_def by (metis snd_conv)
  ultimately show "kept segs A L X E (s\<lparr>driver := d\<rparr>) \<and> cuda_events (s\<lparr>driver := d\<rparr>) = F" by (simp add: kept_driver)
qed

lemma triple_error_check: "triple P (cuda_error_check api err) (\<lambda>_ s. err = cudaSuccess \<and> P s) (exn_ok segs A)"
  by (auto simp: triple_def cuda_error_check_def run_defs cuda_call_def split: prod.splits sum.splits)

lemma contract_keeps:
  assumes "cuda_contract api segs"
  shows "keeps segs (cudaGetDevice api)" "keeps segs (cudaSetDevice api x)" "keeps segs (cudaGetLastError api)"
    "keeps segs (cudaMemGetInfo api)" "keeps segs (cudaEventCreateWithFlags api)" "keeps segs (cudaEventRecord api e y)"
    "keeps segs (cudaEventQuery api e)" "keeps segs (cudaEventSynchronize api e)" "keeps segs (cudaEventDestroy api e)"
  using assms by (simp_all add: cuda_contract_def)

lemma process_events_loop_ok:
  assumes "cuda_contract api segs"
  shows "triple (\<lambda>s. kept segs A L {} E s \<and> cuda_events s = E) (process_events_loop api E)
    (\<lambda>_ s. kept segs A L {} (cuda_events s) s) (exn_ok segs B)"
proof (induction E)
  case Nil
  show ?case by (simp add: triple_def)
next
  case (Cons ei E)
  obtain e i where ei: "ei = (e, i)" by fastforce
  let ?P = "\<lambda>s. kept segs A L {} (ei # E) s \<and> cuda_events s = ei # E"
  have rest: "triple ?P
     (seqm (cuda_error_check api err) (seqm (C10_CUDA_CHECK api (cudaEventDestroy api e)) (seqm (drop_event i)
       (seqm (modify (\<lambda>s. s\<lparr>cuda_events := tl (cuda_events s)\<rparr>)) (process_events_loop api E)))))
     (\<lambda>_ s. kept segs A L {} (cuda_events s) s) (exn_ok segs B)" for err
  proof (rule triple_seq [OF triple_error_check], rule triple_pull, rule triple_seq [OF triple_check_keeps])
    show "keeps segs (cudaEventDestroy api e)" by (rule contract_keeps [OF assms])
    show "triple ?P (seqm (drop_event i) (seqm (modify (\<lambda>s. s\<lparr>cuda_events := tl (cuda_events s)\<rparr>)) (process_events_loop api E)))
      (\<lambda>_ s. kept segs A L {} (cuda_events s) s) (exn_ok segs B)"
    proof (rule triple_seq)
      show "triple ?P (drop_event i) (\<lambda>_ s. kept segs A L {} E s \<and> cuda_events s = ei # E) (exn_ok segs B)"
        using triple_drop_event [of segs A L "[]" e i E "ei # E"] by (simp add: ei)
      show "triple (\<lambda>s. kept segs A L {} E s \<and> cuda_events s = ei # E)
        (seqm (modify (\<lambda>s. s\<lparr>cuda_events := tl (cuda_events s)\<rparr>)) (process_events_loop api E))
        (\<lambda>_ s. kept segs A L {} (cuda_events s) s) (exn_ok segs B)"
        by (rule triple_seq [OF triple_modify Cons.IH]) (simp add: kept_events)
    qed
  qed
  have notready: "triple ?P (seqm (cuda_call (cudaGetLastError api)) (ret ()))
      (\<lambda>_ s. kept segs A L {} (cuda_events s) s) (exn_ok segs B)"
    by (rule triple_seq [OF triple_call_keeps [OF contract_keeps(3) [OF assms]]], rule triple_ret) simp
  show ?case unfolding ei process_events_loop.simps
  proof (rule triple_bind)
    show "triple (\<lambda>s. kept segs A L {} ((e, i) # E) s \<and> cuda_events s = (e, i) # E) (cuda_call (cudaEventQuery api e))
      (\<lambda>_ s. ?P s) (exn_ok segs B)"
      unfolding ei by (rule triple_call_keeps [OF contract_keeps(7) [OF assms]])
    fix x :: "cudaError \<times> unit"
    show "triple ?P
      (case x of (err, uu) \<Rightarrow> if err = cudaErrorNotReady then seqm (cuda_call (cudaGetLastError api)) (ret ())
        else seqm (cuda_error_check api err) (seqm (C10_CUDA_CHECK api (cudaEventDestroy api e)) (seqm (drop_event i)
          (seqm (modify (\<lambda>s. s\<lparr>cuda_events := tl (cuda_events s)\<rparr>)) (process_events_loop api E)))))
      (\<lambda>_ s. kept segs A L {} (cuda_events s) s) (exn_ok segs B)"
      using rest [of "fst x"] notready by (cases x) simp
  qed
qed

lemma process_events_ok:
  assumes "cuda_contract api segs"
  shows "triple (\<lambda>s. kept segs A L {} (cuda_events s) s) (process_events api)
    (\<lambda>_ s. kept segs A L {} (cuda_events s) s) (exn_ok segs B)"
  unfolding process_events_def
  by (rule triple_bind [OF triple_gets process_events_loop_ok [OF assms]]) simp

lemma synchronize_loop_ok:
  assumes "cuda_contract api segs"
  shows "triple (\<lambda>s. kept segs A L {} (R @ E) s \<and> cuda_events s = F) (synchronize_loop api dev R E)
    (\<lambda>R' s. kept segs A L {} R' s \<and> cuda_events s = F) (exn_ok segs B)"
proof (induction E arbitrary: R)
  case Nil
  show ?case by (simp add: triple_def)
next
  case (Cons ei E)
  obtain e i where ei: "ei = (e, i)" by fastforce
  let ?P = "\<lambda>s. kept segs A L {} (R @ (e, i) # E) s \<and> cuda_events s = F"
  have live: "triple ?P (deref i) (\<lambda>_ s. ?P s) (exn_ok segs B)"
  proof (rule tripleI)
    fix s x t assume "?P s" "deref i s = (Inl x, t)"
    moreover then have "i \<in> dom (heap s)" using alloc_wfD(5) [of segs "{}" "R @ (e, i) # E" s] by (auto simp: kept_def events_ok_def)
    ultimately show "exn_ok segs B x t" by (auto simp: deref_def)
  qed (auto simp: deref_def split: option.splits)
  have skip: "triple ?P (synchronize_loop api dev (R @ [(e, i)]) E) (\<lambda>R' s. kept segs A L {} R' s \<and> cuda_events s = F) (exn_ok segs B)"
    using Cons.IH [of "R @ [(e, i)]"] by simp
  have drop: "triple ?P
     (seqm (C10_CUDA_CHECK api (cudaEventSynchronize api e)) (seqm (C10_CUDA_CHECK api (cudaEventDestroy api e))
       (seqm (drop_event i) (synchronize_loop api dev R E))))
     (\<lambda>R' s. kept segs A L {} R' s \<and> cuda_events s = F) (exn_ok segs B)"
    by (rule triple_seq [OF triple_check_keeps [OF contract_keeps(8) [OF assms]]],
        rule triple_seq [OF triple_check_keeps [OF contract_keeps(9) [OF assms]]],
        rule triple_seq [OF triple_drop_event Cons.IH])
  show ?case unfolding ei synchronize_loop.simps
    by (rule triple_bind [OF live]) (use skip drop in simp)
qed

lemma synchronize_ok:
  assumes "cuda_contract api segs"
  shows "triple (\<lambda>s. kept segs A L {} (cuda_events s) s) (synchronize_and_free_events api dev)
    (\<lambda>_ s. kept segs A L {} (cuda_events s) s) (exn_ok segs B)"
  unfolding synchronize_and_free_events_def
proof (rule triple_bind [where R = "\<lambda>E s. kept segs A L {} E s \<and> cuda_events s = E"])
  show "triple (\<lambda>s. kept segs A L {} (cuda_events s) s) (gets cuda_events)
    (\<lambda>E s. kept segs A L {} E s \<and> cuda_events s = E) (exn_ok segs B)" by (rule triple_gets) simp
  fix E
  show "triple (\<lambda>s. kept segs A L {} E s \<and> cuda_events s = E)
    (bindm (synchronize_loop api dev [] E) (\<lambda>R. modify (\<lambda>s. s\<lparr>cuda_events := R\<rparr>)))
    (\<lambda>_ s. kept segs A L {} (cuda_events s) s) (exn_ok segs B)"
  proof (rule triple_bind)
    show "triple (\<lambda>s. kept segs A L {} E s \<and> cuda_events s = E) (synchronize_loop api dev [] E)
      (\<lambda>R s. kept segs A L {} R s \<and> cuda_events s = E) (exn_ok segs B)"
      using synchronize_loop_ok [OF assms, of A L "[]" E E dev B] by simp
    show "triple (\<lambda>s. kept segs A L {} R s \<and> cuda_events s = E) (modify (\<lambda>s. s\<lparr>cuda_events := R\<rparr>))
      (\<lambda>_ s. kept segs A L {} (cuda_events s) s) (exn_ok segs B)" for R
      by (rule triple_modify) (simp add: kept_events)
  qed
qed

section \<open>Returning memory to the driver\<close>

abbreviation ok :: "('d \<Rightarrow> (nat \<times> nat) set) \<Rightarrow> (nat \<Rightarrow> (nat \<times> int \<times> nat) option) \<Rightarrow> nat \<Rightarrow> 'd THCCachingAllocator \<Rightarrow> bool" where
  "ok segs A L s \<equiv> kept segs A L {} (cuda_events s) s"

lemma ok_call:
  assumes "keeps segs f"
  shows "triple (ok segs A L) (cuda_call f) (\<lambda>_. ok segs A L) Err"
proof (rule triple_call)
  fix s x d assume "ok segs A L s" "f (driver s) = (x, d)"
  moreover from this assms have "segs d = segs (driver s)" unfolding keeps_def by (metis snd_conv)
  ultimately show "ok segs A L (s\<lparr>driver := d\<rparr>)" by (simp add: kept_driver)
qed

lemma ok_check:
  assumes "keeps segs f"
  shows "triple (ok segs A L) (C10_CUDA_CHECK api f) (\<lambda>_. ok segs A L) (exn_ok segs B)"
proof (rule triple_check)
  fix s d x assume "ok segs A L s" "f (driver s) = ((cudaSuccess, x), d)"
  moreover from this assms have "segs d = segs (driver s)" unfolding keeps_def by (metis snd_conv)
  ultimately show "ok segs A L (s\<lparr>driver := d\<rparr>)" by (simp add: kept_driver)
qed

lemma allocs_remove_free:
  assumes "alloc_wf segs {} E s" "heap s i = Some b" "isfree b" "heap t = (heap s)(i := None)" "allocated_blocks t = allocated_blocks s"
  shows "allocs t = allocs s"
proof
  fix p show "allocs t p = allocs s p"
  proof (cases "allocated_blocks s p")
    case (Some x)
    then have "x \<noteq> i" using alloc_wfD(4) [OF assms(1)] assms(2,3) by (auto simp: alloc_ok_def isfree_def)
    then show ?thesis using Some assms(4,5) by (simp add: allocs_def blk_def)
  qed (simp add: allocs_def assms(5))
qed

lemma free_unsplit_ok:
  assumes "cuda_contract api segs"
  shows "triple (\<lambda>s. (ok segs A L s \<and> set (i # xs) \<subseteq> set (pool_of p s) \<and> distinct (i # xs))) (free_unsplit api p i)
    (\<lambda>_ s. ok segs A L s \<and> set xs \<subseteq> set (pool_of p s) \<and> distinct xs) (exn_ok segs B)"
    (is "triple ?P _ ?Q _")
proof -
  have step: "case free_unsplit api p i s of (Inr x, t) \<Rightarrow> ?Q x t | (Inl e, t) \<Rightarrow> exn_ok segs B e t" if s: "?P s" for s
  proof -
    have W: "alloc_wf segs {} (cuda_events s) s" and AL: "allocs s = A" "length (device_stats s) = L" using s by (auto simp: kept_def)
    obtain b where b: "heap s i = Some b" "isfree b" using alloc_wfD(3) [OF W, of p] s by (auto simp: pool_ok_def)
    note st = stats_okD [OF alloc_wfD(7) [OF W] b(1)]
    show ?thesis
    proof (cases "b_prev b = None \<and> b_next b = None")
      case False
      show ?thesis using s b(1) by (simp add: free_unsplit_def run_defs if_not_P [OF False])
    next
      case True
      obtain err u d where d: "cudaFree api (b_ptr b) (driver s) = ((err, u), d)" by (metis prod.collapse)
      then have segs: "segs d = (if err = cudaSuccess then {x \<in> segs (driver s). fst x \<noteq> b_ptr b} else segs (driver s))"
        using assms by (simp add: cuda_contract_def)
      show ?thesis
      proof (cases "err = cudaSuccess")
        case False
        obtain r d' where "cudaGetLastError api d = (r, d')" by fastforce
        then show ?thesis using True False b d
          by (simp add: free_unsplit_def run_defs C10_CUDA_CHECK_def cuda_call_def cuda_error_check_def split: prod.splits)
      next
        case ok: True
        let ?st = "(device_stats s)[nat (b_device b) := decreaseCached (b_size b) (device_stats s ! nat (b_device b))]"
        let ?t = "(upd_pool p (remove1 i) (s\<lparr>driver := d, device_stats := ?st\<rparr>))\<lparr>heap := (heap s)(i := None)\<rparr>"
        have run: "free_unsplit api p i s = (Inr (), ?t)"
          using True ok b d st(1,2)
          by (simp add: free_unsplit_def run_defs C10_CUDA_CHECK_def cuda_call_def cuda_error_check_def
              get_stats_for_device_def upd_stats_def delete_block_def)
        have "alloc_wf segs {} (cuda_events s) ?t"
          by (rule wf_remove_unsplit [OF W _ b(1)]) (use s True segs ok in auto)
        moreover have "allocs ?t = A" using allocs_remove_free [OF W b, of ?t] AL by simp
        ultimately have "ok segs A L ?t" using AL by (simp add: kept_def)
        moreover have "set xs \<subseteq> set (remove1 i (pool_of p s))"
        proof
          fix x assume "x \<in> set xs"
          then have "x \<in> set (pool_of p s)" "x \<noteq> i" using s by auto
          then show "x \<in> set (remove1 i (pool_of p s))" by simp
        qed
        ultimately show ?thesis using run s by simp
      qed
    qed
  qed
  then show ?thesis by (simp add: triple_def)
qed

lemma free_blocks_ok:
  assumes "cuda_contract api segs"
  shows "triple (\<lambda>s. ok segs A L s \<and> set xs \<subseteq> set (pool_of p s) \<and> distinct xs) (free_blocks api p xs)
    (\<lambda>_. ok segs A L) (exn_ok segs B)"
proof -
  have "triple (\<lambda>s. ok segs A L s \<and> set xs \<subseteq> set (pool_of p s) \<and> distinct xs) (foreach (free_unsplit api p) xs)
      (\<lambda>_ s. ok segs A L s \<and> set [] \<subseteq> set (pool_of p s) \<and> distinct ([] :: nat list)) (exn_ok segs B)"
    by (rule triple_foreach [where P = "\<lambda>xs s. ok segs A L s \<and> set xs \<subseteq> set (pool_of p s) \<and> distinct xs"])
       (rule free_unsplit_ok [OF assms])
  then show ?thesis unfolding free_blocks_def by (rule triple_post) simp
qed

lemma pool_range_sub: "set (pool_range h dev xs) \<subseteq> set xs" "distinct xs \<Longrightarrow> distinct (pool_range h dev xs)"
  unfolding pool_range_def pool_lower_bound_def
  by (auto dest!: set_takeWhileD set_dropWhileD)

lemma pool_distinct: "alloc_wf segs X E s \<Longrightarrow> distinct (pool_of p s)"
  using alloc_wfD(3) [of segs X E s p] by (auto simp: pool_ok_def intro: sorted_pool_distinct)

lemma free_pool_ok:
  assumes "cuda_contract api segs" "\<And>s. distinct (pool_of p s) \<Longrightarrow> distinct (f s) \<and> set (f s) \<subseteq> set (pool_of p s)"
  shows "triple (ok segs A L) (bindm (gets f) (free_blocks api p)) (\<lambda>_. ok segs A L) (exn_ok segs B)"
proof (rule triple_bind [OF triple_gets free_blocks_ok [OF assms(1)]])
  fix s assume s: "ok segs A L s"
  then have "distinct (pool_of p s)" using pool_distinct by (auto simp: kept_def)
  with s assms(2) show "ok segs A L s \<and> set (f s) \<subseteq> set (pool_of p s) \<and> distinct (f s)" by simp
qed

lemma free_cached_blocks_ok:
  assumes "cuda_contract api segs"
  shows "triple (ok segs A L) (free_cached_blocks api dev) (\<lambda>_. ok segs A L) (exn_ok segs B)"
  unfolding free_cached_blocks_def
proof (rule triple_seq [OF synchronize_ok [OF assms] triple_seq])
  show "triple (ok segs A L) (bindm (gets (\<lambda>s. pool_range (heap s) dev (large_blocks s))) (free_blocks api LargePool))
    (\<lambda>_. ok segs A L) (exn_ok segs B)"
    using pool_range_sub by (intro free_pool_ok [OF assms]) (auto simp: pool_of_def)
  show "triple (ok segs A L) (bindm (gets (\<lambda>s. pool_range (heap s) dev (small_blocks s))) (free_blocks api SmallPool))
    (\<lambda>_. ok segs A L) (exn_ok segs B)"
    using pool_range_sub by (intro free_pool_ok [OF assms]) (auto simp: pool_of_def)
qed

lemma emptyCache_ok:
  assumes "cuda_contract api segs"
  shows "triple (ok segs A L) (emptyCache api) (\<lambda>_. ok segs A L) (exn_ok segs B)"
  unfolding emptyCache_def
proof (rule triple_seq [OF synchronize_ok [OF assms] triple_seq])
  show "triple (ok segs A L) (bindm (gets large_blocks) (free_blocks api LargePool)) (\<lambda>_. ok segs A L) (exn_ok segs B)"
    by (intro free_pool_ok [OF assms]) (auto simp: pool_of_def)
  show "triple (ok segs A L) (bindm (gets small_blocks) (free_blocks api SmallPool)) (\<lambda>_. ok segs A L) (exn_ok segs B)"
    by (intro free_pool_ok [OF assms]) (auto simp: pool_of_def)
qed

section \<open>Freeing an allocation\<close>

text \<open>A block being freed: out of the pools, not in use, with no recorded streams left.\<close>

definition freeing :: "('d \<Rightarrow> (nat \<times> nat) set) \<Rightarrow> (nat \<Rightarrow> (nat \<times> int \<times> nat) option) \<Rightarrow> nat \<Rightarrow> nat \<Rightarrow> 'd THCCachingAllocator \<Rightarrow> bool" where
  "freeing segs A L i s \<longleftrightarrow> kept segs A L {i} (cuda_events s) s \<and>
     (\<exists>b. heap s i = Some b \<and> \<not> b_allocated b \<and> b_stream_uses b = [])"

definition pending :: "nat \<Rightarrow> 'd THCCachingAllocator \<Rightarrow> bool" where
  "pending i s \<longleftrightarrow> 0 < b_event_count (blk (heap s) i)"

lemma freeing_check:
  assumes "keeps segs f"
  shows "triple (freeing segs A L i) (C10_CUDA_CHECK api f) (\<lambda>_. freeing segs A L i) (exn_ok segs B)"
proof (rule triple_check)
  fix s d x assume "freeing segs A L i s" "f (driver s) = ((cudaSuccess, x), d)"
  moreover from this assms have "segs d = segs (driver s)" unfolding keeps_def by (metis snd_conv)
  ultimately show "freeing segs A L i (s\<lparr>driver := d\<rparr>)" by (auto simp: freeing_def kept_driver)
qed

lemma add_event_ok:
  "triple (freeing segs A L i)
     (seqm (upd_block i (\<lambda>b. b\<lparr>b_event_count := b_event_count b + 1\<rparr>))
       (modify (\<lambda>s. s\<lparr>cuda_events := cuda_events s @ [(event, i)]\<rparr>)))
     (\<lambda>_ s. freeing segs A L i s \<and> pending i s) Err"
proof -
  have "\<exists>t. seqm (upd_block i (\<lambda>b. b\<lparr>b_event_count := b_event_count b + 1\<rparr>))
      (modify (\<lambda>s. s\<lparr>cuda_events := cuda_events s @ [(event, i)]\<rparr>)) s = (Inr (), t) \<and> freeing segs A L i t \<and> pending i t"
    if s: "freeing segs A L i s" for s
  proof -
    from s obtain b where b: "heap s i = Some b" "\<not> b_allocated b" "b_stream_uses b = []" by (auto simp: freeing_def)
    have W: "alloc_wf segs {i} (cuda_events s) s" using s by (simp add: freeing_def kept_def)
    note D = alloc_wfD [OF W]
    let ?d = "b\<lparr>b_event_count := b_event_count b + 1\<rparr>"
    let ?t = "s\<lparr>heap := (heap s)(i \<mapsto> ?d), cuda_events := cuda_events s @ [(event, i)]\<rparr>"
    have g: "same_geometry ?d b" by (simp add: same_geometry_def same_segment_def)
    have ev: "b_event_count b = int (count_list (map snd (cuda_events s)) i)"
      using events_okD [OF D(5) b(1)] by (simp add: block_events_def)
    have "alloc_wf segs {i} (cuda_events s @ [(event, i)]) ?t"
    proof (rule wf_upd_block [OF W _ b(1) g])
      show "alloc_ok (heap ?t) (allocated_blocks ?t)" using alloc_ok_same [OF D(4) b(1)] by simp
      show "stats_ok (heap ?t) (device_stats ?t)" using stats_ok_same [OF D(7,8) b(1) g] by simp
    qed (use ev b in \<open>auto simp: block_events_def\<close>)
    moreover have "allocs ?t = allocs s" by (rule allocs_upd_block [OF b(1) g]) auto
    ultimately have "freeing segs A L i ?t" "pending i ?t" using s b ev by (auto simp: freeing_def kept_def pending_def)
    then show ?thesis using b(1) by (simp add: run_defs)
  qed
  then show ?thesis unfolding triple_def by fastforce
qed

lemma seqm_assoc: "seqm a (seqm b c) = seqm (seqm a b) c"
  by (auto simp: run_defs fun_eq_iff split: prod.splits sum.splits)

lemma insert_events_loop_ok:
  assumes "cuda_contract api segs"
  shows "triple (\<lambda>s. freeing segs A L i s \<and> (strs = [] \<longrightarrow> pending i s)) (insert_events_loop api i strs)
    (\<lambda>_. ok segs A L) (exn_ok segs B)"
proof (induction strs)
  case Nil
  show ?case unfolding insert_events_loop.simps
  proof (rule triple_ret)
    fix s :: "'a THCCachingAllocator"
    assume s: "freeing segs A L i s \<and> ([] = [] \<longrightarrow> pending i s)"
    then obtain b where "heap s i = Some b" "\<not> isfree b" "b_stream_uses b = []" by (auto simp: isfree_def freeing_def pending_def)
    then show "ok segs A L s" using s wf_not_free [of segs i "cuda_events s" s b] by (auto simp: freeing_def kept_def)
  qed
next
  case (Cons ds strs)
  obtain dev str where ds: "ds = (dev, str)" by fastforce
  show ?case unfolding ds insert_events_loop.simps seqm_assoc [of "upd_block _ _"]
    by (rule triple_pre [where P' = "freeing segs A L i"], rule triple_seq [OF freeing_check [OF contract_keeps(2) [OF assms]]],
        rule triple_bind [OF freeing_check [OF contract_keeps(5) [OF assms]]],
        rule triple_seq [OF freeing_check [OF contract_keeps(6) [OF assms]]],
        rule triple_seq [OF add_event_ok], rule triple_pre [OF Cons.IH]) auto
qed

lemma freeing_clear_uses:
  assumes "kept segs A L {i} (cuda_events s) s" "heap s i = Some b" "\<not> b_allocated b"
  shows "freeing segs A L i (s\<lparr>heap := (heap s)(i \<mapsto> b\<lparr>b_stream_uses := []\<rparr>)\<rparr>)"
proof -
  have W: "alloc_wf segs {i} (cuda_events s) s" using assms(1) by (simp add: kept_def)
  note D = alloc_wfD [OF W]
  let ?d = "b\<lparr>b_stream_uses := []\<rparr>"
  let ?t = "s\<lparr>heap := (heap s)(i \<mapsto> ?d)\<rparr>"
  have g: "same_geometry ?d b" by (simp add: same_geometry_def same_segment_def)
  have "alloc_wf segs {i} (cuda_events s) ?t"
  proof (rule wf_upd_block [OF W _ assms(2) g])
    show "alloc_ok (heap ?t) (allocated_blocks ?t)" using alloc_ok_same [OF D(4) assms(2)] by simp
    show "stats_ok (heap ?t) (device_stats ?t)" using stats_ok_same [OF D(7,8) assms(2) g] by simp
    show "block_events {i} (cuda_events s) i ?d"
      using events_okD [OF D(5) assms(2)] assms(3) by (simp add: block_events_def)
  qed auto
  moreover have "allocs ?t = allocs s" by (rule allocs_upd_block [OF assms(2) g]) auto
  ultimately show ?thesis using assms by (simp add: freeing_def kept_def)
qed

lemma insert_events_ok:
  assumes "cuda_contract api segs"
  shows "triple (\<lambda>s. kept segs A L {i} (cuda_events s) s \<and> (\<exists>b. heap s i = Some b \<and> \<not> b_allocated b \<and> b_stream_uses b \<noteq> []))
    (insert_events api i) (\<lambda>_. ok segs A L) (exn_ok segs B)"
proof -
  let ?P = "\<lambda>s. kept segs A L {i} (cuda_events s) s \<and> (\<exists>b. heap s i = Some b \<and> \<not> b_allocated b \<and> b_stream_uses b \<noteq> [])"
  let ?Q = "\<lambda>strs s. freeing segs A L i s \<and> strs \<noteq> []"
  have get: "triple ?P (C10_CUDA_CHECK api (cudaGetDevice api)) (\<lambda>_. ?P) (exn_ok segs B)"
  proof (rule triple_check)
    fix s d x assume "?P s" "cudaGetDevice api (driver s) = ((cudaSuccess, x), d)"
    moreover from this contract_keeps(1) [OF assms] have "segs d = segs (driver s)" unfolding keeps_def by (metis snd_conv)
    ultimately show "?P (s\<lparr>driver := d\<rparr>)" by (auto simp: kept_driver)
  qed
  have body: "triple ?P (bindm (deref i) (\<lambda>b. seqm (upd_block i (\<lambda>b. b\<lparr>b_stream_uses := []\<rparr>))
      (seqm (insert_events_loop api i (b_stream_uses b)) (C10_CUDA_CHECK api (cudaSetDevice api x)))))
      (\<lambda>_. ok segs A L) (exn_ok segs B)" for x
  proof (rule triple_bind [where R = "\<lambda>b s. kept segs A L {i} (cuda_events s) s \<and> heap s i = Some b \<and> \<not> b_allocated b \<and> b_stream_uses b \<noteq> []"])
    show "triple ?P (deref i) (\<lambda>b s. kept segs A L {i} (cuda_events s) s \<and> heap s i = Some b \<and> \<not> b_allocated b \<and> b_stream_uses b \<noteq> []) (exn_ok segs B)"
      by (auto simp: triple_def)
    fix b
    show "triple (\<lambda>s. kept segs A L {i} (cuda_events s) s \<and> heap s i = Some b \<and> \<not> b_allocated b \<and> b_stream_uses b \<noteq> [])
      (seqm (upd_block i (\<lambda>b. b\<lparr>b_stream_uses := []\<rparr>)) (seqm (insert_events_loop api i (b_stream_uses b)) (C10_CUDA_CHECK api (cudaSetDevice api x))))
      (\<lambda>_. ok segs A L) (exn_ok segs B)"
    proof (rule triple_seq [where R = "\<lambda>s. freeing segs A L i s \<and> (b_stream_uses b = [] \<longrightarrow> pending i s)"])
      show "triple (\<lambda>s. kept segs A L {i} (cuda_events s) s \<and> heap s i = Some b \<and> \<not> b_allocated b \<and> b_stream_uses b \<noteq> [])
        (upd_block i (\<lambda>b. b\<lparr>b_stream_uses := []\<rparr>)) (\<lambda>_ s. freeing segs A L i s \<and> (b_stream_uses b = [] \<longrightarrow> pending i s)) (exn_ok segs B)"
        by (auto simp: triple_def freeing_clear_uses)
    qed (rule triple_seq [OF insert_events_loop_ok [OF assms] ok_check [OF contract_keeps(2) [OF assms]]])
  qed
  show ?thesis unfolding insert_events_def by (rule triple_bind [OF get body])
qed

lemma unmark_ok:
  assumes "kept segs A L {} (cuda_events s) s" "allocated_blocks s p = Some i" "heap s i = Some b"
    "t = s\<lparr>allocated_blocks := (allocated_blocks s)(p := None), heap := (heap s)(i \<mapsto> b\<lparr>b_allocated := False\<rparr>),
       device_stats := (device_stats s)[nat (b_device b) := decreaseAllocated (b_size b) (device_stats s ! nat (b_device b))]\<rparr>"
  shows "kept segs (A(p := None)) L {i} (cuda_events t) t"
proof -
  have W: "alloc_wf segs {} (cuda_events s) s" using assms(1) by (simp add: kept_def)
  note D = alloc_wfD [OF W]
  let ?d = "b\<lparr>b_allocated := False\<rparr>"
  have g: "same_geometry ?d b" by (simp add: same_geometry_def same_segment_def)
  have b: "b_allocated b" "b_ptr b = p" using D(4) assms(2,3) by (auto simp: alloc_ok_def)
  have "alloc_wf segs {i} (cuda_events s) t"
  proof (rule wf_upd_block [OF W _ assms(3) g])
    show "alloc_ok (heap t) (allocated_blocks t)" using alloc_ok_unmark [OF D(4,1) assms(3), of ?d] b by (simp add: assms(4))
    show "stats_ok (heap t) (device_stats t)" using stats_ok_unmark [OF D(7,1,8) assms(3) b(1) g] by (simp add: assms(4))
    show "block_events {i} (cuda_events s) i ?d"
      using events_okD [OF D(5) assms(3)] b by (simp add: block_events_def)
  qed (use b in \<open>auto simp: assms(4) isfree_def\<close>)
  moreover have "allocs t = (allocs s)(p := None)"
  proof
    fix q show "allocs t q = ((allocs s)(p := None)) q"
    proof (cases "q = p")
      case False
      then have "allocated_blocks s q \<noteq> Some i" using D(4) assms(3) b by (auto simp: alloc_ok_def)
      then show ?thesis using False by (cases "allocated_blocks s q") (auto simp: allocs_def assms(4) blk_def)
    qed (simp add: allocs_def assms(4))
  qed
  ultimately show ?thesis using assms(1) by (simp add: kept_def assms(4))
qed

text \<open>\<open>free\<close> of an allocated address removes exactly that allocation; of another one it throws and changes nothing.\<close>

lemma free_ok:
  assumes "cuda_contract api segs" "A p \<noteq> None"
  shows "triple (ok segs A L) (free api p) (\<lambda>_. ok segs (A(p := None)) L) (exn_ok segs B)"
proof -
  have "case free api p s of (Inr x, t) \<Rightarrow> ok segs (A(p := None)) L t | (Inl e, t) \<Rightarrow> exn_ok segs B e t" if s: "ok segs A L s" for s
  proof -
    have W: "alloc_wf segs {} (cuda_events s) s" and AL: "allocs s = A" "length (device_stats s) = L" using s by (auto simp: kept_def)
    note D = alloc_wfD [OF W]
    from assms(2) AL(1) obtain i where i: "allocated_blocks s p = Some i" by (auto simp: allocs_def)
    then obtain b where b: "heap s i = Some b" "b_allocated b" "b_ptr b = p" using D(4) by (auto simp: alloc_ok_def)
    have p: "p \<noteq> 0" using geometry_okD [of "heap s" i b] D(1) b by (auto simp: heap_ok_def)
    note st = stats_okD [OF D(7) b(1)]
    define t where "t = s\<lparr>allocated_blocks := (allocated_blocks s)(p := None), heap := (heap s)(i \<mapsto> b\<lparr>b_allocated := False\<rparr>),
       device_stats := (device_stats s)[nat (b_device b) := decreaseAllocated (b_size b) (device_stats s ! nat (b_device b))]\<rparr>"
    have run: "free api p s = (if b_stream_uses b \<noteq> [] then insert_events api i else free_block i) t"
      using i b p st(1,2)
      by (simp add: free_def run_defs get_stats_for_device_def upd_stats_def t_def)
    have t: "kept segs (A(p := None)) L {i} (cuda_events t) t" by (rule unmark_ok [OF s i b(1) t_def])
    have h: "heap t i = Some (b\<lparr>b_allocated := False\<rparr>)" by (simp add: t_def)
    show ?thesis
    proof (cases "b_stream_uses b = []")
      case True
      have "isfree (b\<lparr>b_allocated := False\<rparr>)" using events_okD [OF D(5) b(1)] b(2) by (simp add: isfree_def block_events_def)
      then obtain u where "free_block i t = (Inr (), u)" "alloc_wf segs {} (cuda_events t) u" "same_frame t u"
        using free_block_run [of segs i "cuda_events t" t, OF _ h] t True by (auto simp: kept_def)
      then show ?thesis using run True kept_frame [OF _ _ t] by (simp add: same_frame_def)
    next
      case False
      have "kept segs (A(p := None)) L {i} (cuda_events t) t \<and> (\<exists>b. heap t i = Some b \<and> \<not> b_allocated b \<and> b_stream_uses b \<noteq> [])"
        using t h False by simp
      with insert_events_ok [OF assms(1), of "A(p := None)" L i B] run False show ?thesis by (simp add: triple_def)
    qed
  qed
  then show ?thesis by (simp add: triple_def)
qed

section \<open>Recording a stream\<close>

lemma recordStream_ok:
  assumes "A p \<noteq> None"
  shows "triple (ok segs A L) (recordStream p str) (\<lambda>_. ok segs A L) Err"
proof -
  have "\<exists>t. recordStream p str s = (Inr (), t) \<and> ok segs A L t" if s: "ok segs A L s" for s
  proof -
    have W: "alloc_wf segs {} (cuda_events s) s" and AL: "allocs s = A" "length (device_stats s) = L" using s by (auto simp: kept_def)
    note D = alloc_wfD [OF W]
    from assms AL(1) obtain i where i: "allocated_blocks s p = Some i" by (auto simp: allocs_def)
    then obtain b where b: "heap s i = Some b" "b_allocated b" "b_ptr b = p" using D(4) by (auto simp: alloc_ok_def)
    let ?d = "b\<lparr>b_stream_uses := List.insert str (b_stream_uses b)\<rparr>"
    let ?t = "s\<lparr>heap := (heap s)(i \<mapsto> ?d)\<rparr>"
    have g: "same_geometry ?d b" by (simp add: same_geometry_def same_segment_def)
    have "alloc_wf segs {i} (cuda_events s) ?t"
    proof (rule wf_upd_block [OF W _ b(1) g])
      show "alloc_ok (heap ?t) (allocated_blocks ?t)" using alloc_ok_same [OF D(4) b(1)] by simp
      show "stats_ok (heap ?t) (device_stats ?t)" using stats_ok_same [OF D(7,8) b(1) g] by simp
    qed (use events_okD [OF D(5) b(1)] b in \<open>auto simp: block_events_def isfree_def\<close>)
    then have "alloc_wf segs {} (cuda_events s) ?t" using b by (rule_tac wf_not_free [of _ i _ _ ?d]) (auto simp: isfree_def)
    moreover have "allocs ?t = allocs s" by (rule allocs_upd_block [OF b(1) g]) auto
    ultimately have "ok segs A L ?t" using AL by (simp add: kept_def)
    then show ?thesis using s i b by (auto simp: recordStream_def find_allocated_block_def run_defs)
  qed
  then show ?thesis unfolding triple_def by fastforce
qed

section \<open>Allocating\<close>

text \<open>A block that \<open>malloc\<close> may hand out, possibly after splitting it: free, out of the pools and large enough.\<close>

definition usable :: "('d \<Rightarrow> (nat \<times> nat) set) \<Rightarrow> (nat \<Rightarrow> (nat \<times> int \<times> nat) option) \<Rightarrow> nat \<Rightarrow> PoolId \<Rightarrow> int \<Rightarrow> nat \<Rightarrow> nat \<Rightarrow> nat \<Rightarrow>
    'd THCCachingAllocator \<Rightarrow> bool" where
  "usable segs A L pool dev str sz i s \<longleftrightarrow> kept segs A L {i} (cuda_events s) s \<and>
     (\<exists>b. heap s i = Some b \<and> isfree b \<and> b_stream_uses b = [] \<and> b_pool b = Some pool \<and> b_device b = dev \<and>
        b_stream b = str \<and> sz \<le> b_size b \<and> lonely (heap s) b)"

lemma lower_bound_head:
  assumes "pool_lower_bound h (search_key dev str sz) xs = i # ys"
    "b_device (blk h i) = dev" "b_stream (blk h i) = str"
  shows "i \<in> set xs" "sz \<le> b_size (blk h i)"
proof -
  show "i \<in> set xs" using assms(1) unfolding pool_lower_bound_def by (metis list.set_intros(1) set_dropWhileD)
  have "\<not> BlockComparator (blk h i) (search_key dev str sz)"
    using assms(1) unfolding pool_lower_bound_def by (metis hd_dropWhile list.distinct(1) list.sel(1))
  then show "sz \<le> b_size (blk h i)" using assms(2,3) by (auto simp: BlockComparator_def search_key_def new_Block_def split: if_splits)
qed

lemma find_free_block_ok:
  "triple (ok segs A L) (find_free_block pool dev str sz)
     (\<lambda>r s. case r of None \<Rightarrow> ok segs A L s | Some i \<Rightarrow> usable segs A L pool dev str sz i s) Err"
proof -
  have "case find_free_block pool dev str sz s of (Inr r, t) \<Rightarrow>
      (case r of None \<Rightarrow> ok segs A L t | Some i \<Rightarrow> usable segs A L pool dev str sz i t) | (Inl e, t) \<Rightarrow> Err e t"
    if s: "ok segs A L s" for s
  proof (cases "pool_lower_bound (heap s) (search_key dev str sz) (pool_of pool s)")
    case Nil
    then show ?thesis using s by (simp add: find_free_block_def)
  next
    case (Cons i ys)
    show ?thesis
    proof (cases "b_device (blk (heap s) i) = dev \<and> b_stream (blk (heap s) i) = str")
      case False
      then show ?thesis using s Cons by (auto simp: find_free_block_def)
    next
      case True
      note lb = lower_bound_head [OF Cons]
      have W: "alloc_wf segs {} (cuda_events s) s" using s by (simp add: kept_def)
      note D = alloc_wfD [OF W]
      have i: "i \<in> set (pool_of pool s)" "sz \<le> b_size (blk (heap s) i)" using lb True by auto
      then obtain b where b: "heap s i = Some b" "isfree b" "b_pool b = Some pool" using D(3) [of pool] by (auto simp: pool_ok_def)
      have "b_stream_uses b = []" using events_okD [OF D(5) b(1)] b(2) by (auto simp: block_events_def isfree_def)
      then have "usable segs A L pool dev str sz i (upd_pool pool (remove1 i) s)"
        unfolding usable_def using wf_detach [OF W i(1)] s b True i(2) lonely_in_pool [OF D(1,2) b(1,2)] by (auto simp: kept_def)
      then show ?thesis using Cons True by (simp add: find_free_block_def)
    qed
  qed
  then show ?thesis by (simp add: triple_def)
qed

definition callbacks_ok :: "('d \<Rightarrow> (nat \<times> nat) set) \<Rightarrow> ('d, bool) amon list \<Rightarrow> bool" where
  "callbacks_ok segs cbs \<longleftrightarrow> (\<forall>cb \<in> set cbs. \<forall>A L B. A \<subseteq>\<^sub>m B \<longrightarrow>
     triple (ok segs A L) cb (\<lambda>_ s. \<exists>A'. A' \<subseteq>\<^sub>m A \<and> ok segs A' L s) (exn_ok segs (Some B)))"

lemma run_callbacks_ok:
  assumes "callbacks_ok segs cbs"
  shows "triple (\<lambda>s. \<exists>A'. A' \<subseteq>\<^sub>m A \<and> ok segs A' L s) (run_callbacks cbs freed)
    (\<lambda>_ s. \<exists>A'. A' \<subseteq>\<^sub>m A \<and> ok segs A' L s) (exn_ok segs (Some A))"
  using assms
proof (induction cbs arbitrary: freed)
  case Nil
  show ?case unfolding run_callbacks.simps by (rule triple_ret)
next
  case (Cons cb cbs)
  have "triple (\<lambda>s. \<exists>A'. A' \<subseteq>\<^sub>m A \<and> ok segs A' L s) cb (\<lambda>_ s. \<exists>A'. A' \<subseteq>\<^sub>m A \<and> ok segs A' L s) (exn_ok segs (Some A))"
  proof (intro triple_ex triple_pull)
    fix A' assume A': "A' \<subseteq>\<^sub>m A"
    have "triple (ok segs A' L) cb (\<lambda>_ s. \<exists>A''. A'' \<subseteq>\<^sub>m A' \<and> ok segs A'' L s) (exn_ok segs (Some A))"
      using Cons.prems A' by (simp add: callbacks_ok_def)
    then show "triple (ok segs A' L) cb (\<lambda>_ s. \<exists>A''. A'' \<subseteq>\<^sub>m A \<and> ok segs A'' L s) (exn_ok segs (Some A))"
      by (rule triple_post) (use A' map_le_trans in blast)
  qed
  moreover have "callbacks_ok segs cbs" using Cons.prems by (simp add: callbacks_ok_def)
  ultimately show ?case unfolding run_callbacks.simps using Cons.IH by (intro triple_bind) auto
qed

text \<open>The state after \<open>cudaMalloc\<close>: on success the driver has a new segment that no block lies in yet.\<close>

definition got :: "('d \<Rightarrow> (nat \<times> nat) set) \<Rightarrow> (nat \<Rightarrow> (nat \<times> int \<times> nat) option) \<Rightarrow> nat \<Rightarrow> nat \<Rightarrow> cudaError \<times> nat \<Rightarrow>
    'd THCCachingAllocator \<Rightarrow> bool" where
  "got segs A L n r s \<longleftrightarrow> (if fst r = cudaSuccess
     then \<exists>S. kept (\<lambda>_. S) A L {} (cuda_events s) s \<and> segs (driver s) = insert (snd r, n) S \<and> 0 < snd r \<and> snd r + n \<le> 2 ^ 64 \<and>
       (\<forall>x\<in>S. snd r + n \<le> fst x \<or> fst x + snd x \<le> snd r)
     else ok segs A L s)"

lemma cudaMalloc_ok:
  assumes "cuda_contract api segs" "0 < n"
  shows "triple (ok segs A L) (cuda_call (cudaMalloc api n)) (got segs A L n) Err"
proof (rule triple_call)
  fix s r d assume s: "ok segs A L s" and d: "cudaMalloc api n (driver s) = (r, d)"
  obtain err p where r: "r = (err, p)" by fastforce
  have c: "if err = cudaSuccess \<and> 0 < n
      then 0 < p \<and> p + n \<le> 2 ^ 64 \<and> (\<forall>x\<in>segs (driver s). p + n \<le> fst x \<or> fst x + snd x \<le> p) \<and> segs d = insert (p, n) (segs (driver s))
      else segs d = segs (driver s)"
    using assms(1) d r unfolding cuda_contract_def by blast
  show "got segs A L n r (s\<lparr>driver := d\<rparr>)"
  proof (cases "err = cudaSuccess")
    case True
    have "kept (\<lambda>_. segs (driver s)) A L {} (cuda_events s) (s\<lparr>driver := d\<rparr>)" using s by (simp add: kept_def alloc_wf_def)
    with True c assms(2) r show ?thesis by (auto simp: got_def)
  next
    case False
    with c s r show ?thesis by (simp add: got_def kept_driver)
  qed
qed

lemma cuda_malloc_retry_ok:
  assumes "cuda_contract api segs" "0 < n"
  shows "triple (ok segs A L) (cuda_malloc_retry api dev n) (got segs A L n) (exn_ok segs B)"
  unfolding cuda_malloc_retry_def
proof (rule triple_bind [OF cudaMalloc_ok [OF assms]])
  fix r :: "cudaError \<times> nat"
  have "triple (ok segs A L) (seqm (cuda_call (cudaGetLastError api)) (seqm (free_cached_blocks api dev) (cuda_call (cudaMalloc api n))))
      (got segs A L n) (exn_ok segs B)"
    by (rule triple_seq [OF ok_call [OF contract_keeps(3) [OF assms(1)]]],
        rule triple_seq [OF free_cached_blocks_ok [OF assms(1)] cudaMalloc_ok [OF assms]])
  then show "triple (got segs A L n r)
      (case r of (err, p) \<Rightarrow> if err \<noteq> cudaSuccess
        then seqm (cuda_call (cudaGetLastError api)) (seqm (free_cached_blocks api dev) (cuda_call (cudaMalloc api n)))
        else ret (err, p)) (got segs A L n) (exn_ok segs B)"
    by (cases "fst r = cudaSuccess"; cases r) (auto simp: got_def triple_def)
qed

lemma allocs_insert_fresh:
  assumes "alloc_wf segs X E s" "heap t = (heap s)(fresh s \<mapsto> b)" "allocated_blocks t = allocated_blocks s"
  shows "allocs t = allocs s"
proof
  fix p show "allocs t p = allocs s p"
  proof (cases "allocated_blocks s p")
    case (Some x)
    then have "x \<in> dom (heap s)" using alloc_wfD(4) [OF assms(1)] by (auto simp: alloc_ok_def)
    then have "x \<noteq> fresh s" using alloc_wfD(6) [OF assms(1)] by auto
    then show ?thesis using Some assms(2,3) by (simp add: allocs_def blk_def)
  qed (simp add: allocs_def assms(3))
qed

lemma new_segment_usable:
  assumes "got segs A L n (cudaSuccess, p) s" "0 < n" "sz \<le> n" "0 \<le> dev" "nat dev < L"
    "t = s\<lparr>device_stats := (device_stats s)[nat dev := increaseCached n (device_stats s ! nat dev)],
       heap := (heap s)(fresh s \<mapsto> new_Block dev str n (Some pool) p), fresh := Suc (fresh s)\<rparr>"
  shows "usable segs A L pool dev str sz (fresh s) t"
proof -
  from assms(1) obtain S where S: "kept (\<lambda>_. S) A L {} (cuda_events s) s" "segs (driver s) = insert (p, n) S" "0 < p"
    "p + n \<le> 2 ^ 64" "\<forall>x\<in>S. p + n \<le> fst x \<or> fst x + snd x \<le> p" by (auto simp: got_def)
  then have W: "alloc_wf (\<lambda>_. S) {} (cuda_events s) s" "length (device_stats s) = L" "allocs s = A" by (auto simp: kept_def)
  have "alloc_wf segs {fresh s} (cuda_events s) t"
    by (rule wf_new_segment [OF W(1) S(3) assms(2) S(4,5) assms(4)]) (use assms S(2) W(2) in auto)
  moreover have "allocs t = A" using allocs_insert_fresh [OF W(1), of t] W(3) assms(6) by simp
  ultimately show ?thesis unfolding usable_def
    using assms(3,6) W(2) by (simp add: kept_def new_Block_def isfree_def lonely_def)
qed

lemma out_of_memory_ok:
  assumes "cuda_contract api segs" "0 \<le> dev" "nat dev < L" "A \<subseteq>\<^sub>m B"
  shows "triple (ok segs A L) (seqm (cuda_call (cudaGetLastError api)) (bindm (C10_CUDA_CHECK api (cudaMemGetInfo api)) (\<lambda>_.
     seqm (get_stats_for_device dev) (throw CUDA_OOM)))) (\<lambda>(_ :: unit) _. False) (exn_ok segs (Some B))"
proof -
  have get: "triple (ok segs A L) (get_stats_for_device dev) (\<lambda>_. ok segs A L) (exn_ok segs (Some B))"
    using assms(2,3) by (auto simp: triple_def get_stats_for_device_def run_defs kept_def)
  have "triple (ok segs A L) (throw CUDA_OOM) (\<lambda>(_ :: unit) _. False) (exn_ok segs (Some B))"
    using assms(4) by (auto simp: triple_def exn_ok_def allocator_inv_def kept_def)
  from triple_seq [OF get this] show ?thesis
    by (intro triple_seq [OF ok_call [OF contract_keeps(3) [OF assms(1)]]]
        triple_bind [OF ok_check [OF contract_keeps(4) [OF assms(1)]]])
qed

lemma add_segment_ok:
  assumes "0 < n" "sz \<le> n" "0 \<le> dev" "nat dev < L"
  shows "triple (got segs A L n (cudaSuccess, p))
    (seqm (upd_stats_ref L dev (increaseCached n)) (new_block (new_Block dev str n (Some pool) p)))
    (usable segs A L pool dev str sz) Err"
proof (rule triple_run [where f = fresh and g = "\<lambda>s. s\<lparr>device_stats := (device_stats s)[nat dev := increaseCached n (device_stats s ! nat dev)],
       heap := (heap s)(fresh s \<mapsto> new_Block dev str n (Some pool) p), fresh := Suc (fresh s)\<rparr>"], intro conjI)
  fix s assume s: "got segs A L n (cudaSuccess, p) s"
  then have "length (device_stats s) = L" by (auto simp: got_def kept_def)
  then show "seqm (upd_stats_ref L dev (increaseCached n)) (new_block (new_Block dev str n (Some pool) p)) s =
      (Inr (fresh s), s\<lparr>device_stats := (device_stats s)[nat dev := increaseCached n (device_stats s ! nat dev)],
        heap := (heap s)(fresh s \<mapsto> new_Block dev str n (Some pool) p), fresh := Suc (fresh s)\<rparr>)"
    by (simp add: run_defs upd_stats_ref_def upd_stats_def new_block_def)
  show "usable segs A L pool dev str sz (fresh s) (s\<lparr>device_stats := (device_stats s)[nat dev := increaseCached n (device_stats s ! nat dev)],
      heap := (heap s)(fresh s \<mapsto> new_Block dev str n (Some pool) p), fresh := Suc (fresh s)\<rparr>)"
    by (rule new_segment_usable [OF s assms refl])
qed

lemma malloc_segment_ok:
  assumes "cuda_contract api segs" "0 < get_allocation_size sz" "sz \<le> get_allocation_size sz" "0 \<le> dev" "nat dev < L" "A \<subseteq>\<^sub>m B"
  shows "triple (ok segs A L) (malloc_segment api L pool dev str sz)
    (\<lambda>i. usable segs A L pool dev str sz i) (exn_ok segs (Some B))"
  unfolding malloc_segment_def Let_def
proof (rule triple_bind [OF cuda_malloc_retry_ok [OF assms(1,2)]])
  fix r :: "cudaError \<times> nat"
  obtain err p where r: "r = (err, p)" by fastforce
  let ?n = "get_allocation_size sz"
  let ?oom = "seqm (cuda_call (cudaGetLastError api)) (bindm (C10_CUDA_CHECK api (cudaMemGetInfo api)) (\<lambda>_.
     seqm (get_stats_for_device dev) (throw CUDA_OOM)))"
  have check: "triple (got segs A L ?n r) (if err = cudaSuccess then ret () else if err = cudaErrorMemoryAllocation then ?oom
      else cuda_error_check api err) (\<lambda>_ s. err = cudaSuccess \<and> got segs A L ?n r s) (exn_ok segs (Some B))"
  proof (cases "err = cudaSuccess")
    case True
    then show ?thesis by (simp add: triple_def)
  next
    case False
    have "triple (got segs A L ?n r) ?oom (\<lambda>(_ :: unit) s. err = cudaSuccess \<and> got segs A L ?n r s) (exn_ok segs (Some B))"
      by (rule triple_conseq [OF out_of_memory_ok [OF assms(1,4-6)]]) (use False r in \<open>auto simp: got_def\<close>)
    then show ?thesis using False triple_error_check [of "got segs A L ?n r" api err segs "Some B"] by simp
  qed
  show "triple (got segs A L ?n r) (case r of (err, p) \<Rightarrow> seqm
       (if err = cudaSuccess then ret () else if err = cudaErrorMemoryAllocation then ?oom else cuda_error_check api err)
       (seqm (upd_stats_ref L dev (increaseCached ?n)) (new_block (new_Block dev str ?n (Some pool) p))))
      (usable segs A L pool dev str sz) (exn_ok segs (Some B))"
    unfolding r prod.case
    by (rule triple_seq [OF check [unfolded r]], rule triple_pull, simp, rule add_segment_ok [OF assms(2-5)])
qed

section \<open>Splitting and handing out\<close>

definition ready :: "('d \<Rightarrow> (nat \<times> nat) set) \<Rightarrow> (nat \<Rightarrow> (nat \<times> int \<times> nat) option) \<Rightarrow> nat \<Rightarrow> int \<Rightarrow> nat \<Rightarrow> nat \<Rightarrow> nat \<Rightarrow>
    'd THCCachingAllocator \<Rightarrow> bool" where
  "ready segs A L dev str sz i s \<longleftrightarrow> kept segs A L {i} (cuda_events s) s \<and>
     (\<exists>b. heap s i = Some b \<and> isfree b \<and> b_stream_uses b = [] \<and> b_device b = dev \<and> b_stream b = str \<and> sz \<le> b_size b)"

lemma usable_ready: "usable segs A L pool dev str sz i s \<Longrightarrow> ready segs A L dev str sz i s"
  by (auto simp: usable_def ready_def)

lemma allocs_split:
  assumes "alloc_wf segs {r} E s" "heap s r = Some b" "isfree b" "heap t = split_heap r b sz (fresh s) (heap s)"
    "allocated_blocks t = allocated_blocks s"
  shows "allocs t = allocs s"
proof
  fix p show "allocs t p = allocs s p"
  proof (cases "allocated_blocks s p")
    case (Some x)
    then obtain c where c: "heap s x = Some c" "b_allocated c" using alloc_wfD(4) [OF assms(1)] by (auto simp: alloc_ok_def)
    then have "x \<noteq> fresh s" "x \<noteq> r" using alloc_wfD(6) [OF assms(1)] assms(2,3) by (auto simp: isfree_def)
    then show ?thesis using Some c assms(4,5) by (simp add: allocs_def blk_def split_heap_def relink_next_def)
  qed (simp add: allocs_def assms(5))
qed

lemma split_block_ok:
  "triple (\<lambda>s. usable segs A L pool dev str sz i s \<and> 0 < sz \<and> sz < b_size (blk (heap s) i))
     (split_block pool dev str sz i) (\<lambda>j. ready segs A L dev str sz j) Err"
proof -
  have "\<exists>t. split_block pool dev str sz i s = (Inr (fresh s), t) \<and> ready segs A L dev str sz (fresh s) t"
    if "usable segs A L pool dev str sz i s" and sz: "0 < sz" "sz < b_size (blk (heap s) i)" for s
  proof -
    let ?n = "fresh s"
    from that(1) obtain b where b: "heap s i = Some b" "isfree b" "b_stream_uses b = []" "b_pool b = Some pool" "b_device b = dev"
      "b_stream b = str" "sz \<le> b_size b" "lonely (heap s) b" and K: "kept segs A L {i} (cuda_events s) s" by (auto simp: usable_def)
    have W: "alloc_wf segs {i} (cuda_events s) s" and AL: "allocs s = A" "length (device_stats s) = L" using K by (auto simp: kept_def)
    note D = alloc_wfD [OF W]
    have H: "geometry_ok (heap s)" "links_ok (heap s)" using D(1) by (auto simp: heap_ok_def)
    have n: "heap s ?n = None" using D(6) by (metis domIff less_irrefl)
    have in': "i \<noteq> ?n" using n b(1) by auto
    have live: "heap s k \<noteq> None \<and> k \<noteq> ?n" if "b_prev b = Some k" for k using links_live [OF H(2) b(1), of k] that n by auto
    have pn: "b_prev b \<noteq> Some ?n" "b_prev b \<noteq> Some i" using live no_self_link [OF H b(1)] by auto
    have sm: "b_ptr b + sz < 2 ^ 64" "b_size b < 2 ^ 64" using geometry_okD [OF H(1) b(1)] sz b(1) by auto
    have N: "(new_Block dev str sz (Some pool) (b_ptr b))\<lparr>b_prev := b_prev b, b_next := Some i\<rparr> = b\<lparr>b_size := sz, b_next := Some i\<rparr>"
      using b by (cases b) (simp add: new_Block_def isfree_def)
    define h where "h = split_heap i b sz ?n (heap s)"
    define t where "t = upd_pool pool (pool_insert h i) (s\<lparr>fresh := Suc ?n, heap := h\<rparr>)"
    have run: "split_block pool dev str sz i s = (Inr ?n, t)"
      using b(1,7) in' live pn sm N
      by (simp add: split_block_def run_defs new_block_def relink_next_run relink_next_upd [symmetric] insert_into_pool_def t_def h_def
          split_heap_def fun_upd_twist)
    have "alloc_wf segs {?n} (cuda_events s) t"
      by (rule wf_split [OF W b(1,2,4,8,3) sz(1)]) (use sz(2) b(1) in \<open>auto simp: t_def h_def\<close>)
    moreover have "allocs t = A" using allocs_split [OF W b(1,2), of t sz] AL(1) by (simp add: t_def h_def)
    moreover have "heap t ?n = Some (b\<lparr>b_size := sz, b_next := Some i\<rparr>)" using in' by (simp add: t_def h_def split_heap_def)
    ultimately have "ready segs A L dev str sz ?n t" using b AL(2) by (simp add: ready_def kept_def t_def isfree_def)
    with run show ?thesis by blast
  qed
  then show ?thesis unfolding triple_def by fastforce
qed

lemma finish_malloc_ok:
  "triple (ready segs A L dev str sz i) (finish_malloc L dev i)
     (\<lambda>r s. \<exists>n. sz \<le> n \<and> A r = None \<and> ok segs (A(r \<mapsto> (n, dev, str))) L s) Err"
proof -
  have "\<exists>r t n. finish_malloc L dev i s = (Inr r, t) \<and> sz \<le> n \<and> A r = None \<and> ok segs (A(r \<mapsto> (n, dev, str))) L t"
    if s: "ready segs A L dev str sz i s" for s
  proof -
    from s obtain b where b: "heap s i = Some b" "isfree b" "b_stream_uses b = []" "b_device b = dev"
      "b_stream b = str" "sz \<le> b_size b" and K: "kept segs A L {i} (cuda_events s) s" by (auto simp: ready_def)
    have W: "alloc_wf segs {i} (cuda_events s) s" and AL: "allocs s = A" "length (device_stats s) = L" using K by (auto simp: kept_def)
    note D = alloc_wfD [OF W]
    have na: "\<not> b_allocated b" using b(2) by (simp add: isfree_def)
    let ?d = "b\<lparr>b_allocated := True\<rparr>"
    let ?t = "s\<lparr>heap := (heap s)(i \<mapsto> ?d), allocated_blocks := (allocated_blocks s)(b_ptr b \<mapsto> i),
       device_stats := (device_stats s)[nat dev := increaseAllocated (b_size b) (device_stats s ! nat dev)]\<rparr>"
    have g: "same_geometry ?d b" by (simp add: same_geometry_def same_segment_def)
    have "alloc_wf segs {i} (cuda_events s) ?t"
    proof (rule wf_upd_block [OF W _ b(1) g])
      show "alloc_ok (heap ?t) (allocated_blocks ?t)" using alloc_ok_mark [OF D(4,1) b(1), of ?d] by simp
      show "stats_ok (heap ?t) (device_stats ?t)" using stats_ok_mark [OF D(7,1,8) b(1) na g] b(4) by simp
    qed (use events_okD [OF D(5) b(1)] b in \<open>auto simp: block_events_def isfree_def\<close>)
    then have "alloc_wf segs {} (cuda_events s) ?t" by (rule wf_not_free [of _ i _ _ ?d]) (auto simp: isfree_def)
    moreover have none: "allocated_blocks s (b_ptr b) = None"
    proof (rule ccontr)
      assume "allocated_blocks s (b_ptr b) \<noteq> None"
      then obtain x c where c: "heap s x = Some c" "b_allocated c" "b_ptr c = b_ptr b" using D(4) by (auto simp: alloc_ok_def)
      with ptr_inj [OF D(1) c(1) b(1)] b(1) na show False by auto
    qed
    moreover have "allocs ?t = A(b_ptr b \<mapsto> (b_size b, dev, str))"
    proof
      fix q show "allocs ?t q = (A(b_ptr b \<mapsto> (b_size b, dev, str))) q"
      proof (cases "q = b_ptr b")
        case False
        then have "allocated_blocks s q \<noteq> Some i" using D(4) b(1) by (auto simp: alloc_ok_def)
        then show ?thesis using False AL(1) by (cases "allocated_blocks s q") (auto simp: allocs_def blk_def)
      qed (use b in \<open>simp add: allocs_def\<close>)
    qed
    ultimately have "ok segs (A(b_ptr b \<mapsto> (b_size b, dev, str))) L ?t" using AL by (simp add: kept_def)
    moreover have "finish_malloc L dev i s = (Inr (b_ptr b), ?t)"
      using b AL(2) by (simp add: finish_malloc_def run_defs upd_stats_ref_def upd_stats_def)
    moreover have "A (b_ptr b) = None" using none AL(1) by (auto simp: allocs_def)
    ultimately show ?thesis using b(6) by blast
  qed
  then show ?thesis unfolding triple_def by fastforce
qed

section \<open>Sizes\<close>

lemma round_up:
  assumes "0 < (k :: nat)"
  shows "n \<le> k * ((n + k - 1) div k)" "k * ((n + k - 1) div k) < n + k"
proof -
  have m: "k * ((n + k - 1) div k) + (n + k - 1) mod k = n + k - 1" by simp
  have "(n + k - 1) mod k \<le> k - 1" using assms by (simp add: Suc_leI less_Suc_eq_le [symmetric] mod_less_divisor)
  with m assms show "n \<le> k * ((n + k - 1) div k)" by linarith
  from m assms show "k * ((n + k - 1) div k) < n + k" by linarith
qed

lemma round_size_bounds:
  assumes "n + kMinBlockSize \<le> 2 ^ 64"
  shows "n \<le> round_size n" "0 < round_size n" "round_size n < n + kMinBlockSize \<or> n < kMinBlockSize \<and> round_size n = kMinBlockSize"
  using round_up [of kMinBlockSize n] assms by (auto simp: round_size_def add64_def k_defs)

lemma get_allocation_size_bounds:
  assumes "n + kRoundLarge \<le> 2 ^ 64" "0 < n"
  shows "n \<le> get_allocation_size n" "0 < get_allocation_size n"
  using round_up [of kRoundLarge n] assms by (auto simp: get_allocation_size_def add64_def k_defs)

lemma request_bounds:
  assumes "req + 2 * kRoundLarge \<le> 2 ^ 64"
  shows "req \<le> round_size req" "0 < round_size req" "round_size req \<le> get_allocation_size (round_size req)"
    "0 < get_allocation_size (round_size req)"
proof -
  have "req + kMinBlockSize \<le> 2 ^ 64" using assms by (simp add: k_defs)
  note r = round_size_bounds [OF this]
  show "req \<le> round_size req" "0 < round_size req" by (rule r)+
  have "round_size req + kRoundLarge \<le> 2 ^ 64" using r(3) assms by (auto simp: k_defs)
  from get_allocation_size_bounds [OF this r(2)]
  show "round_size req \<le> get_allocation_size (round_size req)" "0 < get_allocation_size (round_size req)" .
qed

section \<open>malloc\<close>

lemma get_stats_ok:
  assumes "0 \<le> dev"
  shows "triple (ok segs A L) (get_stats_for_device dev) (\<lambda>_ s. \<exists>L'. nat dev < L' \<and> ok segs A L' s) Err"
proof (rule triple_run [where f = "\<lambda>_. ()" and g = "\<lambda>s. s\<lparr>device_stats :=
    device_stats s @ replicate (nat dev + 1 - length (device_stats s)) new_DeviceStats\<rparr>"], intro conjI)
  fix s assume s: "ok segs A L s"
  let ?t = "s\<lparr>device_stats := device_stats s @ replicate (nat dev + 1 - length (device_stats s)) new_DeviceStats\<rparr>"
  show "get_stats_for_device dev s = (Inr (), ?t)" using assms by (simp add: get_stats_for_device_def run_defs)
  have "ok segs A (length (device_stats ?t)) ?t" using s stats_ok_grow by (simp add: kept_def alloc_wf_def)
  moreover have "nat dev < length (device_stats ?t)" by simp
  ultimately show "\<exists>L'. nat dev < L' \<and> ok segs A L' ?t" by blast
qed

lemma should_split_ok:
  assumes "usable segs A L pool dev str sz i s" "heap s i = Some b" "0 < sz"
  shows "\<exists>c. should_split b sz = Inr c \<and> (c \<longrightarrow> sz < b_size b)"
proof -
  have b: "sz \<le> b_size b" "b_pool b = Some pool" using assms by (auto simp: usable_def)
  have "b_size b < 2 ^ 64" using assms(1,2) geometry_okD [of "heap s" i b] alloc_wfD(1)
    by (fastforce simp: usable_def kept_def heap_ok_def)
  then show ?thesis using b by (cases pool) (auto simp: should_split_def Let_def k_defs)
qed

lemma hand_out_ok:
  assumes "0 < sz"
  shows "triple (usable segs A L pool dev str sz i) (hand_out L pool dev str sz i)
    (\<lambda>r s. \<exists>n. sz \<le> n \<and> A r = None \<and> ok segs (A(r \<mapsto> (n, dev, str))) L s) Err"
proof -
  let ?Q = "\<lambda>r s. \<exists>n. sz \<le> n \<and> A r = None \<and> ok segs (A(r \<mapsto> (n, dev, str))) L s"
  have "case hand_out L pool dev str sz i s of (Inr r, t) \<Rightarrow> ?Q r t | (Inl e, t) \<Rightarrow> Err e t"
    if s: "usable segs A L pool dev str sz i s" for s
  proof -
    from s obtain b where b: "heap s i = Some b" by (auto simp: usable_def)
    from should_split_ok [OF s b assms] obtain c where c: "should_split b sz = Inr c" "c \<longrightarrow> sz < b_size b" by blast
    have split: "triple (\<lambda>s'. s' = s) (if c then split_block pool dev str sz i else ret i) (\<lambda>j. ready segs A L dev str sz j) Err"
    proof (cases c)
      case True
      then show ?thesis using s b c(2) assms by (auto intro: triple_pre [OF split_block_ok])
    next
      case False
      then show ?thesis using usable_ready [OF s] by (simp add: triple_def)
    qed
    from triple_bind [OF split finish_malloc_ok] show ?thesis
      using b c(1) by (simp add: triple_def bindm_def lift_result_def hand_out_def)
  qed
  then show ?thesis by (simp add: triple_def)
qed

text \<open>The outcome of the search for a cached block, after the callbacks may have freed some allocations.\<close>

definition searched :: "('d \<Rightarrow> (nat \<times> nat) set) \<Rightarrow> (nat \<Rightarrow> (nat \<times> int \<times> nat) option) \<Rightarrow> nat \<Rightarrow> PoolId \<Rightarrow> int \<Rightarrow> nat \<Rightarrow> nat \<Rightarrow>
    nat option \<Rightarrow> 'd THCCachingAllocator \<Rightarrow> bool" where
  "searched segs A L pool dev str sz found s \<longleftrightarrow> (\<exists>A'. A' \<subseteq>\<^sub>m A \<and>
     (case found of None \<Rightarrow> ok segs A' L s | Some i \<Rightarrow> usable segs A' L pool dev str sz i s))"

lemma find_free_block_searched:
  "triple (\<lambda>s. \<exists>A'. A' \<subseteq>\<^sub>m A \<and> ok segs A' L s) (find_free_block pool dev str sz) (searched segs A L pool dev str sz) Err"
  by (intro triple_ex triple_pull triple_post [OF find_free_block_ok]) (auto simp: searched_def)

lemma retry_search_ok:
  assumes "callbacks_ok segs callbacks"
  shows "triple (searched segs A L pool dev str sz found)
    (case found of Some i \<Rightarrow> ret found | None \<Rightarrow> bindm (run_callbacks callbacks False) (\<lambda>freed_memory.
       if freed_memory then find_free_block pool dev str sz else ret None))
    (searched segs A L pool dev str sz) (exn_ok segs (Some A))"
proof (cases found)
  case None
  have "triple (\<lambda>s. \<exists>A'. A' \<subseteq>\<^sub>m A \<and> ok segs A' L s) (if freed then find_free_block pool dev str sz else ret None)
      (searched segs A L pool dev str sz) (exn_ok segs (Some A))" for freed
    by (rule triple_if [OF find_free_block_searched triple_ret]) (simp add: searched_def)
  then have "triple (\<lambda>s. \<exists>A'. A' \<subseteq>\<^sub>m A \<and> ok segs A' L s) (bindm (run_callbacks callbacks False) (\<lambda>freed_memory.
       if freed_memory then find_free_block pool dev str sz else ret None)) (searched segs A L pool dev str sz) (exn_ok segs (Some A))"
    by (rule triple_bind [OF run_callbacks_ok [OF assms]])
  then show ?thesis unfolding None option.case by (rule triple_pre) (simp add: searched_def)
next
  case (Some i)
  then show ?thesis by (simp add: triple_def)
qed

text \<open>What \<open>malloc\<close> returns: an address outside the remaining allocations with at least the requested size.\<close>

definition allocated :: "('d \<Rightarrow> (nat \<times> nat) set) \<Rightarrow> (nat \<Rightarrow> (nat \<times> int \<times> nat) option) \<Rightarrow> nat \<Rightarrow> int \<Rightarrow> nat \<Rightarrow> nat \<Rightarrow> 'd THCCachingAllocator \<Rightarrow> bool" where
  "allocated segs A req dev str r s \<longleftrightarrow>
     (\<exists>A' L n. A' \<subseteq>\<^sub>m A \<and> A' r = None \<and> req \<le> n \<and> ok segs (A'(r \<mapsto> (n, dev, str))) L s)"

lemma acquire_block_ok:
  assumes "cuda_contract api segs" "callbacks_ok segs callbacks" "0 < get_allocation_size sz" "sz \<le> get_allocation_size sz"
    "0 \<le> dev" "nat dev < L"
  shows "triple (ok segs A L) (acquire_block api callbacks L pool dev str sz)
    (\<lambda>i s. \<exists>A'. A' \<subseteq>\<^sub>m A \<and> usable segs A' L pool dev str sz i s) (exn_ok segs (Some A))"
  unfolding acquire_block_def
proof (rule triple_bind)
  show "triple (ok segs A L) (find_free_block pool dev str sz) (searched segs A L pool dev str sz) (exn_ok segs (Some A))"
    by (rule triple_pre [OF find_free_block_searched]) (use map_le_refl in blast)
  fix found
  have "triple (searched segs A L pool dev str sz found)
      (case found of None \<Rightarrow> malloc_segment api L pool dev str sz | Some i \<Rightarrow> ret i)
      (\<lambda>i s. \<exists>A'. A' \<subseteq>\<^sub>m A \<and> usable segs A' L pool dev str sz i s) (exn_ok segs (Some A))" for found
  proof (cases found)
    case None
    have "triple (ok segs A' L) (malloc_segment api L pool dev str sz)
        (\<lambda>i s. \<exists>A'. A' \<subseteq>\<^sub>m A \<and> usable segs A' L pool dev str sz i s) (exn_ok segs (Some A))" if "A' \<subseteq>\<^sub>m A" for A'
      by (rule triple_post [OF malloc_segment_ok [OF assms(1,3-6) that]]) (use that in blast)
    then show ?thesis using None unfolding searched_def by (auto intro!: triple_ex triple_pull)
  next
    case (Some i)
    then show ?thesis by (simp add: triple_def searched_def)
  qed
  then show "triple (searched segs A L pool dev str sz found)
    (bindm (case found of None \<Rightarrow> bindm (run_callbacks callbacks False) (\<lambda>freed_memory.
        if freed_memory then find_free_block pool dev str sz else ret None) | Some i \<Rightarrow> ret found)
      (\<lambda>found. case found of None \<Rightarrow> malloc_segment api L pool dev str sz | Some i \<Rightarrow> ret i))
    (\<lambda>i s. \<exists>A'. A' \<subseteq>\<^sub>m A \<and> usable segs A' L pool dev str sz i s) (exn_ok segs (Some A))"
    by (rule triple_bind [OF retry_search_ok [OF assms(2)]])
qed

lemma serve_ok:
  assumes "cuda_contract api segs" "callbacks_ok segs callbacks" "req + 2 * kRoundLarge \<le> 2 ^ 64" "0 \<le> dev" "nat dev < L"
  shows "triple (ok segs A L)
    (bindm (acquire_block api callbacks L pool dev str (round_size req)) (hand_out L pool dev str (round_size req)))
    (allocated segs A req dev str) (exn_ok segs (Some A))"
proof (rule triple_bind [OF acquire_block_ok])
  note rb = request_bounds [OF assms(3)]
  show "0 < get_allocation_size (round_size req)" "round_size req \<le> get_allocation_size (round_size req)" by (rule rb)+
  fix i
  have "triple (usable segs A' L pool dev str (round_size req) i) (hand_out L pool dev str (round_size req) i)
      (allocated segs A req dev str) (exn_ok segs (Some A))" if "A' \<subseteq>\<^sub>m A" for A'
    by (rule triple_post [OF hand_out_ok [OF rb(2)]]) (use that rb(1) order_trans in \<open>unfold allocated_def, blast\<close>)
  then show "triple (\<lambda>s. \<exists>A'. A' \<subseteq>\<^sub>m A \<and> usable segs A' L pool dev str (round_size req) i s)
      (hand_out L pool dev str (round_size req) i) (allocated segs A req dev str) (exn_ok segs (Some A))"
    by (intro triple_ex triple_pull)
qed (use assms in auto)

lemma malloc_ok:
  assumes "cuda_contract api segs" "callbacks_ok segs callbacks" "req + 2 * kRoundLarge \<le> 2 ^ 64"
  shows "triple (\<lambda>s. ok segs A L s \<and> snd (fst (cudaGetDevice api (driver s))) = dev) (malloc api callbacks req str)
    (allocated segs A req dev str) (exn_ok segs (Some A))"
  unfolding malloc_def Let_def
proof (rule triple_bind [where R = "\<lambda>x s. (x = dev \<and> 0 \<le> dev) \<and> ok segs A L s"])
  show "triple (\<lambda>s. ok segs A L s \<and> snd (fst (cudaGetDevice api (driver s))) = dev) (C10_CUDA_CHECK api (cudaGetDevice api))
    (\<lambda>x s. (x = dev \<and> 0 \<le> dev) \<and> ok segs A L s) (exn_ok segs (Some A))"
  proof (rule triple_check)
    fix s d x assume s: "ok segs A L s \<and> snd (fst (cudaGetDevice api (driver s))) = dev" "cudaGetDevice api (driver s) = ((cudaSuccess, x), d)"
    have "segs d = segs (driver s)" using s contract_keeps(1) [OF assms(1)] unfolding keeps_def by (metis snd_conv)
    moreover have "0 \<le> x" using s assms(1) unfolding cuda_contract_def by blast
    ultimately show "(x = dev \<and> 0 \<le> dev) \<and> ok segs A L (s\<lparr>driver := d\<rparr>)" using s by (simp add: kept_driver)
  qed
next
  fix x
  let ?sz = "round_size req" and ?pool = "get_pool (round_size req)"
  show "triple (\<lambda>s. (x = dev \<and> 0 \<le> dev) \<and> ok segs A L s)
    (seqm (process_events api) (seqm (get_stats_for_device x) (bindm (gets (\<lambda>s. length (device_stats s))) (\<lambda>stats.
       bindm (acquire_block api callbacks stats ?pool x str ?sz) (hand_out stats ?pool x str ?sz)))))
    (allocated segs A req dev str) (exn_ok segs (Some A))"
  proof (rule triple_pull, elim conjE, hypsubst, rule triple_seq [OF process_events_ok [OF assms(1)]],
      rule triple_seq [OF get_stats_ok], assumption, intro triple_ex triple_pull)
    fix L' assume d: "0 \<le> dev" "nat dev < L'"
    have "triple (ok segs A L') (gets (\<lambda>s. length (device_stats s))) (\<lambda>n s. n = L' \<and> ok segs A L' s) (exn_ok segs (Some A))"
      by (rule triple_gets) (simp add: kept_def)
    then show "triple (ok segs A L') (bindm (gets (\<lambda>s. length (device_stats s))) (\<lambda>stats.
       bindm (acquire_block api callbacks stats ?pool dev str ?sz) (hand_out stats ?pool dev str ?sz)))
      (allocated segs A req dev str) (exn_ok segs (Some A))"
      by (rule triple_bind) (rule triple_pull, simp only:, rule serve_ok [OF assms d])
  qed
qed

end
