(* ===== verification/Allocator_Properties.thy ===== *)
theory Allocator_Properties
  imports Allocator_Safety
begin

text \<open>
  The properties of the caching allocator, over its operations, and a concrete CUDA runtime that satisfies the
  contract.
\<close>

section \<open>A concrete runtime\<close>

text \<open>
  Its state is the list of live device allocations; \<open>cudaMalloc\<close> places a new one after all of them, events are always
  complete, and every other call succeeds.
\<close>

definition bump_end :: "(nat \<times> nat) list \<Rightarrow> nat" where
  "bump_end d = foldr (\<lambda>(p, n) m. max (p + n) m) d 1"

definition bump_api :: "(nat \<times> nat) list cuda_api" where
  "bump_api = \<lparr>
     cudaGetDevice = (\<lambda>d. ((cudaSuccess, 0), d)),
     cudaSetDevice = (\<lambda>x d. ((cudaSuccess, ()), d)),
     cudaGetLastError = (\<lambda>d. ((cudaSuccess, ()), d)),
     cudaMalloc = (\<lambda>n d. if 0 < n \<and> bump_end d + n \<le> 2 ^ 64 then ((cudaSuccess, bump_end d), (bump_end d, n) # d)
       else ((cudaErrorMemoryAllocation, 0), d)),
     cudaFree = (\<lambda>p d. ((cudaSuccess, ()), filter (\<lambda>x. fst x \<noteq> p) d)),
     cudaMemGetInfo = (\<lambda>d. ((cudaSuccess, (0, 0)), d)),
     cudaEventCreateWithFlags = (\<lambda>d. ((cudaSuccess, 0), d)),
     cudaEventRecord = (\<lambda>e x d. ((cudaSuccess, ()), d)),
     cudaEventQuery = (\<lambda>e d. ((cudaSuccess, ()), d)),
     cudaEventSynchronize = (\<lambda>e d. ((cudaSuccess, ()), d)),
     cudaEventDestroy = (\<lambda>e d. ((cudaSuccess, ()), d))\<rparr>"

lemmas prim_defs = run_defs deref_def upd_block_def new_block_def delete_block_def upd_stats_def upd_stats_ref_def
  get_stats_for_device_def cuda_call_def cuda_error_check_def C10_CUDA_CHECK_def insert_into_pool_def erase_from_pool_def
  pool_of_def upd_pool_def blk_def new_Block_def search_key_def pool_lower_bound_def pool_erase_def BlockComparator_def
  lift_result_def add64_def sub64_def k_defs

lemmas malloc_defs = malloc_def process_events_def round_size_def get_pool_def acquire_block_def find_free_block_def
  malloc_segment_def get_allocation_size_def cuda_malloc_retry_def hand_out_def should_split_def split_block_def
  finish_malloc_def new_DeviceStats_def increaseCached_def increaseAllocated_def

lemmas alloc_eval = prim_defs malloc_defs bump_api_def bump_end_def new_THCCachingAllocator_def

lemma bump_end_above: "(p, n) \<in> set d \<Longrightarrow> p + n \<le> bump_end d"
  by (induction d) (auto simp: bump_end_def)

lemma bump_end_pos: "0 < bump_end d"
  by (induction d) (auto simp: bump_end_def)

lemma bump_contract: "cuda_contract bump_api set"
  using bump_end_above bump_end_pos by (auto simp: cuda_contract_def bump_api_def keeps_def split: if_splits)

section \<open>The initial state\<close>

lemma initial_inv: "segs d = {} \<Longrightarrow> allocator_inv segs (new_THCCachingAllocator d)"
  by (simp add: allocator_inv_def alloc_wf_def new_THCCachingAllocator_def heap_ok_def geometry_ok_def links_ok_def
      disjoint_ok_def segments_disjoint_def segs_ok_def coal_ok_def pool_ok_def sorted_pool_def alloc_ok_def events_ok_def
      stats_ok_def pool_of_def split: PoolId.splits)

lemma ok_iff_inv: "(\<exists>L. ok segs A L s) \<longleftrightarrow> allocator_inv segs s \<and> allocs s = A"
  by (auto simp: kept_def allocator_inv_def)

lemma inv_ok: "allocator_inv segs s \<Longrightarrow> ok segs (allocs s) (length (device_stats s)) s"
  by (simp add: kept_def allocator_inv_def)

lemma ok_inv: "ok segs A L s \<Longrightarrow> allocator_inv segs s \<and> allocs s = A"
  by (simp add: kept_def allocator_inv_def)

lemma allocs_block:
  assumes "allocator_inv segs s" "allocs s p = Some (n, dev, str)"
  obtains i b where "heap s i = Some b" "b_allocated b" "b_ptr b = p" "b_size b = n" "b_device b = dev" "b_stream b = str"
proof -
  from assms(2) obtain i where i: "allocated_blocks s p = Some i"
    "(b_size (blk (heap s) i), b_device (blk (heap s) i), b_stream (blk (heap s) i)) = (n, dev, str)" by (auto simp: allocs_def)
  from alloc_wfD(4) [OF assms(1) [unfolded allocator_inv_def]] i(1) obtain b where "heap s i = Some b" "b_allocated b" "b_ptr b = p"
    by (auto simp: alloc_ok_def)
  with i(2) that show thesis by simp
qed

lemma allocs_disjoint:
  assumes "allocator_inv segs s" "allocs s p = Some (n, x)" "allocs s q = Some (m, y)" "p \<noteq> q"
  shows "p + n \<le> q \<or> q + m \<le> p"
proof -
  obtain d1 s1 d2 s2 where xy: "x = (d1, s1)" "y = (d2, s2)" by fastforce
  obtain i b where b: "heap s i = Some b" "b_ptr b = p" "b_size b = n" using allocs_block [OF assms(1) assms(2) [unfolded xy]] by metis
  obtain j c where c: "heap s j = Some c" "b_ptr c = q" "b_size c = m" using allocs_block [OF assms(1) assms(3) [unfolded xy]] by metis
  have "i \<noteq> j" using b c assms(4) by auto
  then show ?thesis
    using disjoint_okD [of "heap s" i b j c] b c alloc_wfD(1) [OF assms(1) [unfolded allocator_inv_def]] by (simp add: heap_ok_def)
qed

section \<open>Properties\<close>

text \<open>
  Property C1. \<open>malloc\<close> is memory-safe. From any state that satisfies the invariant, with a runtime that behaves as
  documented and callbacks that only free allocations, a request that is not within 4 MiB of the end of the address space
  either returns an address with at least the requested bytes that overlaps no other allocation, on the current device and
  the requested stream, the other allocations being the ones before less what the callbacks freed; or it throws the
  out-of-memory error or reports a CUDA error. It never fails an assertion and never follows a deleted block. The invariant
  holds again after a return and after the out-of-memory error.
\<close>

theorem malloc_safe:
  assumes "cuda_contract api segs" and "callbacks_ok segs callbacks" and "allocator_inv segs s"
    and "req + 2 * kRoundLarge \<le> 2 ^ 64"
  shows "case malloc api callbacks req str s of
      (Inr r, t) \<Rightarrow> allocator_inv segs t \<and> (\<exists>A n. A \<subseteq>\<^sub>m allocs s \<and> A r = None \<and> req \<le> n \<and>
        allocs t = A(r \<mapsto> (n, snd (fst (cudaGetDevice api (driver s))), str)) \<and>
        (\<forall>q m x. A q = Some (m, x) \<longrightarrow> r + n \<le> q \<or> q + m \<le> r))
    | (Inl e, t) \<Rightarrow> e = CUDA_error \<or> e = CUDA_OOM \<and> allocator_inv segs t \<and> allocs t \<subseteq>\<^sub>m allocs s"
proof -
  let ?dev = "snd (fst (cudaGetDevice api (driver s)))"
  from malloc_ok [OF assms(1,2,4), of "allocs s" "length (device_stats s)" ?dev str] inv_ok [OF assms(3)]
  have run: "case malloc api callbacks req str s of (Inr r, t) \<Rightarrow> allocated segs (allocs s) req ?dev str r t
      | (Inl e, t) \<Rightarrow> exn_ok segs (Some (allocs s)) e t" by (simp add: triple_def)
  have "allocator_inv segs t \<and> (\<exists>A n. A \<subseteq>\<^sub>m allocs s \<and> A r = None \<and> req \<le> n \<and> allocs t = A(r \<mapsto> (n, ?dev, str)) \<and>
      (\<forall>q m x. A q = Some (m, x) \<longrightarrow> r + n \<le> q \<or> q + m \<le> r))" if "allocated segs (allocs s) req ?dev str r t" for r t
  proof -
    from that obtain A L n where A: "A \<subseteq>\<^sub>m allocs s" "A r = None" "req \<le> n" "ok segs (A(r \<mapsto> (n, ?dev, str))) L t"
      unfolding allocated_def by blast
    from ok_inv [OF A(4)] have t: "allocator_inv segs t" "allocs t = A(r \<mapsto> (n, ?dev, str))" by auto
    have "r + n \<le> q \<or> q + m \<le> r" if q: "A q = Some (m, x)" for q m x
    proof -
      have "r \<noteq> q" using q A(2) by auto
      then show ?thesis using allocs_disjoint [OF t(1), of r n "(?dev, str)" q m x] q t(2) by simp
    qed
    with A t show ?thesis by blast
  qed
  with run show ?thesis by (auto simp: exn_ok_def split: prod.splits sum.splits)
qed

theorem malloc_safe_witness:
  "\<exists>t A n. malloc bump_api [] 1000 7 (new_THCCachingAllocator []) = (Inr 1, t) \<and> allocator_inv set t \<and>
     1000 \<le> n \<and> allocs t = A(1 \<mapsto> (n, 0, 7))"
proof -
  let ?s = "new_THCCachingAllocator [] :: (nat \<times> nat) list THCCachingAllocator"
  have r: "fst (malloc bump_api [] 1000 7 ?s) = Inr 1" by (simp add: alloc_eval)
  have "callbacks_ok set ([] :: ((nat \<times> nat) list, bool) amon list)" by (simp add: callbacks_ok_def)
  moreover have "allocator_inv set ?s" by (rule initial_inv) simp
  ultimately have "case malloc bump_api [] 1000 7 ?s of
      (Inr r, t) \<Rightarrow> allocator_inv set t \<and> (\<exists>A n. A \<subseteq>\<^sub>m allocs ?s \<and> A r = None \<and> 1000 \<le> n \<and>
        allocs t = A(r \<mapsto> (n, snd (fst (cudaGetDevice bump_api (driver ?s))), 7)) \<and>
        (\<forall>q m x. A q = Some (m, x) \<longrightarrow> r + n \<le> q \<or> q + m \<le> r))
    | (Inl e, t) \<Rightarrow> e = CUDA_error \<or> e = CUDA_OOM \<and> allocator_inv set t \<and> allocs t \<subseteq>\<^sub>m allocs ?s"
    by (intro malloc_safe bump_contract) (simp_all add: k_defs)
  with r show ?thesis
    by (cases "malloc bump_api [] 1000 7 ?s") (auto simp: bump_api_def)
qed

text \<open>
  Property C11. \<open>free\<close> refines removal from the map of allocations: for an allocated address it returns with exactly that
  allocation gone and the invariant kept, or reports a CUDA error; for the null pointer it does nothing; for any other
  address it throws and leaves the state unchanged.
\<close>

theorem free_refines:
  assumes "cuda_contract api segs" and "allocator_inv segs s"
  shows "if p = 0 then free api p s = (Inr (), s)
    else if allocs s p = None then free api p s = (Inl (C10Error ''invalid device pointer''), s)
    else case free api p s of (Inr _, t) \<Rightarrow> allocator_inv segs t \<and> allocs t = (allocs s)(p := None)
      | (Inl e, t) \<Rightarrow> e = CUDA_error"
proof (cases "allocs s p = None")
  case True
  then show ?thesis by (simp add: free_def run_defs allocs_def)
next
  case False
  have "triple (ok segs (allocs s) (length (device_stats s))) (free api p)
      (\<lambda>_. ok segs ((allocs s)(p := None)) (length (device_stats s))) (exn_ok segs None)"
    by (rule free_ok [of api segs "allocs s"]) (use assms(1) False in auto)
  from this inv_ok [OF assms(2)]
  have "case free api p s of (Inr _, t) \<Rightarrow> allocator_inv segs t \<and> allocs t = (allocs s)(p := None) | (Inl e, t) \<Rightarrow> e = CUDA_error"
  proof (cases rule: triple_cases)
    case (ret x t)
    then show ?thesis using ok_inv by fastforce
  qed (simp add: exn_ok_def)
  moreover have "p = 0 \<Longrightarrow> free api p s = (Inr (), s)" by (simp add: free_def)
  ultimately show ?thesis using False by (cases "p = 0") auto
qed

theorem free_refines_witness:
  "free bump_api 5 (new_THCCachingAllocator []) = (Inl (C10Error ''invalid device pointer''), new_THCCachingAllocator []) \<and>
   free bump_api 0 (new_THCCachingAllocator []) = (Inr (), new_THCCachingAllocator [])"
  using free_refines [OF bump_contract initial_inv, of "[]" 5] free_refines [OF bump_contract initial_inv, of "[]" 0]
  by (simp add: allocs_def new_THCCachingAllocator_def)

section \<open>Emptying the cache\<close>

definition unsplit :: "PoolId \<Rightarrow> 'd THCCachingAllocator \<Rightarrow> nat set" where
  "unsplit q s = {i \<in> set (pool_of q s). \<exists>b. heap s i = Some b \<and> b_prev b = None \<and> b_next b = None}"

lemma triple_conj:
  "triple P m Q E \<Longrightarrow> triple P' m Q' E' \<Longrightarrow> triple (\<lambda>s. P s \<and> P' s) m (\<lambda>x s. Q x s \<and> Q' x s) (\<lambda>e s. E e s \<and> E' e s)"
  unfolding triple_def by (fastforce split: prod.splits sum.splits)

lemma free_unsplit_releases:
  "triple (\<lambda>s. (\<forall>q. unsplit q s \<subseteq> U q) \<and> cuda_events s = F) (free_unsplit api p i)
     (\<lambda>_ s. (\<forall>q. unsplit q s \<subseteq> U q - {i}) \<and> cuda_events s = F) (\<lambda>_ _. True)"
proof -
  have "(\<forall>q. unsplit q t \<subseteq> U q - {i}) \<and> cuda_events t = F"
    if s: "\<forall>q. unsplit q s \<subseteq> U q" "cuda_events s = F" and run: "free_unsplit api p i s = (Inr x, t)" for s x t
  proof -
    obtain b where b: "heap s i = Some b" using run
      by (cases "heap s i") (auto simp: free_unsplit_def run_defs deref_def)
    show ?thesis
    proof (cases "b_prev b = None \<and> b_next b = None")
      case True
      then have t: "heap t = (heap s)(i := None)" "pool_of q t = (if q = p then remove1 i (pool_of q s) else pool_of q s)"
        "cuda_events t = cuda_events s" for q
      proof -
        obtain err u d where d: "cudaFree api (b_ptr b) (driver s) = ((err, u), d)" by (metis prod.collapse)
        have err: "err = cudaSuccess"
        proof (rule ccontr)
          assume "err \<noteq> cudaSuccess"
          moreover obtain r d' where "cudaGetLastError api d = (r, d')" by fastforce
          ultimately show False
            using run b True d by (simp add: free_unsplit_def run_defs C10_CUDA_CHECK_def cuda_call_def cuda_error_check_def)
        qed
        have dev: "0 \<le> b_device b"
          using run b True d err by (auto simp: free_unsplit_def run_defs C10_CUDA_CHECK_def cuda_call_def cuda_error_check_def
            get_stats_for_device_def assertm_def split: if_splits)
        show "heap t = (heap s)(i := None)" "pool_of q t = (if q = p then remove1 i (pool_of q s) else pool_of q s)"
          "cuda_events t = cuda_events s"
          using run b True d err dev by (auto simp: free_unsplit_def run_defs C10_CUDA_CHECK_def cuda_call_def cuda_error_check_def
            get_stats_for_device_def upd_stats_def delete_block_def)
      qed
      have "unsplit q t \<subseteq> unsplit q s - {i}" for q
        by (auto simp: unsplit_def t split: if_splits dest: notin_set_remove1)
      then show ?thesis using s t(3) by blast
    next
      case False
      then have "t = s" using run b by (simp add: free_unsplit_def run_defs if_not_P [OF False])
      moreover have "i \<notin> unsplit q s" for q using False b by (auto simp: unsplit_def)
      ultimately show ?thesis using s by blast
    qed
  qed
  then show ?thesis by (intro tripleI) auto
qed

lemma free_blocks_releases:
  assumes "p' \<noteq> p"
  shows "triple (\<lambda>s. unsplit p s \<subseteq> set xs \<and> unsplit p' s \<subseteq> V \<and> cuda_events s = F) (free_blocks api p xs)
     (\<lambda>_ s. unsplit p s = {} \<and> unsplit p' s \<subseteq> V \<and> cuda_events s = F) (\<lambda>_ _. True)"
proof -
  let ?P = "\<lambda>xs s. unsplit p s \<subseteq> set xs \<and> unsplit p' s \<subseteq> V \<and> cuda_events s = F"
  have pq: "q = p \<or> q = p'" for q using assms by (cases p; cases p'; cases q) auto
  have "triple (?P (x # xs)) (free_unsplit api p x) (\<lambda>_. ?P xs) (\<lambda>_ _. True)" for x xs
    by (rule triple_conseq [OF free_unsplit_releases [of "\<lambda>q. if q = p then set (x # xs) else V" F]])
       (use pq assms in \<open>auto split: if_splits\<close>)
  then have "triple (?P xs) (foreach (free_unsplit api p) xs) (\<lambda>_. ?P []) (\<lambda>_ _. True)"
    by (rule triple_foreach [where P = ?P])
  then show ?thesis unfolding free_blocks_def by (rule triple_post) auto
qed

lemma synchronize_all:
  "triple (\<lambda>_. True) (synchronize_loop api None R E) (\<lambda>R' _. R' = R) (\<lambda>_ _. True)"
proof (induction E)
  case Nil
  show ?case by (simp add: triple_def)
next
  case (Cons ei E)
  obtain e i where ei: "ei = (e, i)" by fastforce
  have any: "triple (\<lambda>_. True) m (\<lambda>_ _. True) (\<lambda>_ _. True)" for m :: "('d, 'x) amon"
    by (simp add: triple_def split: prod.splits sum.splits)
  have "triple (\<lambda>_. True) (seqm (C10_CUDA_CHECK api (cudaEventSynchronize api e)) (seqm (C10_CUDA_CHECK api (cudaEventDestroy api e))
       (seqm (drop_event i) (synchronize_loop api None R E)))) (\<lambda>R' _. R' = R) (\<lambda>_ _. True)"
    by (intro triple_seq [OF any] Cons.IH)
  then show ?case unfolding ei synchronize_loop.simps by (intro triple_bind [OF any]) simp
qed

lemma emptyCache_releases_all:
  "triple (\<lambda>_. True) (emptyCache api) (\<lambda>_ s. unsplit LargePool s = {} \<and> unsplit SmallPool s = {} \<and> cuda_events s = []) (\<lambda>_ _. True)"
proof -
  have "triple (\<lambda>_. True) (synchronize_and_free_events api None) (\<lambda>_ s. cuda_events s = []) (\<lambda>_ _. True)"
    unfolding synchronize_and_free_events_def
    by (rule triple_bind [OF triple_gets], simp, rule triple_bind [OF synchronize_all], rule triple_modify) simp
  moreover have "triple (\<lambda>s. cuda_events s = []) (bindm (gets large_blocks) (free_blocks api LargePool))
      (\<lambda>_ s. unsplit LargePool s = {} \<and> cuda_events s = []) (\<lambda>_ _. True)"
  proof (rule triple_bind [OF triple_gets triple_post [OF free_blocks_releases [where p' = SmallPool and V = UNIV and F = "[]"]]])
    fix s :: "'a THCCachingAllocator"
    show "cuda_events s = [] \<Longrightarrow> unsplit LargePool s \<subseteq> set (large_blocks s) \<and> unsplit SmallPool s \<subseteq> UNIV \<and> cuda_events s = []"
      by (auto simp: unsplit_def pool_of_def)
  qed auto
  moreover have "triple (\<lambda>s. unsplit LargePool s = {} \<and> cuda_events s = []) (bindm (gets small_blocks) (free_blocks api SmallPool))
      (\<lambda>_ s. unsplit LargePool s = {} \<and> unsplit SmallPool s = {} \<and> cuda_events s = []) (\<lambda>_ _. True)"
  proof (rule triple_bind [OF triple_gets triple_post [OF free_blocks_releases [where p' = LargePool and V = "{}" and F = "[]"]]])
    fix s :: "'a THCCachingAllocator"
    show "unsplit LargePool s = {} \<and> cuda_events s = [] \<Longrightarrow>
        unsplit SmallPool s \<subseteq> set (small_blocks s) \<and> unsplit LargePool s \<subseteq> {} \<and> cuda_events s = []"
      by (auto simp: unsplit_def pool_of_def)
  qed auto
  ultimately show ?thesis unfolding emptyCache_def by (intro triple_seq)
qed

definition neighbour :: "'d THCCachingAllocator \<Rightarrow> Block \<Rightarrow> Block \<Rightarrow> bool" where
  "neighbour s b c \<longleftrightarrow> (\<exists>j. heap s j = Some c \<and> (b_prev b = Some j \<or> b_next b = Some j))"

lemma released_blocks:
  assumes "allocator_inv segs s" "unsplit LargePool s = {}" "unsplit SmallPool s = {}" "cuda_events s = []"
    "heap s i = Some b" "\<not> b_allocated b"
  shows "\<exists>c. neighbour s b c \<and> b_allocated c"
proof -
  have W: "alloc_wf segs {} [] s" using assms(1,4) by (simp add: allocator_inv_def)
  note D = alloc_wfD [OF W]
  have free: "isfree d \<longleftrightarrow> \<not> b_allocated d" if "heap s x = Some d" for x d
    using events_okD [OF D(5) that] by (auto simp: isfree_def block_events_def)
  obtain p where p: "b_pool b = Some p" using D(1) geometry_okD [of "heap s" i b] assms(5) by (auto simp: heap_ok_def)
  then have "i \<in> set (pool_of p s)" using D(3) [of p] free [OF assms(5)] assms(5,6) by (auto simp: pool_ok_def)
  moreover have "unsplit p s = {}" using assms(2,3) by (cases p) auto
  ultimately obtain j where j: "b_prev b = Some j \<or> b_next b = Some j" using assms(5) by (auto simp: unsplit_def)
  then obtain c where c: "heap s j = Some c" using D(1) links_live [of "heap s" i b j] assms(5) by (auto simp: heap_ok_def)
  have "lonely (heap s) b" by (rule lonely_in_pool [OF D(1,2) assms(5)]) (use free [OF assms(5)] assms(6) in simp)
  then have "\<not> isfree c" using j c by (auto simp: lonely_def)
  then show ?thesis using j c free [OF c] by (auto simp: neighbour_def)
qed

text \<open>
  Property C25. \<open>emptyCache\<close> gives back everything it can. It keeps every allocation and the invariant, leaves no event
  outstanding, and every block it still holds is allocated or has an allocated neighbour; in particular, with nothing
  allocated the allocator holds no memory and reports 0 cached bytes for every device. Its only exception is a CUDA error.
\<close>

theorem emptyCache_releases:
  assumes "cuda_contract api segs" and "allocator_inv segs s"
  shows "case emptyCache api s of
      (Inr _, t) \<Rightarrow> allocator_inv segs t \<and> allocs t = allocs s \<and> cuda_events t = [] \<and>
        (\<forall>i b. heap t i = Some b \<longrightarrow> b_allocated b \<or> (\<exists>c. neighbour t b c \<and> b_allocated c)) \<and>
        (allocs s = Map.empty \<longrightarrow> heap t = Map.empty \<and> (\<forall>st\<in>set (device_stats t). amount_cached st = 0))
    | (Inl e, t) \<Rightarrow> e = CUDA_error"
proof -
  have T: "triple (\<lambda>s'. ok segs (allocs s) (length (device_stats s)) s' \<and> True) (emptyCache api)
      (\<lambda>_ t. ok segs (allocs s) (length (device_stats s)) t \<and> (unsplit LargePool t = {} \<and> unsplit SmallPool t = {} \<and> cuda_events t = []))
      (\<lambda>e t. exn_ok segs None e t \<and> True)"
    by (rule triple_conj [OF emptyCache_ok [OF assms(1)] emptyCache_releases_all])
  have "ok segs (allocs s) (length (device_stats s)) s \<and> True" using inv_ok [OF assms(2)] by simp
  from T this show ?thesis
  proof (cases rule: triple_cases)
    case (ret x t)
    then have t: "allocator_inv segs t" "allocs t = allocs s" "unsplit LargePool t = {}" "unsplit SmallPool t = {}" "cuda_events t = []"
      using ok_inv by auto
    note rel = released_blocks [OF t(1,3-5)]
    note D = alloc_wfD [OF t(1) [unfolded allocator_inv_def]]
    have "heap t = Map.empty" if "allocs s = Map.empty"
    proof (rule ccontr)
      have none: "\<not> b_allocated c" if "heap t x = Some c" for x c
        using D(4) \<open>allocs s = Map.empty\<close> t(2) that by (force simp: alloc_ok_def allocs_def fun_eq_iff)
      assume "heap t \<noteq> Map.empty"
      then obtain i b where b: "heap t i = Some b" by (metis option.exhaust ext)
      from rel [OF b none [OF b]] none show False by (auto simp: neighbour_def)
    qed
    moreover have "amount_cached st = 0" if "heap t = Map.empty" "st \<in> set (device_stats t)" for st
      using D(7) that by (auto simp: stats_ok_def bytes_def in_set_conv_nth)
    moreover have "b_allocated b \<or> (\<exists>c. neighbour t b c \<and> b_allocated c)" if "heap t i = Some b" for i b
      using rel [OF that] by blast
    ultimately show ?thesis using ret(1) t by simp
  next
    case (exn e t)
    then show ?thesis by (simp add: exn_ok_def)
  qed
qed

theorem emptyCache_releases_witness:
  "\<exists>t. emptyCache bump_api (new_THCCachingAllocator []) = (Inr (), t) \<and> heap t = Map.empty \<and> allocator_inv set t"
proof -
  let ?s = "new_THCCachingAllocator [] :: (nat \<times> nat) list THCCachingAllocator"
  have r: "fst (emptyCache bump_api ?s) = Inr ()"
    by (simp add: emptyCache_def synchronize_and_free_events_def free_blocks_def run_defs new_THCCachingAllocator_def)
  have e: "allocs ?s = Map.empty" by (simp add: allocs_def new_THCCachingAllocator_def fun_eq_iff)
  have "allocator_inv set ?s" by (rule initial_inv) simp
  from emptyCache_releases [OF bump_contract this] r e show ?thesis
    by (cases "emptyCache bump_api ?s") auto
qed

section \<open>Base allocations\<close>

lemma first_block_ok:
  assumes "geometry_ok h" "links_ok h" "segs_ok S g h" "h i = Some b"
  shows "\<exists>f c. first_block h i = Some f \<and> h f = Some c \<and> b_prev c = None \<and> g f = g i"
  using assms(4)
proof (induction "b_ptr b" arbitrary: i b rule: less_induct)
  case less
  show ?case
  proof (cases "b_prev b")
    case None
    then show ?thesis using less.prems by (auto simp: first_block.simps [of h i])
  next
    case (Some j)
    from links_prev [OF assms(2) less.prems Some] obtain c where c: "h j = Some c" "b_next c = Some i" "b_ptr b = b_ptr c + b_size c" .
    have "b_ptr c < b_ptr b" using c(3) geometry_okD [OF assms(1) c(1)] by simp
    from less.hyps [OF this c(1)] have "\<exists>f d. first_block h j = Some f \<and> h f = Some d \<and> b_prev d = None \<and> g f = g j" .
    moreover have "g i = g j" using assms(3) c(1,2) by (simp add: segs_ok_def)
    moreover have "first_block h i = first_block h j" using less.prems Some by (simp add: first_block.simps [of h i])
    ultimately show ?thesis by simp
  qed
qed

lemma sum_blocks_ok:
  assumes "geometry_ok h" "links_ok h" "segs_ok S g h" "h i = Some b" "acc + (fst (g i) + snd (g i) - b_ptr b) < 2 ^ 64"
  shows "sum_blocks h acc (Some i) = Some (acc + (fst (g i) + snd (g i) - b_ptr b))"
  using assms(4,5)
proof (induction "fst (g i) + snd (g i) - b_ptr b" arbitrary: i b acc rule: less_induct)
  case less
  have seg: "in_segment (g i) b" using assms(3) less.prems(1) by (simp add: segs_ok_def)
  have pos: "0 < b_size b" using geometry_okD [OF assms(1) less.prems(1)] by simp
  have add: "add64 acc (b_size b) = acc + b_size b" using less.prems(2) seg by (intro add64_eq) (auto simp: in_segment_def)
  have step: "sum_blocks h acc (Some i) = sum_blocks h (acc + b_size b) (b_next b)"
    using less.prems(1) add by (simp add: sum_blocks.simps [of h acc "Some i"])
  show ?case
  proof (cases "b_next b")
    case None
    then show ?thesis using step seg by (auto simp: sum_blocks.simps [of h _ None] in_segment_def)
  next
    case (Some j)
    from links_next [OF assms(2) less.prems(1) Some] obtain c where c: "h j = Some c" "b_ptr c = b_ptr b + b_size b" .
    have g: "g j = g i" using assms(3) less.prems(1) Some by (simp add: segs_ok_def)
    have segc: "in_segment (g j) c" using assms(3) c(1) by (simp add: segs_ok_def)
    have e: "acc + b_size b + (fst (g j) + snd (g j) - b_ptr c) = acc + (fst (g i) + snd (g i) - b_ptr b)"
      using c(2) g segc by (auto simp: in_segment_def)
    have "fst (g j) + snd (g j) - b_ptr c < fst (g i) + snd (g i) - b_ptr b" using c(2) g segc pos by (auto simp: in_segment_def)
    from less.hyps [OF this c(1), of "acc + b_size b"] e less.prems(2) step Some show ?thesis by simp
  qed
qed

lemma last_block:
  assumes "geometry_ok h" "links_ok h" "segs_ok S g h" "h i = Some b"
  shows "\<exists>k d. h k = Some d \<and> fst (g i) + snd (g i) = b_ptr d + b_size d"
  using assms(4)
proof (induction "fst (g i) + snd (g i) - b_ptr b" arbitrary: i b rule: less_induct)
  case less
  have seg: "in_segment (g i) b" using assms(3) less.prems by (simp add: segs_ok_def)
  show ?case
  proof (cases "b_next b")
    case None
    then have "fst (g i) + snd (g i) = b_ptr b + b_size b" using seg by (simp add: in_segment_def)
    then show ?thesis using less.prems by blast
  next
    case (Some j)
    from links_next [OF assms(2) less.prems Some] obtain c where c: "h j = Some c" "b_ptr c = b_ptr b + b_size b" .
    have g: "g j = g i" using assms(3) less.prems Some by (simp add: segs_ok_def)
    have "in_segment (g j) c" using assms(3) c(1) by (simp add: segs_ok_def)
    then have "fst (g j) + snd (g j) - b_ptr c < fst (g i) + snd (g i) - b_ptr b"
      using c(2) g geometry_okD [OF assms(1) less.prems] geometry_okD [OF assms(1) c(1)] by (auto simp: in_segment_def)
    from less.hyps [OF this c(1)] g show ?thesis by simp
  qed
qed

text \<open>
  Property C33. \<open>getBaseAllocation\<close> always returns. For an allocated address it returns the start and the full size of the
  segment obtained from \<open>cudaMalloc\<close> that contains the allocation, whatever that segment has been split into; for any
  other address it throws.
\<close>

theorem getBaseAllocation_segment:
  assumes "allocator_inv segs s"
  shows "case allocs s p of
      None \<Rightarrow> getBaseAllocation p s = Some (Inl (C10Error ''invalid device pointer: %p''))
    | Some (m, x) \<Rightarrow> \<exists>base n. getBaseAllocation p s = Some (Inr (base, n)) \<and> (base, n) \<in> segs (driver s) \<and> base \<le> p \<and> p + m \<le> base + n"
proof (cases "allocs s p")
  case None
  then show ?thesis by (simp add: getBaseAllocation_def find_allocated_block_def allocs_def)
next
  case (Some mx)
  note D = alloc_wfD [OF assms [unfolded allocator_inv_def]]
  from D(1) obtain g where H: "geometry_ok (heap s)" "links_ok (heap s)" "segs_ok (segs (driver s)) g (heap s)" by (auto simp: heap_ok_def)
  from Some obtain i where i: "allocated_blocks s p = Some i" "fst mx = b_size (blk (heap s) i)" by (auto simp: allocs_def)
  then obtain b where b: "heap s i = Some b" "b_ptr b = p" using D(4) by (auto simp: alloc_ok_def)
  from first_block_ok [OF H b(1)] obtain f c where f: "first_block (heap s) i = Some f" "heap s f = Some c" "b_prev c = None" "g f = g i" by blast
  have seg: "in_segment (g i) b" "in_segment (g i) c" "g i \<in> segs (driver s)" using H(3) b(1) f(2,4) unfolding segs_ok_def by metis+
  then have base: "b_ptr c = fst (g i)" using f(3) by (simp add: in_segment_def)
  have "snd (g i) < 2 ^ 64"
  proof -
    obtain k d where kd: "heap s k = Some d" "fst (g i) + snd (g i) = b_ptr d + b_size d"
      using last_block [OF H b(1)] by blast
    show ?thesis using geometry_okD [OF H(1) kd(1)] geometry_okD [OF H(1) f(2)] kd(2) base by simp
  qed
  then have "sum_blocks (heap s) 0 (Some f) = Some (snd (g i))"
    using sum_blocks_ok [OF H f(2), of 0] base f(4) by simp
  then have "getBaseAllocation p s = Some (Inr (fst (g i), snd (g i)))"
    using i(1) f base by (simp add: getBaseAllocation_def find_allocated_block_def)
  moreover have "(fst (g i), snd (g i)) \<in> segs (driver s)" using seg(3) by simp
  moreover have "fst (g i) \<le> p" "p + fst mx \<le> fst (g i) + snd (g i)" using seg(1) b i(2) by (auto simp: in_segment_def)
  ultimately have "\<exists>base n. getBaseAllocation p s = Some (Inr (base, n)) \<and> (base, n) \<in> segs (driver s) \<and> base \<le> p \<and> p + fst mx \<le> base + n"
    by blast
  then show ?thesis using Some by (cases mx) simp
qed

text \<open>One allocation of 1000 bytes, in the state it leaves: the witness of the properties that speak of an allocated address.\<close>

definition one_alloc :: "(nat \<times> nat) list THCCachingAllocator" where
  "one_alloc = snd (malloc bump_api [] 1000 7 (new_THCCachingAllocator []))"

lemma one_alloc_run: "malloc bump_api [] 1000 7 (new_THCCachingAllocator []) = (Inr 1, one_alloc)"
  by (simp add: one_alloc_def alloc_eval)

lemma one_alloc_inv: "allocator_inv set one_alloc"
proof -
  let ?s = "new_THCCachingAllocator [] :: (nat \<times> nat) list THCCachingAllocator"
  have inv: "allocator_inv set ?s" by (rule initial_inv) simp
  have "callbacks_ok set ([] :: ((nat \<times> nat) list, bool) amon list)" by (simp add: callbacks_ok_def)
  moreover have "(1000 :: nat) + 2 * kRoundLarge \<le> 2 ^ 64" by (simp add: k_defs)
  ultimately have T: "triple (\<lambda>s. ok set (allocs ?s) 0 s \<and> snd (fst (cudaGetDevice bump_api (driver s))) = 0) (malloc bump_api [] 1000 7)
    (allocated set (allocs ?s) 1000 0 7) (exn_ok set (Some (allocs ?s)))" by (rule malloc_ok [OF bump_contract])
  have "ok set (allocs ?s) 0 ?s" using inv_ok [OF inv] by (simp add: new_THCCachingAllocator_def)
  moreover have "snd (fst (cudaGetDevice bump_api (driver ?s))) = 0" by (simp add: bump_api_def)
  ultimately have "allocated set (allocs ?s) 1000 0 7 1 one_alloc"
    by (intro tripleD(1) [OF T _ one_alloc_run]) simp
  then show ?thesis unfolding allocated_def using ok_inv by blast
qed

lemma one_alloc_allocs: "allocs one_alloc = [1 \<mapsto> (1024, 0, 7)]"
  by (simp add: one_alloc_def alloc_eval allocs_def fun_eq_iff)

theorem getBaseAllocation_segment_witness:
  "getBaseAllocation 1 one_alloc = Some (Inr (1, 2097152))"
proof -
  have d: "driver one_alloc = [(1, 2097152)]" by (simp add: one_alloc_def alloc_eval)
  from getBaseAllocation_segment [OF one_alloc_inv, of 1] show ?thesis by (auto simp: one_alloc_allocs d)
qed

section \<open>Statistics\<close>










section \<open>Streams\<close>











section \<open>Sizes\<close>

text \<open>
  Property C34. Request sizes: below the last 511 addresses \<open>round_size\<close> returns the least positive multiple of 512 that
  holds the request, and \<open>get_allocation_size\<close> of a rounded size that leaves room for it is a multiple of 2 MiB that holds
  it. The last 511 sizes wrap around to 0.
\<close>

theorem round_size_least:
  assumes "n < 2 ^ 64"
  shows "if n + kMinBlockSize \<le> 2 ^ 64
    then kMinBlockSize dvd round_size n \<and> n \<le> round_size n \<and> 0 < round_size n \<and>
      (\<forall>m. kMinBlockSize dvd m \<and> n \<le> m \<and> 0 < m \<longrightarrow> round_size n \<le> m) \<and>
      (round_size n + kRoundLarge \<le> 2 ^ 64 \<longrightarrow>
        kRoundLarge dvd get_allocation_size (round_size n) \<and> round_size n \<le> get_allocation_size (round_size n))
    else round_size n = 0"
proof (cases "n + kMinBlockSize \<le> 2 ^ 64")
  case True
  note rb = round_size_bounds [OF True]
  have dvd: "kMinBlockSize dvd round_size n" by (simp add: round_size_def)
  have least: "round_size n \<le> m" if m: "kMinBlockSize dvd m" "n \<le> m" "0 < m" for m
  proof -
    obtain j where j: "m = kMinBlockSize * j" "0 < j" using m(1,3) by (metis dvdE nat_0_less_mult_iff)
    obtain k where k: "round_size n = kMinBlockSize * k" using dvd by (elim dvdE)
    have "k \<le> j"
    proof (rule ccontr)
      assume "\<not> k \<le> j"
      then have "kMinBlockSize * (j + 1) \<le> kMinBlockSize * k" by (intro mult_le_mono2) simp
      then show False using rb(3) j k m(2) by (auto simp: k_defs)
    qed
    then show ?thesis using j k by simp
  qed
  have "kRoundLarge dvd get_allocation_size (round_size n)" by (auto simp: get_allocation_size_def k_defs)
  then show ?thesis using True rb dvd least get_allocation_size_bounds(1) [of "round_size n"] by auto
next
  case False
  then have "add64 n (kMinBlockSize - 1) < kMinBlockSize" using assms
    by (simp add: add64_def k_defs mod_if) linarith
  then show ?thesis using False assms by (simp add: round_size_def k_defs)
qed

theorem round_size_least_witness:
  "round_size 1000 = 1024 \<and> 1000 \<le> round_size 1000 \<and> round_size (2 ^ 64 - 1) = 0"
proof -
  have "round_size 1000 = 1024" by (simp add: round_size_def add64_def k_defs)
  with round_size_least [of 1000] round_size_least [of "2 ^ 64 - 1"] show ?thesis by (simp add: k_defs)
qed

text \<open>
  A request of the last 511 sizes is not refused: \<open>malloc\<close> of \<open>2 ^ 64 - 1\<close> bytes on a fresh allocator returns
  an address, and the block it has handed out is empty.
\<close>

theorem malloc_huge_request_empty:
  "\<exists>t. malloc bump_api [] (2 ^ 64 - 1) 7 (new_THCCachingAllocator []) = (Inr 1, t) \<and> allocs t 1 = Some (0, 0, 7)"
  by (simp add: alloc_eval allocs_def)

section \<open>A failing synchronization\<close>

text \<open>A freed block that two streams used, and a runtime on which waiting for the second event fails.\<close>

definition two_events :: "(nat \<times> nat) list THCCachingAllocator" where
  "two_events = (new_THCCachingAllocator [(1, 2097152)])\<lparr>
     heap := [0 \<mapsto> (new_Block 0 7 2097152 (Some SmallPool) 1)\<lparr>b_event_count := 2\<rparr>], fresh := 1,
     cuda_events := [(1, 0), (2, 0)], device_stats := [new_DeviceStats\<lparr>amount_cached := 2097152, max_amount_cached := 2097152\<rparr>]\<rparr>"

definition flaky_api :: "(nat \<times> nat) list cuda_api" where
  "flaky_api = bump_api\<lparr>
     cudaEventSynchronize := (\<lambda>e d. ((if e = 2 then cudaErrorOther 1 else cudaSuccess, ()), d)),
     cudaEventQuery := (\<lambda>e d. ((if e = 2 then cudaErrorNotReady else cudaSuccess, ()), d))\<rparr>"

lemmas sync_eval = emptyCache_def synchronize_and_free_events_def drop_event_def free_block_def try_merge_blocks_def two_events_def flaky_api_def

lemma two_events_inv: "allocator_inv set two_events"
proof -
  have "bytes False 0 (heap two_events) = 2097152" "bytes True 0 (heap two_events) = 0"
    by (simp_all add: two_events_def bytes_def weight_def new_Block_def)
  moreover have "segs_ok {(1, 2097152)} (\<lambda>_. (1, 2097152)) (heap two_events)"
    by (simp add: two_events_def segs_ok_def in_segment_def new_Block_def)
  moreover have "geometry_ok (heap two_events)" "links_ok (heap two_events)" "disjoint_ok (heap two_events)" "coal_ok {} (heap two_events)"
    by (simp_all add: two_events_def geometry_ok_def links_ok_def disjoint_ok_def coal_ok_def new_Block_def)
  ultimately show ?thesis
    unfolding allocator_inv_def alloc_wf_def heap_ok_def
    by (auto simp: two_events_def new_THCCachingAllocator_def segments_disjoint_def pool_ok_def sorted_pool_def alloc_ok_def events_ok_def
        block_events_def stats_ok_def pool_of_def new_Block_def isfree_def new_DeviceStats_def split: PoolId.splits if_splits)
qed

text \<open>
  A CUDA error during \<open>emptyCache\<close> corrupts the event queue. The queue is replaced only after the loop, so when
  waiting for the second of two events fails, the first one, already destroyed and counted, stays in it: the queue has two
  entries for a block whose count is 1. If the runtime then reports the destroyed event as complete, \<open>process_events\<close>
  counts it again and returns the block to the pool while the second event is still outstanding.
\<close>

theorem synchronize_failure_corrupts_queue:
  "allocator_inv set two_events \<and>
   (\<exists>t u. emptyCache flaky_api two_events = (Inl CUDA_error, t) \<and>
      cuda_events t = [(1, 0), (2, 0)] \<and> b_event_count (blk (heap t) 0) = 1 \<and> \<not> allocator_inv set t \<and>
      process_events flaky_api t = (Inr (), u) \<and> small_blocks u = [0] \<and> cuda_events u = [(2, 0)])"
proof -
  define t where "t = snd (emptyCache flaky_api two_events)"
  have run: "emptyCache flaky_api two_events = (Inl CUDA_error, t)"
    by (simp add: t_def sync_eval alloc_eval CUDA_error_def)
  have ev: "cuda_events t = [(1, 0), (2, 0)]" "b_event_count (blk (heap t) 0) = 1" "heap t 0 \<noteq> None"
    by (simp_all add: t_def sync_eval alloc_eval)
  have "\<not> allocator_inv set t"
  proof
    assume "allocator_inv set t"
    moreover obtain b where "heap t 0 = Some b" using ev(3) by auto
    ultimately show False
      using events_okD [OF alloc_wfD(5), of set "{}" "cuda_events t" t 0 b] ev(1,2) by (simp add: allocator_inv_def block_events_def)
  qed
  moreover have "\<exists>u. process_events flaky_api t = (Inr (), u) \<and> small_blocks u = [0] \<and> cuda_events u = [(2, 0)]"
    by (simp add: t_def sync_eval alloc_eval)
  ultimately show ?thesis using run ev(1,2) two_events_inv by blast
qed

end
