(* ===== verification/Random_Generator.thy ===== *)
theory Random_Generator
  imports State_Exn "HOL-Library.Multiset"
begin

unbundle bit_operations_syntax

text \<open>
  The CPU random number generator (aten/src/TH/THRandom.cpp): the state of the Mersenne Twister with its in-place
  regeneration, and the random permutations of \<open>randperm\<close> (aten/src/ATen/native/TensorFactories.cpp) drawn from it.
  The main result relates the optimised generator to the recurrence that defines MT19937. The cached values of the
  normal distribution are floating point and not part of the model, except for the flag that says they are valid.
\<close>

section \<open>The generator\<close>

definition MERSENNE_STATE_N :: nat where "MERSENNE_STATE_N = 624"
definition MERSENNE_STATE_M :: nat where "MERSENNE_STATE_M = 397"

record THGeneratorState =
  the_initial_seed :: "64 word"
  left :: int
  seeded :: int
  next_index :: "64 word"
  mt_state :: "64 word list"
  normal_is_valid :: int

definition THGenerator_newUnseeded :: THGeneratorState where
  "THGenerator_newUnseeded = \<lparr>the_initial_seed = 0, left = 1, seeded = 0, next_index = 0,
     mt_state = replicate MERSENNE_STATE_N 0, normal_is_valid = 0\<rparr>"

definition THGeneratorState_isValid :: "THGeneratorState \<Rightarrow> bool" where
  "THGeneratorState_isValid g \<longleftrightarrow> seeded g = 1 \<and> (left g > 0 \<and> left g \<le> int MERSENNE_STATE_N) \<and>
     unat (next_index g) \<le> MERSENNE_STATE_N"

definition THGenerator_copy :: "THGeneratorState \<Rightarrow> THGeneratorState \<Rightarrow> THGeneratorState" where
  "THGenerator_copy self from = from"

definition seed_step :: "nat \<Rightarrow> 64 word \<Rightarrow> 64 word" where
  "seed_step j x = (1812433253 * (x XOR drop_bit 30 x) + of_nat j) AND 0xffffffff"

function seed_loop :: "nat \<Rightarrow> 64 word list \<Rightarrow> 64 word list" where
  "seed_loop j st = (if j < MERSENNE_STATE_N then seed_loop (j + 1) (st[j := seed_step j (st ! (j - 1))]) else st)"
  by auto
termination by (relation "measure (\<lambda>(j, st). MERSENNE_STATE_N - j)") auto

declare seed_loop.simps [simp del]

definition THRandom_manualSeed :: "64 word \<Rightarrow> THGeneratorState \<Rightarrow> THGeneratorState" where
  "THRandom_manualSeed the_seed g =
     (let g = THGenerator_copy g THGenerator_newUnseeded
      in g\<lparr>the_initial_seed := the_seed,
           mt_state := seed_loop 1 ((mt_state g)[0 := the_seed AND 0xffffffff]),
           left := 1, seeded := 1\<rparr>)"

definition THRandom_initialSeed :: "THGeneratorState \<Rightarrow> 64 word" where
  "THRandom_initialSeed g = the_initial_seed g"

definition MATRIX_A :: "64 word" where "MATRIX_A = 0x9908b0df"
definition UMASK :: "64 word" where "UMASK = 0x80000000"
definition LMASK :: "64 word" where "LMASK = 0x7fffffff"

definition MIXBITS :: "64 word \<Rightarrow> 64 word \<Rightarrow> 64 word" where
  "MIXBITS u v = (u AND UMASK) OR (v AND LMASK)"

definition TWIST :: "64 word \<Rightarrow> 64 word \<Rightarrow> 64 word" where
  "TWIST u v = drop_bit 1 (MIXBITS u v) XOR (if v AND 1 \<noteq> 0 then MATRIX_A else 0)"

text \<open>
  A loop of \<open>THRandom_nextState\<close> runs \<open>j\<close> times from position \<open>p\<close>; \<open>src p\<close> is the position of \<open>p[m]\<close> or
  \<open>p[m - n]\<close>.
\<close>

fun twist_loop :: "(nat \<Rightarrow> nat) \<Rightarrow> nat \<Rightarrow> nat \<Rightarrow> 64 word list \<Rightarrow> 64 word list" where
  "twist_loop src 0 p st = st"
| "twist_loop src (Suc j) p st =
     twist_loop src j (p + 1) (st[p := st ! src p XOR TWIST (st ! p) (st ! (p + 1))])"

definition THRandom_nextState :: "THGeneratorState \<Rightarrow> THGeneratorState" where
  "THRandom_nextState g =
     (let n = MERSENNE_STATE_N; m = MERSENNE_STATE_M;
          st = twist_loop (\<lambda>p. p + m) (n - m) 0 (mt_state g);
          st = twist_loop (\<lambda>p. p + m - n) (m - 1) (n - m) st;
          p = n - 1;
          st = st[p := st ! (p + m - n) XOR TWIST (st ! p) (st ! 0)]
      in g\<lparr>left := int n, next_index := 0, mt_state := st\<rparr>)"

definition temper :: "64 word \<Rightarrow> 64 word" where
  "temper y =
     (let y = y XOR drop_bit 11 y;
          y = y XOR (push_bit 7 y AND 0x9d2c5680);
          y = y XOR (push_bit 15 y AND 0xefc60000)
      in y XOR drop_bit 18 y)"

definition THRandom_random :: "(THGeneratorState, 64 word) mon" where
  "THRandom_random =
     seqm (modify (\<lambda>g. g\<lparr>left := left g - 1\<rparr>))
     (seqm (modify (\<lambda>g. if left g = 0 then THRandom_nextState g else g))
     (bindm (gets next_index) (\<lambda>i.
      seqm (modify (\<lambda>g. g\<lparr>next_index := i + 1\<rparr>))
      (bindm (gets mt_state) (\<lambda>st.
       if unat i < MERSENNE_STATE_N then ret (temper (st ! unat i)) else throw UndefinedBehaviour)))))"

definition THRandom_random64 :: "(THGeneratorState, 64 word) mon" where
  "THRandom_random64 =
     bindm THRandom_random (\<lambda>hi. bindm THRandom_random (\<lambda>lo. ret (push_bit 32 hi OR lo)))"

section \<open>Random permutations\<close>

function randperm_loop :: "nat \<Rightarrow> nat \<Rightarrow> 'a list \<Rightarrow> (THGeneratorState, 'a list) mon" where
  "randperm_loop n i r = (if i < n - 1
     then bindm THRandom_random (\<lambda>x.
       let z = unat x mod (n - i); sav = r ! i
       in randperm_loop n (i + 1) ((r[i := r ! (z + i)])[z + i := sav]))
     else ret r)"
  by auto
termination by (relation "measure (\<lambda>(n, i, r). n - i)") auto

declare randperm_loop.simps [simp del]

text \<open>The element type is the argument \<open>cast\<close>, the \<open>static_cast<scalar_t>\<close> of the position.\<close>

definition randperm_cpu :: "(nat \<Rightarrow> 'a) \<Rightarrow> nat \<Rightarrow> (THGeneratorState, 'a list) mon" where
  "randperm_cpu cast n = randperm_loop n 0 (map cast [0..<n])"

definition randperm_out_cpu :: "(nat \<Rightarrow> 'a) \<Rightarrow> int \<Rightarrow> (THGeneratorState, 'a list) mon" where
  "randperm_out_cpu cast n =
     (if n \<ge> 0 then randperm_cpu cast (nat n) else throw (C10Error ''n must be non-negative, got''))"

section \<open>The recurrence\<close>

text \<open>
  MT19937 as a sequence: the first \<open>n\<close> words come from the seed, every other word from three earlier ones. The model
  of the C code never evaluates it; it is the specification.
\<close>

lemma MERSENNE_facts:
  "0 < MERSENNE_STATE_M" "MERSENNE_STATE_M < MERSENNE_STATE_N" "MERSENNE_STATE_N < 2 * MERSENNE_STATE_M"
  "MERSENNE_STATE_N < 2 ^ 32" "1 < MERSENNE_STATE_N"
  by (simp_all add: MERSENNE_STATE_M_def MERSENNE_STATE_N_def)

function mt_seq :: "64 word \<Rightarrow> nat \<Rightarrow> 64 word" where
  "mt_seq seed k =
     (if k = 0 then seed AND 0xffffffff
      else if k < MERSENNE_STATE_N then seed_step k (mt_seq seed (k - 1))
      else mt_seq seed (k - MERSENNE_STATE_N + MERSENNE_STATE_M)
         XOR TWIST (mt_seq seed (k - MERSENNE_STATE_N)) (mt_seq seed (k - MERSENNE_STATE_N + 1)))"
  by auto
termination
  using MERSENNE_facts by (relation "measure snd") auto

declare mt_seq.simps [simp del]

lemma mt_seq_init:
  "mt_seq seed 0 = seed AND 0xffffffff"
  "0 < k \<Longrightarrow> k < MERSENNE_STATE_N \<Longrightarrow> mt_seq seed k = seed_step k (mt_seq seed (k - 1))"
  by (simp_all add: mt_seq.simps [of seed 0] mt_seq.simps [of seed k])

lemma mt_seq_rec:
  "mt_seq seed (MERSENNE_STATE_N + k) =
     mt_seq seed (k + MERSENNE_STATE_M) XOR TWIST (mt_seq seed k) (mt_seq seed (k + 1))"
  using MERSENNE_facts by (subst mt_seq.simps) (simp add: add.commute)

section \<open>Seeding and regeneration follow the recurrence\<close>

lemma nth_list_update_eqI:
  assumes "length st = n" "j < n" "st' = st[j := v]"
    and "\<And>i. i < n \<Longrightarrow> i \<noteq> j \<Longrightarrow> st ! i = f i" and "v = f j"
  shows "st' = map f [0..<n]"
  using assms by (intro nth_equalityI) (auto simp: nth_list_update)

lemma seed_loop_prefix:
  assumes "length st = MERSENNE_STATE_N" "0 < j" "j \<le> MERSENNE_STATE_N"
    and "\<And>i. i < j \<Longrightarrow> st ! i = mt_seq seed i"
  shows "seed_loop j st = map (mt_seq seed) [0..<MERSENNE_STATE_N]"
  using assms
proof (induction j st rule: seed_loop.induct)
  case (1 j st)
  show ?case
  proof (cases "j < MERSENNE_STATE_N")
    case True
    have "st ! (j - 1) = mt_seq seed (j - 1)" using "1.prems" by simp
    then have "st[j := seed_step j (st ! (j - 1))] ! i = mt_seq seed i" if "i < j + 1" for i
      using that True "1.prems" mt_seq_init(2) [of j seed]
      by (cases "i = j") (simp_all add: less_Suc_eq)
    then have "seed_loop (j + 1) (st[j := seed_step j (st ! (j - 1))]) = map (mt_seq seed) [0..<MERSENNE_STATE_N]"
      using "1.IH" [OF True] "1.prems" True by simp
    then show ?thesis using True by (simp add: seed_loop.simps [of j])
  next
    case False
    then have "j = MERSENNE_STATE_N" using "1.prems" by simp
    then show ?thesis using "1.prems" by (subst seed_loop.simps) (simp add: list_eq_iff_nth_eq)
  qed
qed

definition mt_block :: "64 word \<Rightarrow> nat \<Rightarrow> nat \<Rightarrow> 64 word list" where
  "mt_block seed k p =
     map (\<lambda>i. mt_seq seed (if i < p then MERSENNE_STATE_N + k + i else k + i)) [0..<MERSENNE_STATE_N]"

lemma length_mt_block [simp]: "length (mt_block seed k p) = MERSENNE_STATE_N"
  by (simp add: mt_block_def)

lemma nth_mt_block [simp]:
  "i < MERSENNE_STATE_N \<Longrightarrow> mt_block seed k p ! i = mt_seq seed (if i < p then MERSENNE_STATE_N + k + i else k + i)"
  by (simp add: mt_block_def)

lemma mt_block_step:
  assumes "p < MERSENNE_STATE_N"
    and "x = mt_seq seed (k + p + MERSENNE_STATE_M)" "u = mt_seq seed (k + p)" "v = mt_seq seed (k + p + 1)"
  shows "(mt_block seed k p)[p := x XOR TWIST u v] = mt_block seed k (p + 1)"
  using assms mt_seq_rec [of seed "k + p"]
  by (intro nth_equalityI) (auto simp: nth_list_update less_Suc_eq add.assoc)

lemma twist_loop_block:
  assumes "p + j < MERSENNE_STATE_N"
    and "\<And>q. p \<le> q \<Longrightarrow> q < p + j \<Longrightarrow> src q < MERSENNE_STATE_N \<and>
        mt_block seed k q ! src q = mt_seq seed (k + q + MERSENNE_STATE_M)"
  shows "twist_loop src j p (mt_block seed k p) = mt_block seed k (p + j)"
  using assms
proof (induction j arbitrary: p)
  case 0
  then show ?case by simp
next
  case (Suc j)
  have "(mt_block seed k p)[p := mt_block seed k p ! src p XOR
      TWIST (mt_block seed k p ! p) (mt_block seed k p ! (p + 1))] = mt_block seed k (p + 1)"
    using Suc.prems(1) Suc.prems(2) [of p] by (intro mt_block_step) simp_all
  moreover have "twist_loop src j (p + 1) (mt_block seed k (p + 1)) = mt_block seed k (p + 1 + j)"
    using Suc.prems by (intro Suc.IH) (simp_all del: nth_mt_block)
  ultimately show ?case by simp
qed

lemma nextState_block:
  assumes "mt_state g = mt_block seed k 0"
  shows "mt_state (THRandom_nextState g) = mt_block seed (MERSENNE_STATE_N + k) 0"
proof -
  let ?n = MERSENNE_STATE_N and ?m = MERSENNE_STATE_M
  note N = MERSENNE_facts
  have 1: "twist_loop (\<lambda>p. p + ?m) (?n - ?m) 0 (mt_block seed k 0) = mt_block seed k (?n - ?m)"
    using N twist_loop_block [of 0 "?n - ?m" "\<lambda>p. p + ?m" seed k] by (simp add: add.assoc)
  have 2: "twist_loop (\<lambda>p. p + ?m - ?n) (?m - 1) (?n - ?m) (mt_block seed k (?n - ?m)) = mt_block seed k (?n - 1)"
  proof -
    have "q + ?m - ?n < ?n \<and> mt_block seed k q ! (q + ?m - ?n) = mt_seq seed (k + q + ?m)"
      if "?n - ?m \<le> q" "q < ?n - ?m + (?m - 1)" for q
    proof -
      have "q + ?m - ?n < q" "?n + k + (q + ?m - ?n) = k + q + ?m" "q + ?m - ?n < ?n" using that N by auto
      then show ?thesis by (simp add: add.assoc)
    qed
    then show ?thesis using N twist_loop_block [of "?n - ?m" "?m - 1" "\<lambda>p. p + ?m - ?n" seed k] by simp
  qed
  have 3: "(mt_block seed k (?n - 1))[?n - 1 := mt_block seed k (?n - 1) ! (?n - 1 + ?m - ?n) XOR
      TWIST (mt_block seed k (?n - 1) ! (?n - 1)) (mt_block seed k (?n - 1) ! 0)] = mt_block seed k (?n - 1 + 1)"
  proof -
    have "?m - Suc 0 < ?n - Suc 0" using N by linarith
    then show ?thesis using N by (intro mt_block_step) (simp_all add: add.commute add.left_commute)
  qed
  have "mt_block seed k ?n = mt_block seed (?n + k) 0"
    by (rule nth_equalityI) simp_all
  then show ?thesis
    using 1 2 3 assms N by (simp add: THRandom_nextState_def Let_def)
qed

section \<open>The state at a position of the sequence\<close>

text \<open>
  \<open>mt_at seed g i\<close>: the generator holds a block of the sequence of \<open>seed\<close> and its next output comes from word \<open>i\<close>.
  With one word left the block is used up, and \<open>next_index\<close> is not read before the block is regenerated.
\<close>

definition mt_at :: "64 word \<Rightarrow> THGeneratorState \<Rightarrow> nat \<Rightarrow> bool" where
  "mt_at seed g i \<longleftrightarrow> (\<exists>k r. mt_state g = mt_block seed k 0 \<and> i = k + r \<and> 0 < r \<and> r \<le> MERSENNE_STATE_N \<and>
     left g = int (MERSENNE_STATE_N + 1 - r) \<and> (r < MERSENNE_STATE_N \<longrightarrow> unat (next_index g) = r) \<and>
     unat (next_index g) \<le> r \<and> seeded g = 1)"

lemma manualSeed_mt_at: "mt_at seed (THRandom_manualSeed seed g) MERSENNE_STATE_N"
proof -
  let ?z = "replicate MERSENNE_STATE_N (0 :: 64 word)"
  have "seed_loop 1 (?z[0 := seed AND 0xffffffff]) = map (mt_seq seed) [0..<MERSENNE_STATE_N]"
    using MERSENNE_facts by (intro seed_loop_prefix) (simp_all add: mt_seq_init(1))
  moreover have "map (mt_seq seed) [0..<MERSENNE_STATE_N] = mt_block seed 0 0"
    by (simp add: mt_block_def)
  ultimately have "mt_state (THRandom_manualSeed seed g) = mt_block seed 0 0"
    by (simp add: THRandom_manualSeed_def THGenerator_copy_def THGenerator_newUnseeded_def)
  then show ?thesis
    using MERSENNE_facts unfolding mt_at_def
    by (intro exI [of _ 0] exI [of _ MERSENNE_STATE_N])
      (simp add: THRandom_manualSeed_def THGenerator_copy_def THGenerator_newUnseeded_def)
qed

lemma random_mt_at:
  assumes "mt_at seed g i"
  obtains g' where "THRandom_random g = (Inr (temper (mt_seq seed i)), g')" "mt_at seed g' (i + 1)"
proof -
  let ?n = MERSENNE_STATE_N
  note N = MERSENNE_facts
  from assms obtain k r where st: "mt_state g = mt_block seed k 0" and i: "i = k + r" and r: "0 < r" "r \<le> ?n"
    and left: "left g = int (?n + 1 - r)" and nx: "r < ?n \<Longrightarrow> unat (next_index g) = r" and sd: "seeded g = 1"
    unfolding mt_at_def by blast
  have one: "unat (1 :: 64 word) = 1" by simp
  show thesis
  proof (cases "r = ?n")
    case True
    let ?h = "THRandom_nextState (g\<lparr>left := 0\<rparr>)"
    have blk: "mt_state ?h = mt_block seed (?n + k) 0" by (rule nextState_block) (simp add: st)
    have run: "THRandom_random g = (Inr (temper (mt_seq seed i)), ?h\<lparr>next_index := 1\<rparr>)"
      using True left i N blk by (simp add: THRandom_random_def bindm_def seqm_def THRandom_nextState_def Let_def)
        (simp add: add.commute)
    have "mt_at seed (?h\<lparr>next_index := 1\<rparr>) (i + 1)" unfolding mt_at_def
      using blk True i N sd by (intro exI [of _ "?n + k"] exI [of _ 1]) (simp add: THRandom_nextState_def Let_def)
    with run show thesis by (rule that)
  next
    case False
    let ?h = "g\<lparr>left := left g - 1, next_index := next_index g + 1\<rparr>"
    have lt: "r < ?n" using False r by simp
    have nr: "unat (next_index g) = r" by (rule nx [OF lt])
    have nz: "left g - 1 \<noteq> 0" using lt left by simp
    have run: "THRandom_random g = (Inr (temper (mt_seq seed i)), ?h)"
      using nz lt st i nr by (simp add: THRandom_random_def bindm_def seqm_def)
    have "unat (next_index g + 1) = r + 1"
      using nr lt N by (subst unat_add_lem [THEN iffD1]) simp_all
    then have "mt_at seed ?h (i + 1)" unfolding mt_at_def
      using st lt i left sd by (intro exI [of _ k] exI [of _ "r + 1"]) simp
    with run show thesis by (rule that)
  qed
qed

lemma mt_at_valid: "mt_at seed g i \<Longrightarrow> THGeneratorState_isValid g"
  unfolding mt_at_def THGeneratorState_isValid_def by (elim exE conjE, intro conjI) linarith+

section \<open>32 bits\<close>

definition is32 :: "64 word \<Rightarrow> bool" where
  "is32 x \<longleftrightarrow> take_bit 32 x = x"

lemma is32_ops:
  "is32 x \<Longrightarrow> is32 y \<Longrightarrow> is32 (x XOR y)"
  "is32 x \<Longrightarrow> is32 y \<Longrightarrow> is32 (x OR y)"
  "is32 y \<Longrightarrow> is32 (x AND y)"
  by (auto simp: is32_def bit_eq_iff bit_simps)

lemma is32_drop_bit: "is32 x \<Longrightarrow> is32 (drop_bit k x)"
  unfolding is32_def by (rule bit_word_eqI) (metis bit_drop_bit_eq bit_take_bit_iff comp_apply le_add2 order_le_less_trans)

lemma is32_numerals [simp]:
  "is32 0" "is32 0xffffffff" "is32 UMASK" "is32 LMASK" "is32 MATRIX_A" "is32 0x9d2c5680" "is32 0xefc60000"
  by (simp_all add: is32_def UMASK_def LMASK_def MATRIX_A_def)

lemma is32_lt: "is32 x \<Longrightarrow> unat x < 2 ^ 32"
  unfolding is32_def by (metis take_bit_nat_less_exp unsigned_take_bit_eq)

lemma TWIST_32: "is32 (TWIST u v)"
  by (simp add: TWIST_def MIXBITS_def is32_ops is32_drop_bit)

lemma mt_seq_32: "is32 (mt_seq seed k)"
proof (induction seed k rule: mt_seq.induct)
  case (1 seed k)
  consider "k = 0" | "0 < k" "k < MERSENNE_STATE_N" | "MERSENNE_STATE_N \<le> k" by linarith
  then show ?case
  proof cases
    case 3
    then have "\<not> (k = 0)" "\<not> k < MERSENNE_STATE_N" using MERSENNE_facts by auto
    then show ?thesis using "1.IH" by (subst mt_seq.simps) (simp add: is32_ops TWIST_32)
  qed (simp_all add: mt_seq_init seed_step_def is32_ops)
qed

lemma temper_32: "is32 y \<Longrightarrow> is32 (temper y)"
  unfolding temper_def Let_def by (intro is32_ops is32_drop_bit is32_numerals)

section \<open>Permutations\<close>

lemma mset_swap_update:
  assumes "i < length r" "j < length r"
  shows "mset ((r[i := r ! j])[j := r ! i]) = mset r"
  using assms mset_swap [of i r j] by (cases "i = j") (simp_all add: list_update_swap)

lemma randperm_loop_mset:
  assumes "mt_at seed g k" "length r = n" "i \<le> n"
  shows "\<exists>r' g'. randperm_loop n i r g = (Inr r', g') \<and> mset r' = mset r \<and> mt_at seed g' (k + (n - 1 - i))"
  using assms
proof (induction n i r arbitrary: g k rule: randperm_loop.induct)
  case (1 n i r)
  show ?case
  proof (cases "i < n - 1")
    case True
    obtain h where h: "THRandom_random g = (Inr (temper (mt_seq seed k)), h)" "mt_at seed h (k + 1)"
      using random_mt_at [OF "1.prems"(1)] .
    let ?z = "unat (temper (mt_seq seed k)) mod (n - i)"
    let ?r = "(r[i := r ! (?z + i)])[?z + i := r ! i]"
    have z: "?z + i < n" using True mod_less_divisor [of "n - i"] by (simp add: less_diff_conv)
    have "\<exists>r' g'. randperm_loop n (i + 1) ?r h = (Inr r', g') \<and> mset r' = mset ?r \<and>
        mt_at seed g' (k + 1 + (n - 1 - (i + 1)))"
      by (rule "1.IH" [OF True refl refl h(2)]) (use True "1.prems"(2) in simp_all)
    then obtain r' g' where r': "randperm_loop n (i + 1) ?r h = (Inr r', g')" "mset r' = mset ?r"
        "mt_at seed g' (k + 1 + (n - 1 - (i + 1)))"
      by blast
    have m: "mset ?r = mset r" using z True "1.prems"(2) by (intro mset_swap_update) simp_all
    have "randperm_loop n i r g = (Inr r', g')"
      using True h(1) r'(1) by (simp add: randperm_loop.simps [of n i] Let_def)
    moreover have "k + 1 + (n - 1 - (i + 1)) = k + (n - 1 - i)" using True by simp
    ultimately show ?thesis using r' m by metis
  next
    case False
    then show ?thesis using "1.prems" by (simp add: randperm_loop.simps [of n i])
  qed
qed

lemma randperm_out_mset:
  assumes "mt_at seed g k" "0 \<le> n"
  shows "\<exists>r g'. randperm_out_cpu cast n g = (Inr r, g') \<and> mset r = mset (map cast [0..<nat n]) \<and>
    mt_at seed g' (k + (nat n - 1))"
  using randperm_loop_mset [OF assms(1), of "map cast [0..<nat n]" "nat n" 0] assms(2)
  by (simp add: randperm_out_cpu_def randperm_cpu_def)

section \<open>Properties\<close>

fun draws :: "nat \<Rightarrow> (THGeneratorState, 64 word list) mon" where
  "draws 0 = ret []"
| "draws (Suc k) = bindm THRandom_random (\<lambda>x. bindm (draws k) (\<lambda>xs. ret (x # xs)))"

lemma draws_mt_at:
  assumes "mt_at seed g i"
  shows "\<exists>g'. draws k g = (Inr (map (\<lambda>j. temper (mt_seq seed (i + j))) [0..<k]), g') \<and> mt_at seed g' (i + k)"
  using assms
proof (induction k arbitrary: g i)
  case 0
  then show ?case by simp
next
  case (Suc k)
  obtain h where h: "THRandom_random g = (Inr (temper (mt_seq seed i)), h)" "mt_at seed h (i + 1)"
    using random_mt_at [OF Suc.prems] .
  obtain g' where g': "draws k h = (Inr (map (\<lambda>j. temper (mt_seq seed (i + 1 + j))) [0..<k]), g')"
      "mt_at seed g' (i + 1 + k)"
    using Suc.IH [OF h(2)] by blast
  have "map (\<lambda>j. temper (mt_seq seed (i + j))) [0..<Suc k] =
      temper (mt_seq seed i) # map (\<lambda>j. temper (mt_seq seed (i + 1 + j))) [0..<k]"
    by (subst upt_conv_Cons, simp, subst map_Suc_upt [symmetric]) (simp del: map_Suc_upt)
  then show ?case using h(1) g' by simp
qed

text \<open>
  Property C12. After \<open>THRandom_manualSeed\<close>, for every number of calls, \<open>THRandom_random\<close> returns the tempered words of
  the MT19937 recurrence from position 624 on, one after the other, although it regenerates its 624 words in place in
  three loops; each of them is below \<open>2 ^ 32\<close>, no call reads outside the state array, and the state stays valid.
\<close>

theorem random_follows_mt19937:
  "\<exists>g'. draws k (THRandom_manualSeed seed g) =
     (Inr (map (\<lambda>j. temper (mt_seq seed (MERSENNE_STATE_N + j))) [0..<k]), g') \<and>
   list_all (\<lambda>x. unat x < 2 ^ 32) (map (\<lambda>j. temper (mt_seq seed (MERSENNE_STATE_N + j))) [0..<k]) \<and>
   THGeneratorState_isValid g'"
  using draws_mt_at [OF manualSeed_mt_at [of seed g], of k] mt_at_valid
  by (auto simp: list_all_iff is32_lt [simplified] temper_32 mt_seq_32)

text \<open>
  \<open>THGeneratorState_isValid\<close>, the check made on generator states that come from the user, accepts states
  on which \<open>THRandom_random\<close> reads past the end of the state array: it bounds \<open>left\<close> and \<open>next\<close> separately.
\<close>

theorem isValid_admits_out_of_bounds:
  "\<exists>g. THGeneratorState_isValid g \<and> length (mt_state g) = MERSENNE_STATE_N \<and>
     fst (THRandom_random g) = Inl UndefinedBehaviour"
proof -
  let ?g = "THGenerator_newUnseeded\<lparr>seeded := 1, left := 2, next_index := 624\<rparr>"
  have "THGeneratorState_isValid ?g" by (simp add: THGeneratorState_isValid_def MERSENNE_STATE_N_def)
  moreover have "length (mt_state ?g) = MERSENNE_STATE_N" by (simp add: THGenerator_newUnseeded_def)
  moreover have "fst (THRandom_random ?g) = Inl UndefinedBehaviour"
    by (simp add: THRandom_random_def bindm_def seqm_def MERSENNE_STATE_N_def)
  ultimately show ?thesis by blast
qed

text \<open>
  From a seeded generator that has made any number of draws, \<open>randperm\<close> returns for every \<open>n \<ge> 0\<close> a
  permutation of the \<open>n\<close> converted positions, and throws for a negative \<open>n\<close> without a draw.
\<close>

theorem randperm_permutation:
  assumes "draws d (THRandom_manualSeed seed g0) = (Inr xs, g)"
  shows "if n < 0 then randperm_out_cpu cast n g = (Inl (C10Error ''n must be non-negative, got''), g)
    else (\<exists>r g'. randperm_out_cpu cast n g = (Inr r, g') \<and> mset r = mset (map cast [0..<nat n]) \<and>
      THGeneratorState_isValid g')"
proof -
  have "mt_at seed g (MERSENNE_STATE_N + d)"
    using draws_mt_at [OF manualSeed_mt_at [of seed g0], of d] assms by auto
  then show ?thesis
    using randperm_out_mset [of seed g _ n cast] mt_at_valid by (fastforce simp: randperm_out_cpu_def)
qed

theorem randperm_permutation_witness:
  "\<exists>r g'. randperm_out_cpu (\<lambda>i. i) 3 (THRandom_manualSeed 42 THGenerator_newUnseeded) = (Inr r, g') \<and>
     mset r = {#0, 1, 2#} \<and> THGeneratorState_isValid g'"
proof -
  have "draws 0 (THRandom_manualSeed 42 THGenerator_newUnseeded) =
      (Inr [], THRandom_manualSeed 42 THGenerator_newUnseeded)" by simp
  from randperm_permutation [OF this, of 3 "\<lambda>i. i"] show ?thesis by (simp add: upt_rec numeral_2_eq_2)
qed

end
