(* ===== verification/Samplers.thy ===== *)
theory Samplers
  imports Random_Generator Scalar_Types "HOL-Library.Log_Nat"
begin

text \<open>
  The samplers of the C++ data API (torch/csrc/api/src/data/samplers and the headers beside them): sequential, random,
  stream and the two distributed ones, each with its construction, \<open>reset\<close>, \<open>next\<close>, \<open>save\<close> and \<open>load\<close>. Their common
  contract is the locale \<open>index_sampler\<close>: a sampler has a list of indices still to come and \<open>next\<close> hands out a batch from
  its front. The locale \<open>sampler\<close> is the weaker contract that only counts, which the stream sampler satisfies too.
\<close>

section \<open>Serialization archives\<close>

text \<open>The parameters and the buffers of the module behind an archive; a tensor is the list of its elements.\<close>

record archive =
  parameters :: "string \<rightharpoonup> int list"
  buffers :: "string \<rightharpoonup> int list"

definition empty_archive :: archive where
  "empty_archive = \<lparr>parameters = Map.empty, buffers = Map.empty\<rparr>"

definition archive_write :: "string \<Rightarrow> int list \<Rightarrow> bool \<Rightarrow> (archive, unit) mon" where
  "archive_write key t is_buffer = (\<lambda>a.
     if is_buffer
     then if buffers a key = None \<and> parameters a key \<noteq> None then throw (C10Error ''attempting to add a name that already exists'') a
       else modify (\<lambda>a. a\<lparr>buffers := (buffers a)(key \<mapsto> t)\<rparr>) a
     else if parameters a key = None \<and> buffers a key \<noteq> None then throw (C10Error ''attempting to add a name that already exists'') a
       else modify (\<lambda>a. a\<lparr>parameters := (parameters a)(key \<mapsto> t)\<rparr>) a)"

definition archive_try_read :: "string \<Rightarrow> bool \<Rightarrow> archive \<Rightarrow> int list option result" where
  "archive_try_read key is_buffer a =
     (let param = parameters a key; buffer = buffers a key
      in if param = None \<and> buffer = None then Inr None
         else case (if is_buffer then buffer else param) of
             None \<Rightarrow> Inl UndefinedBehaviour
           | Some t \<Rightarrow> if (buffer \<noteq> None) = is_buffer then Inr (Some t)
               else Inl (C10Error ''Expected deserialized tensor for key to be a buffer, but it was not''))"

definition archive_read :: "string \<Rightarrow> bool \<Rightarrow> archive \<Rightarrow> int list result" where
  "archive_read key is_buffer a =
     rbind (archive_try_read key is_buffer a) (\<lambda>t. case t of
       None \<Rightarrow> Inl (C10Error ''No such serialized tensor'') | Some t \<Rightarrow> Inr t)"

definition item :: "int list \<Rightarrow> int result" where
  "item t = (case t of [x] \<Rightarrow> Inr x
     | _ \<Rightarrow> Inl (C10Error ''only one element tensors can be converted to Python scalars''))"

section \<open>The sequential sampler\<close>

record SequentialSampler =
  seq_size :: nat
  seq_index :: nat

definition new_SequentialSampler :: "nat \<Rightarrow> SequentialSampler" where
  "new_SequentialSampler n = \<lparr>seq_size = n, seq_index = 0\<rparr>"

definition SequentialSampler_reset :: "nat option \<Rightarrow> SequentialSampler \<Rightarrow> SequentialSampler" where
  "SequentialSampler_reset new_size s =
     (case new_size of None \<Rightarrow> s | Some n \<Rightarrow> s\<lparr>seq_size := n\<rparr>)\<lparr>seq_index := 0\<rparr>"

text \<open>The loop \<open>for (auto& i : index_batch) i = index_++\<close>.\<close>

fun count_up :: "nat \<Rightarrow> nat \<Rightarrow> nat list \<times> nat" where
  "count_up 0 index = ([], index)"
| "count_up (Suc n) index = (let (batch, index') = count_up n (add64 index 1) in (index # batch, index'))"

definition SequentialSampler_next :: "nat \<Rightarrow> (SequentialSampler, nat list option) mon" where
  "SequentialSampler_next batch_size = (\<lambda>s.
     let remaining_indices = sub64 (seq_size s) (seq_index s)
     in if remaining_indices = 0 then (Inr None, s)
        else let (index_batch, index) = count_up (min batch_size remaining_indices) (seq_index s)
          in (Inr (Some index_batch), s\<lparr>seq_index := index\<rparr>))"

definition SequentialSampler_save :: "SequentialSampler \<Rightarrow> (archive, unit) mon" where
  "SequentialSampler_save s = archive_write ''index'' [int64_of (seq_index s)] True"

definition SequentialSampler_load :: "archive \<Rightarrow> (SequentialSampler, unit) mon" where
  "SequentialSampler_load a = (\<lambda>s.
     case rbind (archive_read ''index'' True a) item of
       Inl e \<Rightarrow> (Inl e, s)
     | Inr i \<Rightarrow> (Inr (), s\<lparr>seq_index := size_t_of i\<rparr>))"

section \<open>The random sampler\<close>

text \<open>
  An index is stored in \<open>index_dtype\<close> and read back as \<open>int64_t\<close>: integer types wrap, floating point types round to
  nearest even at 24 or 53 bits.
\<close>

definition round_mantissa :: "nat \<Rightarrow> nat \<Rightarrow> nat" where
  "round_mantissa p i = (if i < 2 ^ p then i else
     let k = floorlog 2 i - p; q = i div 2 ^ k; r = i mod 2 ^ k
     in (if 2 * r > 2 ^ k \<or> (2 * r = 2 ^ k \<and> odd q) then q + 1 else q) * 2 ^ k)"

fun index_cast :: "ScalarType \<Rightarrow> nat \<Rightarrow> int" where
  "index_cast Byte i = take_bit 8 (int i)"
| "index_cast ScalarType.Char i = signed_take_bit 7 (int i)"
| "index_cast Short i = signed_take_bit 15 (int i)"
| "index_cast ScalarType.Int i = signed_take_bit 31 (int i)"
| "index_cast Float i = int (round_mantissa 24 i)"
| "index_cast Double i = int (round_mantissa 53 i)"
| "index_cast _ i = signed_take_bit 63 (int i)"

definition dispatch_all_types :: "ScalarType \<Rightarrow> bool" where
  "dispatch_all_types t \<longleftrightarrow> t \<in> {Byte, ScalarType.Char, Double, Float, ScalarType.Int, Long, Short}"

definition randperm :: "int \<Rightarrow> ScalarType \<Rightarrow> (THGeneratorState, int list) mon" where
  "randperm n dtype =
     (if n < 0 then throw (C10Error ''Trying to create tensor with negative dimension '')
      else if dispatch_all_types dtype then randperm_out_cpu (index_cast dtype) n
      else throw (C10Error ''randperm not implemented for ''))"

record RandomSampler =
  rnd_indices :: "int list"
  rnd_dtype :: ScalarType
  rnd_index :: int

definition new_RandomSampler :: "int \<Rightarrow> ScalarType \<Rightarrow> (THGeneratorState, RandomSampler) mon" where
  "new_RandomSampler n index_dtype =
     bindm (randperm n index_dtype) (\<lambda>r. ret \<lparr>rnd_indices = r, rnd_dtype = index_dtype, rnd_index = 0\<rparr>)"

text \<open>The default generator is global, so it is part of the state the sampler works on.\<close>

type_synonym random_state = "RandomSampler \<times> THGeneratorState"

definition RandomSampler_reset :: "nat option \<Rightarrow> (random_state, unit) mon" where
  "RandomSampler_reset new_size = (\<lambda>(s, g).
     let n = (case new_size of None \<Rightarrow> length (rnd_indices s) | Some n \<Rightarrow> n)
     in case randperm (int64_of n) (rnd_dtype s) g of
          (Inl e, g') \<Rightarrow> (Inl e, (s, g'))
        | (Inr r, g') \<Rightarrow> (Inr (), (s\<lparr>rnd_indices := r, rnd_index := 0\<rparr>, g')))"

text \<open>\<open>Tensor::slice\<close> on a one-dimensional tensor with step one.\<close>

definition slice_bounds :: "int \<Rightarrow> int \<Rightarrow> int \<Rightarrow> int \<times> int" where
  "slice_bounds n start end =
     (let start = (if start < 0 then start + n else start);
          end = (if end < 0 then end + n else end);
          start = (if start < 0 then 0 else if start \<ge> n then n else start);
          end = (if end < start then start else if end \<ge> n then n else end)
      in (start, end))"

definition slice :: "int \<Rightarrow> int \<Rightarrow> 'a list \<Rightarrow> 'a list" where
  "slice start end xs = (let (i, j) = slice_bounds (int (length xs)) start end in take (nat (j - i)) (drop (nat i) xs))"

definition RandomSampler_next :: "nat \<Rightarrow> (random_state, nat list option) mon" where
  "RandomSampler_next batch_size = (\<lambda>(s, g).
     if rnd_index s \<le> int (length (rnd_indices s)) then
       let remaining_indices = size_t_of (int (length (rnd_indices s)) - rnd_index s)
       in if remaining_indices = 0 then (Inr None, (s, g))
          else let n = min batch_size remaining_indices;
                   data = slice (rnd_index s) (rnd_index s + int n) (rnd_indices s)
            in if length data < n then (Inl UndefinedBehaviour, (s, g))
               else (Inr (Some (map size_t_of (take n data))), (s\<lparr>rnd_index := rnd_index s + int n\<rparr>, g))
     else (Inl (C10Error ''ASSERT FAILED''), (s, g)))"

definition RandomSampler_save :: "RandomSampler \<Rightarrow> (archive, unit) mon" where
  "RandomSampler_save s =
     seqm (archive_write ''index'' [rnd_index s] True) (archive_write ''indices'' (rnd_indices s) True)"

definition RandomSampler_load :: "archive \<Rightarrow> (random_state, unit) mon" where
  "RandomSampler_load a = (\<lambda>(s, g).
     case rbind (archive_read ''index'' True a) item of
       Inl e \<Rightarrow> (Inl e, (s, g))
     | Inr i \<Rightarrow> (case archive_read ''indices'' True a of
           Inl e \<Rightarrow> (Inl e, (s\<lparr>rnd_index := i\<rparr>, g))
         | Inr r \<Rightarrow> (Inr (), (s\<lparr>rnd_index := i, rnd_indices := r\<rparr>, g))))"

section \<open>The stream sampler\<close>

record StreamSampler =
  examples_retrieved_so_far :: nat
  epoch_size :: nat

definition new_StreamSampler :: "nat \<Rightarrow> StreamSampler" where
  "new_StreamSampler n = \<lparr>examples_retrieved_so_far = 0, epoch_size = n\<rparr>"

definition StreamSampler_reset :: "nat option \<Rightarrow> StreamSampler \<Rightarrow> StreamSampler" where
  "StreamSampler_reset new_size s =
     (case new_size of None \<Rightarrow> s | Some n \<Rightarrow> s\<lparr>epoch_size := n\<rparr>)\<lparr>examples_retrieved_so_far := 0\<rparr>"

definition StreamSampler_next :: "nat \<Rightarrow> (StreamSampler, nat option) mon" where
  "StreamSampler_next batch_size = (\<lambda>s.
     let got = examples_retrieved_so_far s
     in if got \<le> epoch_size s then
          if got = epoch_size s then (Inr None, s)
          else let n = (if add64 got batch_size > epoch_size s then sub64 (epoch_size s) got else batch_size)
            in (Inr (Some n), s\<lparr>examples_retrieved_so_far := add64 got n\<rparr>)
        else (Inl (C10Error ''ASSERT FAILED''), s))"

definition StreamSampler_save :: "StreamSampler \<Rightarrow> (archive, unit) mon" where
  "StreamSampler_save s =
     archive_write ''examples_retrieved_so_far'' [int64_of (examples_retrieved_so_far s)] True"

definition StreamSampler_load :: "archive \<Rightarrow> (StreamSampler, unit) mon" where
  "StreamSampler_load a = (\<lambda>s.
     case rbind (archive_read ''examples_retrieved_so_far'' True a) item of
       Inl e \<Rightarrow> (Inl e, s)
     | Inr i \<Rightarrow> (Inr (), s\<lparr>examples_retrieved_so_far := size_t_of i\<rparr>))"

section \<open>The distributed samplers\<close>

record DistributedSampler =
  ds_size :: nat
  num_replicas :: nat
  rank :: nat
  epoch :: nat
  allow_duplicates :: bool

definition new_DistributedSampler :: "nat \<Rightarrow> nat \<Rightarrow> nat \<Rightarrow> bool \<Rightarrow> DistributedSampler" where
  "new_DistributedSampler n replicas r dup =
     \<lparr>ds_size = n, num_replicas = replicas, rank = r, epoch = 0, allow_duplicates = dup\<rparr>"

definition set_epoch :: "nat \<Rightarrow> 'a DistributedSampler_scheme \<Rightarrow> 'a DistributedSampler_scheme" where
  "set_epoch e s = s\<lparr>epoch := e\<rparr>"

text \<open>A division by zero replicas has no defined behaviour.\<close>

definition local_sample_count :: "'a DistributedSampler_scheme \<Rightarrow> nat result" where
  "local_sample_count s = (if num_replicas s = 0 then Inl UndefinedBehaviour
     else if allow_duplicates s
       then Inr (sub64 (add64 (ds_size s) (num_replicas s)) 1 div num_replicas s)
       else Inr (ds_size s div num_replicas s))"

record DistributedRandomSampler = DistributedSampler +
  dr_begin_index :: nat
  dr_end_index :: nat
  dr_sample_index :: nat
  all_indices :: "nat list"

definition DistributedRandomSampler_populate_indices :: "DistributedRandomSampler \<Rightarrow> DistributedRandomSampler result" where
  "DistributedRandomSampler_populate_indices s =
     rbind (local_sample_count s) (\<lambda>num_local_samples.
     let sample_count = (if num_replicas s = 1 then ds_size s else mul64 num_local_samples (num_replicas s));
         indices = map (\<lambda>i. if i < ds_size s then i else sub64 i (ds_size s)) [0..<sample_count];
         begin_index = mul64 (rank s) num_local_samples
     in Inr (s\<lparr>all_indices := indices, dr_begin_index := begin_index,
          dr_end_index := add64 begin_index num_local_samples, dr_sample_index := begin_index\<rparr>))"

text \<open>
  \<open>shuffle seed xs\<close> is the effect of \<open>std::shuffle\<close> on \<open>xs\<close> with a \<open>std::mt19937\<close> seeded with \<open>seed\<close>, which the C++
  standard leaves to the implementation: an argument of the operations.
\<close>

definition DistributedRandomSampler_reset ::
  "(nat \<Rightarrow> nat list \<Rightarrow> nat list) \<Rightarrow> nat option \<Rightarrow> (DistributedRandomSampler, unit) mon" where
  "DistributedRandomSampler_reset shuffle new_size = (\<lambda>s.
     let s = s\<lparr>ds_size := (case new_size of None \<Rightarrow> ds_size s | Some n \<Rightarrow> n)\<rparr>
     in case DistributedRandomSampler_populate_indices s of
          Inl e \<Rightarrow> (Inl e, s)
        | Inr s \<Rightarrow> (Inr (), s\<lparr>all_indices := shuffle (epoch s) (all_indices s),
            dr_sample_index := dr_begin_index s\<rparr>))"

definition new_DistributedRandomSampler ::
  "(nat \<Rightarrow> nat list \<Rightarrow> nat list) \<Rightarrow> nat \<Rightarrow> nat \<Rightarrow> nat \<Rightarrow> bool \<Rightarrow> DistributedRandomSampler result" where
  "new_DistributedRandomSampler shuffle n replicas r dup =
     (let s = DistributedSampler.extend (new_DistributedSampler n replicas r dup)
            \<lparr>dr_begin_index = 0, dr_end_index = 0, dr_sample_index = 0, all_indices = []\<rparr>
      in case DistributedRandomSampler_reset shuffle (Some n) s of (Inl e, _) \<Rightarrow> Inl e | (Inr _, s) \<Rightarrow> Inr s)"

definition DistributedRandomSampler_next :: "nat \<Rightarrow> (DistributedRandomSampler, nat list option) mon" where
  "DistributedRandomSampler_next batch_size = (\<lambda>s.
     if dr_sample_index s = dr_end_index s then (Inr None, s)
     else let end = add64 (dr_sample_index s) batch_size;
              end = (if end > dr_end_index s then dr_end_index s else end)
       in if dr_sample_index s \<le> end \<and> end \<le> length (all_indices s)
          then (Inr (Some (take (end - dr_sample_index s) (drop (dr_sample_index s) (all_indices s)))),
            s\<lparr>dr_sample_index := end\<rparr>)
          else (Inl UndefinedBehaviour, s))"

definition DistributedRandomSampler_save :: "DistributedRandomSampler \<Rightarrow> (archive, unit) mon" where
  "DistributedRandomSampler_save s =
     seqm (archive_write ''sample_index_'' [int64_of (dr_sample_index s)] True)
       (archive_write ''epoch_'' [int64_of (epoch s)] True)"

definition DistributedRandomSampler_load ::
  "(nat \<Rightarrow> nat list \<Rightarrow> nat list) \<Rightarrow> archive \<Rightarrow> (DistributedRandomSampler, unit) mon" where
  "DistributedRandomSampler_load shuffle a = (\<lambda>s.
     case rbind (archive_read ''epoch_'' True a) item of
       Inl e \<Rightarrow> (Inl e, s)
     | Inr ep \<Rightarrow> (let s = s\<lparr>epoch := size_t_of ep\<rparr>
         in seqm (DistributedRandomSampler_reset shuffle (Some (ds_size s)))
           (\<lambda>s. case rbind (archive_read ''sample_index_'' True a) item of
              Inl e \<Rightarrow> (Inl e, s)
            | Inr i \<Rightarrow> (Inr (), s\<lparr>dr_sample_index := size_t_of i\<rparr>)) s))"

record DistributedSequentialSampler = DistributedSampler +
  dq_begin_index :: nat
  dq_end_index :: nat
  dq_sample_index :: nat

definition DistributedSequentialSampler_populate_indices ::
  "DistributedSequentialSampler \<Rightarrow> DistributedSequentialSampler result" where
  "DistributedSequentialSampler_populate_indices s =
     rbind (local_sample_count s) (\<lambda>num_local_samples.
     let begin_index = mul64 (rank s) num_local_samples
     in Inr (s\<lparr>dq_begin_index := begin_index, dq_end_index := add64 begin_index num_local_samples,
          dq_sample_index := begin_index\<rparr>))"

definition new_DistributedSequentialSampler ::
  "nat \<Rightarrow> nat \<Rightarrow> nat \<Rightarrow> bool \<Rightarrow> DistributedSequentialSampler result" where
  "new_DistributedSequentialSampler n replicas r dup =
     DistributedSequentialSampler_populate_indices
       (DistributedSampler.extend (new_DistributedSampler n replicas r dup)
          \<lparr>dq_begin_index = 0, dq_end_index = 0, dq_sample_index = 0\<rparr>)"

text \<open>\<open>std::vector<size_t>(n)\<close> throws \<open>std::length_error\<close> above \<open>max_size()\<close>.\<close>

definition vector_max_size :: nat where
  "vector_max_size = 2 ^ 60 - 1"

definition DistributedSequentialSampler_next :: "nat \<Rightarrow> (DistributedSequentialSampler, nat list option) mon" where
  "DistributedSequentialSampler_next batch_size = (\<lambda>s.
     if dq_sample_index s = dq_end_index s then (Inr None, s)
     else let end = add64 (dq_sample_index s) batch_size;
              end = (if end > dq_end_index s then dq_end_index s else end);
              n = sub64 end (dq_sample_index s)
       in if n > vector_max_size then (Inl LengthError, s)
          else let res = map (add64 (dq_sample_index s)) [0..<n]
            in if end \<ge> ds_size s
               then if ds_size s = 0 \<and> res \<noteq> [] then (Inl UndefinedBehaviour, s)
                 else (Inr (Some (map (\<lambda>i. i mod ds_size s) res)), s\<lparr>dq_sample_index := end\<rparr>)
               else (Inr (Some res), s\<lparr>dq_sample_index := end\<rparr>))"

definition DistributedSequentialSampler_reset :: "nat option \<Rightarrow> (DistributedSequentialSampler, unit) mon" where
  "DistributedSequentialSampler_reset new_size = (\<lambda>s.
     let n = (case new_size of None \<Rightarrow> ds_size s | Some n \<Rightarrow> n)
     in if n \<noteq> ds_size s
        then let s = s\<lparr>ds_size := n\<rparr>
          in case DistributedSequentialSampler_populate_indices s of
               Inl e \<Rightarrow> (Inl e, s) | Inr s \<Rightarrow> (Inr (), s)
        else (Inr (), s\<lparr>dq_sample_index := dq_begin_index s\<rparr>))"

definition DistributedSequentialSampler_save :: "DistributedSequentialSampler \<Rightarrow> (archive, unit) mon" where
  "DistributedSequentialSampler_save s = archive_write ''sample_index_'' [int64_of (dq_sample_index s)] True"

definition DistributedSequentialSampler_load :: "archive \<Rightarrow> (DistributedSequentialSampler, unit) mon" where
  "DistributedSequentialSampler_load a = (\<lambda>s.
     case rbind (archive_read ''sample_index_'' True a) item of
       Inl e \<Rightarrow> (Inl e, s)
     | Inr i \<Rightarrow> (Inr (), s\<lparr>dq_sample_index := size_t_of i\<rparr>))"

end
