(* ===== verification/Sampler_Contracts.thy ===== *)
theory Sampler_Contracts
  imports Samplers
begin

text \<open>
  The contract of samplers as locales, the samplers of the library as their interpretations, and the properties of whole
  epochs: which indices a sampler hands out, how the replicas of a distributed sampler share a dataset, and that a saved
  sampler continues where it was.
\<close>

section \<open>Epochs\<close>

text \<open>An epoch asks for batches until the sampler is exhausted, at most \<open>fuel\<close> times.\<close>

fun sample_epoch :: "nat \<Rightarrow> (nat \<Rightarrow> ('s, 'r option) mon) \<Rightarrow> nat \<Rightarrow> ('s, 'r list option) mon" where
  "sample_epoch 0 nxt b = ret None"
| "sample_epoch (Suc fuel) nxt b =
     bindm (nxt b) (\<lambda>r. case r of None \<Rightarrow> ret (Some [])
       | Some r \<Rightarrow> bindm (sample_epoch fuel nxt b) (\<lambda>rs. ret (map_option ((#) r) rs)))"

fun chunks :: "nat \<Rightarrow> 'a list \<Rightarrow> 'a list list" where
  "chunks b xs = (if b = 0 \<or> xs = [] then [] else take b xs # chunks b (drop b xs))"

declare chunks.simps [simp del]

lemma chunks_Nil [simp]: "chunks b [] = []" "chunks 0 xs = []"
  by (simp_all add: chunks.simps [of b] chunks.simps [of 0])

lemma chunks_step: "0 < b \<Longrightarrow> xs \<noteq> [] \<Longrightarrow> chunks b xs = take b xs # chunks b (drop b xs)"
  by (simp add: chunks.simps [of b xs])

lemma concat_chunks: "0 < b \<Longrightarrow> concat (chunks b xs) = xs"
proof (induction b xs rule: chunks.induct)
  case (1 b xs)
  then show ?case by (cases "xs = []") (simp_all add: chunks_step)
qed

lemma chunk_sizes:
  "0 < b \<Longrightarrow> xs \<noteq> [] \<Longrightarrow> list_all (\<lambda>c. length c = b) (butlast (chunks b xs)) \<and>
     0 < length (last (chunks b xs)) \<and> length (last (chunks b xs)) \<le> b"
proof (induction b xs rule: chunks.induct)
  case (1 b xs)
  show ?case
  proof (cases "drop b xs = []")
    case True
    then show ?thesis using 1 by (simp add: chunks_step [of b xs])
  next
    case False
    then have "chunks b (drop b xs) \<noteq> []" using 1 by (simp add: chunks_step [of b "drop b xs"])
    then show ?thesis using 1 False by (simp add: chunks_step [of b xs])
  qed
qed

section \<open>The contracts\<close>

locale sampler =
  fixes inv :: "'s \<Rightarrow> bool"
    and nxt :: "nat \<Rightarrow> ('s, 'r option) mon"
    and req_size :: "'r \<Rightarrow> nat"
    and remaining :: "'s \<Rightarrow> nat"
  assumes nxt_exhausted: "inv s \<Longrightarrow> remaining s = 0 \<Longrightarrow> nxt b s = (Inr None, s)"
    and nxt_batch: "inv s \<Longrightarrow> 0 < remaining s \<Longrightarrow> b < 2 ^ 63 \<Longrightarrow>
      \<exists>r s'. nxt b s = (Inr (Some r), s') \<and> req_size r = min b (remaining s) \<and> inv s' \<and>
        remaining s' = remaining s - min b (remaining s)"
begin

lemma epoch_counts:
  assumes "inv s" "0 < b" "b < 2 ^ 63" "remaining s < fuel"
  shows "\<exists>rs s'. sample_epoch fuel nxt b s = (Inr (Some rs), s') \<and> inv s' \<and> remaining s' = 0 \<and>
    sum_list (map req_size rs) = remaining s \<and> list_all (\<lambda>r. 0 < req_size r \<and> req_size r \<le> b) rs"
  using assms
proof (induction fuel arbitrary: s)
  case 0
  then show ?case by simp
next
  case (Suc fuel)
  show ?case
  proof (cases "remaining s = 0")
    case True
    then show ?thesis using nxt_exhausted [OF Suc.prems(1) True] Suc.prems by simp
  next
    case False
    then obtain r t where r: "nxt b s = (Inr (Some r), t)" "req_size r = min b (remaining s)" "inv t"
        "remaining t = remaining s - min b (remaining s)"
      using nxt_batch [OF Suc.prems(1) _ Suc.prems(3)] by blast
    have "remaining t < fuel" using r(4) Suc.prems(2,4) False by linarith
    then obtain rs s' where rs: "sample_epoch fuel nxt b t = (Inr (Some rs), s')" "inv s'" "remaining s' = 0"
        "sum_list (map req_size rs) = remaining t" "list_all (\<lambda>r. 0 < req_size r \<and> req_size r \<le> b) rs"
      using Suc.IH [OF r(3)] Suc.prems by blast
    then show ?thesis using r False Suc.prems by simp
  qed
qed

end

locale index_sampler =
  fixes inv :: "'s \<Rightarrow> bool"
    and nxt :: "nat \<Rightarrow> ('s, nat list option) mon"
    and rest :: "'s \<Rightarrow> nat list"
  assumes nxt_end: "inv s \<Longrightarrow> rest s = [] \<Longrightarrow> nxt b s = (Inr None, s)"
    and nxt_take: "inv s \<Longrightarrow> rest s \<noteq> [] \<Longrightarrow> b < 2 ^ 63 \<Longrightarrow>
      \<exists>s'. nxt b s = (Inr (Some (take b (rest s))), s') \<and> inv s' \<and> rest s' = drop b (rest s)"
begin

lemma epoch_chunks:
  assumes "inv s" "0 < b" "b < 2 ^ 63" "length (rest s) < fuel"
  shows "\<exists>s'. sample_epoch fuel nxt b s = (Inr (Some (chunks b (rest s))), s') \<and> inv s' \<and> rest s' = []"
  using assms
proof (induction fuel arbitrary: s)
  case 0
  then show ?case by simp
next
  case (Suc fuel)
  show ?case
  proof (cases "rest s = []")
    case True
    then show ?thesis using nxt_end [OF Suc.prems(1) True] Suc.prems by simp
  next
    case False
    then obtain t where t: "nxt b s = (Inr (Some (take b (rest s))), t)" "inv t" "rest t = drop b (rest s)"
      using nxt_take [OF Suc.prems(1) _ Suc.prems(3)] by blast
    have "length (rest t) < fuel" using t(3) Suc.prems False by (cases "rest s") simp_all
    then obtain s' where "sample_epoch fuel nxt b t = (Inr (Some (chunks b (rest t))), s')" "inv s'" "rest s' = []"
      using Suc.IH [OF t(2)] Suc.prems by blast
    then show ?thesis using t False Suc.prems by (simp add: chunks_step)
  qed
qed

end

sublocale index_sampler \<subseteq> counting: sampler inv nxt length "\<lambda>s. length (rest s)"
proof
  show "nxt b s = (Inr None, s)" if "inv s" "length (rest s) = 0" for s b
    using that nxt_end by simp
  show "\<exists>r s'. nxt b s = (Inr (Some r), s') \<and> length r = min b (length (rest s)) \<and> inv s' \<and>
      length (rest s') = length (rest s) - min b (length (rest s))"
    if "inv s" "0 < length (rest s)" "b < 2 ^ 63" for s b
    using nxt_take [of s b] that by fastforce
qed

section \<open>The samplers satisfy the contracts\<close>

subsection \<open>Sequential\<close>

definition sequential_inv :: "SequentialSampler \<Rightarrow> bool" where
  "sequential_inv s \<longleftrightarrow> seq_index s \<le> seq_size s \<and> seq_size s < 2 ^ 64"

definition sequential_rest :: "SequentialSampler \<Rightarrow> nat list" where
  "sequential_rest s = [seq_index s..<seq_size s]"

lemma count_up_eq: "i + n < 2 ^ 64 \<Longrightarrow> count_up n i = ([i..<i + n], i + n)"
proof (induction n arbitrary: i)
  case (Suc n)
  then show ?case by (simp add: upt_conv_Cons)
qed simp

interpretation sequential: index_sampler sequential_inv SequentialSampler_next sequential_rest
proof
  fix s b
  assume s: "sequential_inv s"
  show "SequentialSampler_next b s = (Inr None, s)" if "sequential_rest s = []"
    using s that by (auto simp: sequential_inv_def sequential_rest_def SequentialSampler_next_def)
  assume r: "sequential_rest s \<noteq> []"
  define n where "n = min b (seq_size s - seq_index s)"
  have b: "seq_index s < seq_size s" "seq_size s < 2 ^ 64" "seq_index s + n < 2 ^ 64" "seq_index s + n \<le> seq_size s"
    using s r by (auto simp: sequential_inv_def sequential_rest_def n_def)
  then have "SequentialSampler_next b s =
      (Inr (Some [seq_index s..<seq_index s + n]), s\<lparr>seq_index := seq_index s + n\<rparr>)"
    using count_up_eq [OF b(3)] by (simp add: SequentialSampler_next_def Let_def n_def)
  moreover have "[seq_index s..<seq_index s + n] = take b (sequential_rest s)"
    using b by (simp add: sequential_rest_def n_def take_upt min_def)
  moreover have "sequential_rest (s\<lparr>seq_index := seq_index s + n\<rparr>) = drop b (sequential_rest s)"
    using b by (auto simp: sequential_rest_def n_def min_def)
  moreover have "sequential_inv (s\<lparr>seq_index := seq_index s + n\<rparr>)"
    using b by (simp add: sequential_inv_def)
  ultimately show "\<exists>s'. SequentialSampler_next b s = (Inr (Some (take b (sequential_rest s))), s') \<and>
      sequential_inv s' \<and> sequential_rest s' = drop b (sequential_rest s)" by auto
qed

subsection \<open>Random\<close>

definition random_inv :: "random_state \<Rightarrow> bool" where
  "random_inv = (\<lambda>(s, g). 0 \<le> rnd_index s \<and> rnd_index s \<le> int (length (rnd_indices s)) \<and>
     length (rnd_indices s) < 2 ^ 63)"

definition random_rest :: "random_state \<Rightarrow> nat list" where
  "random_rest = (\<lambda>(s, g). map size_t_of (drop (nat (rnd_index s)) (rnd_indices s)))"

lemma slice_inside:
  "i + n \<le> length xs \<Longrightarrow> slice (int i) (int i + int n) xs = take n (drop i xs)"
  by (auto simp: slice_def slice_bounds_def Let_def nat_add_distrib)

interpretation random: index_sampler random_inv RandomSampler_next random_rest
proof
  fix t b
  assume t: "random_inv t"
  obtain s g where sg: "t = (s, g)" by fastforce
  define i where "i = nat (rnd_index s)"
  have i: "rnd_index s = int i" "i \<le> length (rnd_indices s)" "length (rnd_indices s) < 2 ^ 63"
    using t by (auto simp: random_inv_def sg i_def)
  have rem: "size_t_of (int (length (rnd_indices s)) - rnd_index s) = length (rnd_indices s) - i"
    using i by (simp add: size_t_of_small)
  show "RandomSampler_next b t = (Inr None, t)" if "random_rest t = []"
    using that i rem by (simp add: sg random_rest_def RandomSampler_next_def)
  assume r: "random_rest t \<noteq> []"
  define n where "n = min b (length (rnd_indices s) - i)"
  have lt: "i < length (rnd_indices s)" "i + n \<le> length (rnd_indices s)"
    using r i by (auto simp: sg random_rest_def n_def)
  have tk: "take n (drop i (rnd_indices s)) = take b (drop i (rnd_indices s))"
    by (simp add: n_def min_def)
  have "RandomSampler_next b t = (Inr (Some (take b (random_rest t))), (s\<lparr>rnd_index := int i + int n\<rparr>, g))"
    using lt i rem slice_inside [OF lt(2)] tk
    by (simp add: sg RandomSampler_next_def Let_def n_def [symmetric] random_rest_def take_map) (simp add: n_def)
  moreover have "random_rest (s\<lparr>rnd_index := int i + int n\<rparr>, g) = drop b (random_rest t)"
    using i lt by (auto simp: sg random_rest_def drop_map nat_add_distrib n_def min_def add.commute)
  moreover have "random_inv (s\<lparr>rnd_index := int i + int n\<rparr>, g)"
    using i lt by (simp add: random_inv_def)
  ultimately show "\<exists>s'. RandomSampler_next b t = (Inr (Some (take b (random_rest t))), s') \<and>
      random_inv s' \<and> random_rest s' = drop b (random_rest t)" by blast
qed

subsection \<open>Distributed\<close>

definition distributed_random_inv :: "DistributedRandomSampler \<Rightarrow> bool" where
  "distributed_random_inv s \<longleftrightarrow> dr_sample_index s \<le> dr_end_index s \<and>
     dr_end_index s \<le> length (all_indices s) \<and> dr_end_index s < 2 ^ 63"

definition distributed_random_rest :: "DistributedRandomSampler \<Rightarrow> nat list" where
  "distributed_random_rest s =
     take (dr_end_index s - dr_sample_index s) (drop (dr_sample_index s) (all_indices s))"

interpretation distributed_random:
  index_sampler distributed_random_inv DistributedRandomSampler_next distributed_random_rest
proof
  fix s b
  assume s: "distributed_random_inv s"
  show "DistributedRandomSampler_next b s = (Inr None, s)" if "distributed_random_rest s = []"
    using s that by (auto simp: distributed_random_inv_def distributed_random_rest_def DistributedRandomSampler_next_def)
  assume r: "distributed_random_rest s \<noteq> []" and b: "b < 2 ^ 63"
  define m where "m = min (dr_sample_index s + b) (dr_end_index s)"
  have lt: "dr_sample_index s < dr_end_index s" "dr_end_index s \<le> length (all_indices s)" "dr_end_index s < 2 ^ 63"
    using s r by (auto simp: distributed_random_inv_def distributed_random_rest_def)
  then have "(if add64 (dr_sample_index s) b > dr_end_index s then dr_end_index s else add64 (dr_sample_index s) b) = m"
    using b by (simp add: m_def min_def)
  then have "DistributedRandomSampler_next b s =
      (Inr (Some (take (m - dr_sample_index s) (drop (dr_sample_index s) (all_indices s)))), s\<lparr>dr_sample_index := m\<rparr>)"
    using lt by (simp add: DistributedRandomSampler_next_def Let_def m_def)
  moreover have "take (m - dr_sample_index s) (drop (dr_sample_index s) (all_indices s)) =
      take b (distributed_random_rest s)"
    using lt by (auto simp: distributed_random_rest_def m_def min_def)
  moreover have "distributed_random_rest (s\<lparr>dr_sample_index := m\<rparr>) = drop b (distributed_random_rest s)"
    using lt by (auto simp: distributed_random_rest_def m_def min_def drop_take add.commute)
  moreover have "distributed_random_inv (s\<lparr>dr_sample_index := m\<rparr>)"
    using lt by (simp add: distributed_random_inv_def m_def)
  ultimately show "\<exists>s'. DistributedRandomSampler_next b s = (Inr (Some (take b (distributed_random_rest s))), s') \<and>
      distributed_random_inv s' \<and> distributed_random_rest s' = drop b (distributed_random_rest s)" by auto
qed

definition distributed_sequential_inv :: "DistributedSequentialSampler \<Rightarrow> bool" where
  "distributed_sequential_inv s \<longleftrightarrow> dq_sample_index s \<le> dq_end_index s \<and> dq_end_index s \<le> vector_max_size \<and>
     (dq_sample_index s < dq_end_index s \<longrightarrow> 0 < ds_size s)"

definition distributed_sequential_rest :: "DistributedSequentialSampler \<Rightarrow> nat list" where
  "distributed_sequential_rest s = map (\<lambda>i. i mod ds_size s) [dq_sample_index s..<dq_end_index s]"

lemma map_add64_upt: "i + n < 2 ^ 64 \<Longrightarrow> map (add64 i) [0..<n] = [i..<i + n]"
  by (rule nth_equalityI) simp_all

interpretation distributed_sequential:
  index_sampler distributed_sequential_inv DistributedSequentialSampler_next distributed_sequential_rest
proof
  fix s b
  assume s: "distributed_sequential_inv s"
  show "DistributedSequentialSampler_next b s = (Inr None, s)" if "distributed_sequential_rest s = []"
    using s that
    by (auto simp: distributed_sequential_inv_def distributed_sequential_rest_def DistributedSequentialSampler_next_def)
  assume r: "distributed_sequential_rest s \<noteq> []" and b: "b < 2 ^ 63"
  define i where "i = dq_sample_index s"
  define m where "m = min (i + b) (dq_end_index s)"
  have lt: "i < dq_end_index s" "dq_end_index s < 2 ^ 60" "0 < ds_size s"
    using s r by (auto simp: distributed_sequential_inv_def distributed_sequential_rest_def vector_max_size_def i_def)
  then have m: "(if add64 i b > dq_end_index s then dq_end_index s else add64 i b) = m"
    using b by (simp add: m_def min_def)
  have im: "i \<le> m" "m < 2 ^ 60" using lt by (simp_all add: m_def)
  then have ms: "sub64 m i = m - i" "\<not> m - i > vector_max_size" "map (add64 i) [0..<m - i] = [i..<m]"
    using map_add64_upt [of i "m - i"] by (simp_all add: vector_max_size_def)
  have id: "map (\<lambda>j. j mod ds_size s) [i..<m] = [i..<m]" if "m < ds_size s"
    using that by (intro map_idI) simp
  have "DistributedSequentialSampler_next b s =
      (Inr (Some (map (\<lambda>j. j mod ds_size s) [i..<m])), s\<lparr>dq_sample_index := m\<rparr>)"
    using lt m ms id unfolding DistributedSequentialSampler_next_def i_def [symmetric] Let_def m
    by (auto simp del: map_eq_conv)
  moreover have "map (\<lambda>j. j mod ds_size s) [i..<m] = take b (distributed_sequential_rest s)"
    using lt by (simp add: distributed_sequential_rest_def i_def [symmetric] m_def take_map take_upt min_def)
  moreover have "distributed_sequential_rest (s\<lparr>dq_sample_index := m\<rparr>) = drop b (distributed_sequential_rest s)"
    using lt by (auto simp: distributed_sequential_rest_def i_def [symmetric] m_def drop_map min_def)
  moreover have "distributed_sequential_inv (s\<lparr>dq_sample_index := m\<rparr>)"
    using lt s by (simp add: distributed_sequential_inv_def m_def)
  ultimately show "\<exists>s'. DistributedSequentialSampler_next b s = (Inr (Some (take b (distributed_sequential_rest s))), s') \<and>
      distributed_sequential_inv s' \<and> distributed_sequential_rest s' = drop b (distributed_sequential_rest s)" by auto
qed

subsection \<open>Stream\<close>

definition stream_inv :: "StreamSampler \<Rightarrow> bool" where
  "stream_inv s \<longleftrightarrow> examples_retrieved_so_far s \<le> epoch_size s \<and> epoch_size s < 2 ^ 63"

definition stream_remaining :: "StreamSampler \<Rightarrow> nat" where
  "stream_remaining s = epoch_size s - examples_retrieved_so_far s"

interpretation stream: sampler stream_inv StreamSampler_next "\<lambda>n. n" stream_remaining
proof
  fix s b
  assume s: "stream_inv s"
  show "StreamSampler_next b s = (Inr None, s)" if "stream_remaining s = 0"
    using s that by (simp add: stream_inv_def stream_remaining_def StreamSampler_next_def)
  assume r: "0 < stream_remaining s" and b: "b < 2 ^ 63"
  let ?g = "examples_retrieved_so_far s" and ?n = "min b (stream_remaining s)"
  have lt: "?g < epoch_size s" "epoch_size s < 2 ^ 63" using s r by (auto simp: stream_inv_def stream_remaining_def)
  then have "StreamSampler_next b s = (Inr (Some ?n), s\<lparr>examples_retrieved_so_far := ?g + ?n\<rparr>)"
    using b by (auto simp: StreamSampler_next_def Let_def stream_remaining_def min_def)
  then show "\<exists>r s'. StreamSampler_next b s = (Inr (Some r), s') \<and> r = min b (stream_remaining s) \<and> stream_inv s' \<and>
      stream_remaining s' = stream_remaining s - min b (stream_remaining s)"
    using lt by (auto simp: stream_inv_def stream_remaining_def)
qed

section \<open>Epochs of the samplers\<close>

definition index_limit :: "ScalarType \<Rightarrow> nat" where
  "index_limit t = (case t of Byte \<Rightarrow> 2 ^ 8 | ScalarType.Char \<Rightarrow> 2 ^ 7 | Short \<Rightarrow> 2 ^ 15 | ScalarType.Int \<Rightarrow> 2 ^ 31
     | Float \<Rightarrow> 2 ^ 24 | Double \<Rightarrow> 2 ^ 53 | _ \<Rightarrow> 2 ^ 63)"

lemma signed_take_bit_small: "i < 2 ^ n \<Longrightarrow> signed_take_bit n (int i) = int i"
  by (rule iffD2 [OF signed_take_bit_int_eq_self_iff]) (auto intro: order_trans [of _ 0])

lemma index_cast_id: "i < index_limit t \<Longrightarrow> index_cast t i = int i"
  by (cases t)
    (simp_all add: index_limit_def signed_take_bit_small take_bit_int_eq_self round_mantissa_def del: int_plus)

lemma randperm_mset:
  assumes "mt_at seed g k" "dispatch_all_types t" "n \<le> index_limit t"
  shows "\<exists>r g'. randperm (int n) t g = (Inr r, g') \<and> mset r = mset (map int [0..<n]) \<and> mt_at seed g' (k + (n - 1))"
proof -
  have "map (index_cast t) [0..<n] = map int [0..<n]"
    using assms(3) by (intro map_cong refl index_cast_id) simp
  with randperm_out_mset [OF assms(1), of "int n" "index_cast t"] assms(2) show ?thesis
    by (simp add: randperm_def del: mset_map map_eq_conv)
qed

lemma RandomSampler_reset_rest:
  assumes "mt_at seed g k" "dispatch_all_types (rnd_dtype s)" "n \<le> index_limit (rnd_dtype s)" "n < 2 ^ 63"
  shows "\<exists>t. RandomSampler_reset (Some n) (s, g) = (Inr (), t) \<and> random_inv t \<and> mset (random_rest t) = mset [0..<n]"
proof -
  obtain r g' where r: "randperm (int n) (rnd_dtype s) g = (Inr r, g')" "mset r = mset (map int [0..<n])"
    using randperm_mset [OF assms(1-3)] by blast
  have len: "length r = n" using mset_eq_length [OF r(2)] by simp
  have "mset (map size_t_of r) = image_mset size_t_of (mset (map int [0..<n]))" by (simp add: r(2))
  also have "\<dots> = mset (map (\<lambda>i. size_t_of (int i)) [0..<n])" by (simp add: image_mset.compositionality comp_def)
  also have "map (\<lambda>i. size_t_of (int i)) [0..<n] = [0..<n]"
    using assms(4) by (intro map_idI) (simp add: size_t_of_small)
  finally show ?thesis
    using r(1) len assms(4)
    by (simp add: RandomSampler_reset_def int64_of_small random_inv_def random_rest_def)
qed

text \<open>
  Property C27. An epoch of the random sampler, with the default generator in any state that draws from a seed can reach:
  after \<open>reset(n)\<close>, asking for batches of \<open>b\<close> until the sampler is exhausted hands out every index below \<open>n\<close> exactly
  once, in batches that are all full except possibly the last one. The index type must be able to hold \<open>n\<close> indices.
\<close>

theorem random_sampler_epoch:
  assumes "draws d (THRandom_manualSeed seed g0) = (Inr xs, g)"
    and "dispatch_all_types (rnd_dtype s)" "n \<le> index_limit (rnd_dtype s)" "0 < n" "n < 2 ^ 63" "0 < b" "b < 2 ^ 63"
  shows "\<exists>t reqs t'. RandomSampler_reset (Some n) (s, g) = (Inr (), t) \<and>
    sample_epoch (n + 1) RandomSampler_next b t = (Inr (Some reqs), t') \<and> mset (concat reqs) = mset [0..<n] \<and>
    list_all (\<lambda>r. length r = b) (butlast reqs) \<and> 0 < length (last reqs) \<and> length (last reqs) \<le> b"
proof -
  have "mt_at seed g (MERSENNE_STATE_N + d)"
    using draws_mt_at [OF manualSeed_mt_at [of seed g0], of d] assms(1) by auto
  from RandomSampler_reset_rest [OF this assms(2,3,5)] obtain t where
    t: "RandomSampler_reset (Some n) (s, g) = (Inr (), t)" "random_inv t" "mset (random_rest t) = mset [0..<n]"
    by blast
  have len: "length (random_rest t) = n" using mset_eq_length [OF t(3)] by simp
  then have "random_rest t \<noteq> []" using assms(4) by auto
  note sizes = chunk_sizes [OF assms(6) this]
  have "mset (concat (chunks b (random_rest t))) = mset [0..<n]"
    unfolding concat_chunks [OF assms(6)] by (rule t(3))
  moreover obtain t' where "sample_epoch (n + 1) RandomSampler_next b t = (Inr (Some (chunks b (random_rest t))), t')"
    using random.epoch_chunks [OF t(2) assms(6,7), of "n + 1"] len by auto
  ultimately show ?thesis using t(1) sizes by blast
qed

theorem random_sampler_epoch_witness:
  "\<exists>t reqs t'. RandomSampler_reset (Some 5)
      (\<lparr>rnd_indices = [], rnd_dtype = Long, rnd_index = 0\<rparr>, THRandom_manualSeed 7 THGenerator_newUnseeded) = (Inr (), t) \<and>
    sample_epoch (5 + 1) RandomSampler_next 2 t = (Inr (Some reqs), t') \<and> mset (concat reqs) = mset [0..<5] \<and>
    list_all (\<lambda>r. length r = 2) (butlast reqs) \<and> 0 < length (last reqs) \<and> length (last reqs) \<le> 2"
proof (rule random_sampler_epoch)
  show "draws 0 (THRandom_manualSeed 7 THGenerator_newUnseeded) =
      (Inr [], THRandom_manualSeed 7 THGenerator_newUnseeded)" by simp
qed (simp_all add: dispatch_all_types_def index_limit_def)

section \<open>Replicas\<close>

definition replica_count :: "nat \<Rightarrow> nat \<Rightarrow> bool \<Rightarrow> nat" where
  "replica_count n replicas dup = (if dup then (n + replicas - 1) div replicas else n div replicas)"

lemma local_sample_count_eq:
  assumes "0 < num_replicas s" "ds_size s + num_replicas s \<le> 2 ^ 63"
  shows "local_sample_count s = Inr (replica_count (ds_size s) (num_replicas s) (allow_duplicates s))"
  using assms by (simp add: local_sample_count_def replica_count_def)

lemma replica_count_bounds:
  assumes "0 < replicas"
  shows "replica_count n replicas dup * replicas \<le> n + replicas - 1"
    and "dup \<Longrightarrow> n \<le> replica_count n replicas dup * replicas"
    and "\<not> dup \<Longrightarrow> replica_count n replicas dup * replicas \<le> n"
proof -
  have "(n + replicas - 1) div replicas * replicas + (n + replicas - 1) mod replicas = n + replicas - 1"
    by (rule div_mult_mod_eq)
  moreover have "(n + replicas - 1) mod replicas < replicas" using assms by simp
  ultimately have "n \<le> (n + replicas - 1) div replicas * replicas" using assms by linarith
  then show "dup \<Longrightarrow> n \<le> replica_count n replicas dup * replicas" by (simp add: replica_count_def)
  show "\<not> dup \<Longrightarrow> replica_count n replicas dup * replicas \<le> n"
    by (simp add: replica_count_def)
  show "replica_count n replicas dup * replicas \<le> n + replicas - 1"
    using assms div_times_less_eq_dividend [of n replicas] div_times_less_eq_dividend [of "n + replicas - 1" replicas]
    unfolding replica_count_def by (cases dup; simp only: if_True if_False; linarith)
qed

definition padded_indices :: "nat \<Rightarrow> nat \<Rightarrow> nat list" where
  "padded_indices n m = map (\<lambda>i. if i < n then i else i - n) [0..<m]"

lemma distributed_random_reset:
  fixes s :: DistributedRandomSampler
  assumes "0 < num_replicas s" "rank s < num_replicas s" "ds_size s + num_replicas s \<le> 2 ^ 63"
    and c: "c = replica_count (ds_size s) (num_replicas s) (allow_duplicates s)"
  shows "DistributedRandomSampler_reset shuffle None s = (Inr (), s\<lparr>
     all_indices := shuffle (epoch s) (padded_indices (ds_size s) (c * num_replicas s)),
     dr_begin_index := rank s * c, dr_end_index := rank s * c + c, dr_sample_index := rank s * c\<rparr>)"
    (is "_ = (Inr (), ?t)")
proof -
  have "rank s * c + c \<le> num_replicas s * c"
    using mult_le_mono1 [of "Suc (rank s)" "num_replicas s" c] assms(2) by (simp add: add.commute)
  moreover have "num_replicas s * c \<le> ds_size s + num_replicas s - 1"
    using replica_count_bounds(1) [OF assms(1), of "ds_size s" "allow_duplicates s"] c by (simp add: mult.commute)
  ultimately have b: "c * num_replicas s < 2 ^ 63" "rank s * c < 2 ^ 63" "rank s * c + c < 2 ^ 63"
    using assms by (simp_all add: mult.commute)
  have one: "(if num_replicas s = 1 then ds_size s else mul64 c (num_replicas s)) = c * num_replicas s"
    using b c by (auto simp: replica_count_def)
  have ix: "map (\<lambda>i. if i < ds_size s then i else sub64 i (ds_size s)) [0..<c * num_replicas s] =
      padded_indices (ds_size s) (c * num_replicas s)"
    unfolding padded_indices_def using b by (intro map_cong) auto
  show ?thesis
    using local_sample_count_eq [OF assms(1,3)] b ix one
    by (simp add: DistributedRandomSampler_reset_def DistributedRandomSampler_populate_indices_def c [symmetric] Let_def)
qed

lemma concat_slices:
  "R * c \<le> length xs \<Longrightarrow> concat (map (\<lambda>r. take c (drop (r * c) xs)) [0..<R]) = take (R * c) xs"
proof (induction R)
  case (Suc R)
  then show ?case by (simp add: take_add add.commute [of c])
qed simp

lemma padded_indices_facts:
  shows "n \<le> m \<Longrightarrow> {0..<n} \<subseteq> set (padded_indices n m)"
    and "m \<le> n \<Longrightarrow> distinct (padded_indices n m)"
    and "m \<le> n + r \<Longrightarrow> r \<le> n \<Longrightarrow> set (padded_indices n m) \<subseteq> {0..<n}"
    and "length (padded_indices n m) = m"
  by (force simp: padded_indices_def distinct_map inj_on_def)+

lemmas sampler_eval = local_sample_count_def new_DistributedSampler_def DistributedSampler.defs set_epoch_def
  new_DistributedRandomSampler_def DistributedRandomSampler_reset_def DistributedRandomSampler_populate_indices_def
  DistributedRandomSampler_next_def distributed_random_rest_def
  new_DistributedSequentialSampler_def DistributedSequentialSampler_populate_indices_def
  DistributedSequentialSampler_next_def vector_max_size_def

text \<open>The sampler of one replica, at the start of an epoch.\<close>

definition replica_epoch ::
  "(nat \<Rightarrow> nat list \<Rightarrow> nat list) \<Rightarrow> nat \<Rightarrow> nat \<Rightarrow> bool \<Rightarrow> nat \<Rightarrow> nat \<Rightarrow> DistributedRandomSampler result" where
  "replica_epoch shuffle n replicas dup e r =
     rbind (new_DistributedRandomSampler shuffle n replicas r dup) (\<lambda>s.
     case DistributedRandomSampler_reset shuffle None (set_epoch e s) of (Inl e, _) \<Rightarrow> Inl e | (Inr _, s) \<Rightarrow> Inr s)"

lemma reset_Some_same:
  "DistributedRandomSampler_reset shuffle (Some (ds_size s)) s = DistributedRandomSampler_reset shuffle None s"
  by (simp add: DistributedRandomSampler_reset_def)

lemma replica_epoch_rest:
  assumes "r < replicas" "n + replicas \<le> 2 ^ 63" and perm: "\<And>e xs. mset (shuffle e xs) = mset xs"
    and c: "c = replica_count n replicas dup"
  shows "\<exists>s. replica_epoch shuffle n replicas dup e r = Inr s \<and> distributed_random_inv s \<and>
    distributed_random_rest s = take c (drop (r * c) (shuffle e (padded_indices n (c * replicas))))"
proof -
  define s0 where "s0 = DistributedSampler.extend (new_DistributedSampler n replicas r dup)
    \<lparr>dr_begin_index = 0, dr_end_index = 0, dr_sample_index = 0, all_indices = []\<rparr>"
  have s0: "num_replicas s0 = replicas" "rank s0 = r" "ds_size s0 = n" "allow_duplicates s0 = dup"
    by (simp_all add: s0_def new_DistributedSampler_def DistributedSampler.defs)
  define s1 where "s1 = s0\<lparr>all_indices := shuffle (epoch s0) (padded_indices n (c * replicas)),
    dr_begin_index := r * c, dr_end_index := r * c + c, dr_sample_index := r * c\<rparr>"
  have "new_DistributedRandomSampler shuffle n replicas r dup = Inr s1"
    using distributed_random_reset [of s0 c shuffle] reset_Some_same [of shuffle s0] assms s0
    by (simp add: new_DistributedRandomSampler_def Let_def s0_def [symmetric] s1_def)
  moreover define s2 where "s2 = s1\<lparr>epoch := e, all_indices := shuffle e (padded_indices n (c * replicas))\<rparr>"
  moreover have "DistributedRandomSampler_reset shuffle None (set_epoch e s1) = (Inr (), s2)"
    using distributed_random_reset [of "set_epoch e s1" c shuffle] assms s0
    by (simp add: s1_def s2_def set_epoch_def)
  ultimately have run: "replica_epoch shuffle n replicas dup e r = Inr s2" by (simp add: replica_epoch_def)
  have len: "length (shuffle e xs) = length xs" for xs using mset_eq_length [OF perm] .
  have "r * c + c \<le> c * replicas"
    using mult_le_mono1 [of "Suc r" replicas c] assms(1) by (simp add: mult.commute)
  moreover have "c * replicas < 2 ^ 63"
    using replica_count_bounds(1) [of replicas n dup] assms by simp
  ultimately have "distributed_random_inv s2"
    by (simp add: distributed_random_inv_def s2_def s1_def len padded_indices_facts(4))
  moreover have "distributed_random_rest s2 = take c (drop (r * c) (shuffle e (padded_indices n (c * replicas))))"
    by (simp add: distributed_random_rest_def s2_def s1_def)
  ultimately show ?thesis using run by blast
qed

text \<open>
  Property C28. In every epoch the replicas of a distributed random sampler share the dataset fairly, for every shuffle
  that permutes: all replicas get the same number of indices, with duplicates allowed they cover the dataset together,
  without duplicates no index is handed out twice, and when there are at most as many replicas as examples every index
  is one of the dataset.
\<close>

theorem distributed_random_share:
  assumes "0 < replicas" "n + replicas \<le> 2 ^ 63" "\<And>e xs. mset (shuffle e xs) = mset xs"
  shows "\<exists>f. (\<forall>r < replicas. replica_epoch shuffle n replicas dup e r = Inr (f r) \<and> distributed_random_inv (f r) \<and>
        length (distributed_random_rest (f r)) = replica_count n replicas dup) \<and>
    (dup \<longrightarrow> {0..<n} \<subseteq> set (concat (map (\<lambda>r. distributed_random_rest (f r)) [0..<replicas]))) \<and>
    (\<not> dup \<longrightarrow> distinct (concat (map (\<lambda>r. distributed_random_rest (f r)) [0..<replicas]))) \<and>
    (replicas \<le> n \<longrightarrow> set (concat (map (\<lambda>r. distributed_random_rest (f r)) [0..<replicas])) \<subseteq> {0..<n})"
proof -
  define c where "c = replica_count n replicas dup"
  define xs where "xs = shuffle e (padded_indices n (c * replicas))"
  have xs: "mset xs = mset (padded_indices n (c * replicas))" by (simp add: xs_def assms(3))
  then have len: "length xs = replicas * c"
    using mset_eq_length [OF xs] padded_indices_facts(4) by (simp add: mult.commute)
  have "\<forall>r. \<exists>s. r < replicas \<longrightarrow> replica_epoch shuffle n replicas dup e r = Inr s \<and> distributed_random_inv s \<and>
      distributed_random_rest s = take c (drop (r * c) xs)"
  proof
    fix r
    show "\<exists>s. r < replicas \<longrightarrow> replica_epoch shuffle n replicas dup e r = Inr s \<and> distributed_random_inv s \<and>
        distributed_random_rest s = take c (drop (r * c) xs)"
    proof (cases "r < replicas")
      case True
      from replica_epoch_rest [of r replicas n shuffle c dup e, OF this assms(2,3) c_def] show ?thesis unfolding xs_def by (simp only: True simp_thms)
    qed simp
  qed
  from choice [OF this] obtain f where f: "r < replicas \<Longrightarrow> replica_epoch shuffle n replicas dup e r = Inr (f r) \<and>
      distributed_random_inv (f r) \<and> distributed_random_rest (f r) = take c (drop (r * c) xs)" for r
    by blast
  have tk: "length (take c (drop (r * c) xs)) = c" if "r < replicas" for r
  proof -
    have "r * c + c \<le> replicas * c" using mult_le_mono1 [of "Suc r" replicas c] that by simp
    then show ?thesis using len by simp
  qed
  have "map (\<lambda>r. distributed_random_rest (f r)) [0..<replicas] = map (\<lambda>r. take c (drop (r * c) xs)) [0..<replicas]"
    using f by (intro map_cong) auto
  then have cc: "concat (map (\<lambda>r. distributed_random_rest (f r)) [0..<replicas]) = xs"
    using concat_slices [of replicas c xs] len by (simp del: map_eq_conv)
  have sx: "set xs = set (padded_indices n (c * replicas))" and dx: "distinct xs = distinct (padded_indices n (c * replicas))"
    using mset_eq_setD [OF xs] mset_eq_imp_distinct_iff [OF xs] by auto
  note rb = replica_count_bounds [OF assms(1), where n = n and dup = dup, folded c_def]
  have "{0..<n} \<subseteq> set xs" if dup unfolding sx using that rb(2) by (intro padded_indices_facts(1)) simp
  moreover have "distinct xs" if "\<not> dup" unfolding dx using that rb(3) by (intro padded_indices_facts(2)) simp
  moreover have "set xs \<subseteq> {0..<n}" if "replicas \<le> n"
    unfolding sx using that rb(1) by (intro padded_indices_facts(3) [of _ _ replicas]) linarith+
  moreover have "\<forall>r < replicas. replica_epoch shuffle n replicas dup e r = Inr (f r) \<and> distributed_random_inv (f r) \<and>
      length (distributed_random_rest (f r)) = c"
    using f tk by simp
  ultimately show ?thesis
    unfolding c_def [symmetric] by (intro exI [of _ f]) (unfold cc, intro conjI impI)
qed

theorem distributed_random_share_witness:
  "\<exists>f. f = (\<lambda>r. case replica_epoch (\<lambda>e. rev) 5 2 True 3 r of Inr s \<Rightarrow> distributed_random_rest s | Inl _ \<Rightarrow> []) \<and>
     f 0 = [0, 4, 3] \<and> f 1 = [2, 1, 0] \<and> {0..<5} \<subseteq> set (f 0 @ f 1)"
proof -
  let ?f = "\<lambda>r. case replica_epoch (\<lambda>e. rev) 5 2 True 3 r of Inr s \<Rightarrow> distributed_random_rest s | Inl _ \<Rightarrow> []"
  have "\<exists>f. (\<forall>r < 2. replica_epoch (\<lambda>e. rev) 5 2 True 3 r = Inr (f r) \<and> distributed_random_inv (f r) \<and>
        length (distributed_random_rest (f r)) = replica_count 5 2 True) \<and>
    (True \<longrightarrow> {0..<5} \<subseteq> set (concat (map (\<lambda>r. distributed_random_rest (f r)) [0..<2]))) \<and>
    (\<not> True \<longrightarrow> distinct (concat (map (\<lambda>r. distributed_random_rest (f r)) [0..<2]))) \<and>
    (2 \<le> (5 :: nat) \<longrightarrow> set (concat (map (\<lambda>r. distributed_random_rest (f r)) [0..<2])) \<subseteq> {0..<5})"
    by (rule distributed_random_share) simp_all
  then obtain f where f: "\<forall>r < 2. replica_epoch (\<lambda>e. rev) 5 2 True 3 r = Inr (f r)"
      "{0..<5} \<subseteq> set (concat (map (\<lambda>r. distributed_random_rest (f r)) [0..<2]))" by blast
  then have "{0..<5} \<subseteq> set (?f 0 @ ?f 1)" by (simp add: upt_rec del: upt_rec_numeral)
  moreover have "?f 0 = [0, 4, 3]" "?f 1 = [2, 1, 0]"
    by (simp_all add: sampler_eval replica_epoch_def upt_rec)
  ultimately show ?thesis by blast
qed

text \<open>
  With more replicas than examples the padding of \<open>DistributedRandomSampler\<close> is the padded position less the size, which
  need not be an index of the dataset; \<open>DistributedSequentialSampler\<close> reduces the position modulo the size.
\<close>

theorem distributed_random_index_out_of_range:
  "rbind (replica_epoch (\<lambda>e xs. xs) 1 3 True 0 2) (\<lambda>s. fst (DistributedRandomSampler_next 1 s)) = Inr (Some [1])"
  "rbind (new_DistributedSequentialSampler 1 3 2 True) (\<lambda>s. fst (DistributedSequentialSampler_next 1 s)) = Inr (Some [0])"
  by (simp_all add: sampler_eval replica_epoch_def upt_rec)

section \<open>Saving and loading\<close>

definition saved :: "(archive, unit) mon \<Rightarrow> archive" where
  "saved m = snd (m empty_archive)"

lemmas archive_eval = saved_def empty_archive_def archive_write_def archive_read_def archive_try_read_def item_def
  seqm_def bindm_def

text \<open>
  Property C29. A sampler that is saved and loaded into a sampler constructed with the same parameters continues where it
  was: the sequential, the stream, the random and the distributed sequential sampler are restored exactly. The random
  sampler restores its permutation from the archive, the distributed random sampler recomputes it from the epoch: one that
  was last reset in epoch \<open>e\<close> and then set to epoch \<open>e'\<close> is restored with the permutation of \<open>e'\<close> and its position, which
  is exactly as it was when it was reset after the last call of \<open>set_epoch\<close>, and not otherwise, unless the two epochs
  have the same permutation. Positions and epochs are below \<open>2 ^ 64\<close>.
\<close>

theorem sampler_save_load:
  assumes "seq_index q < 2 ^ 64" "examples_retrieved_so_far st < 2 ^ 64"
    and "rnd_dtype r' = rnd_dtype r"
    and "replica_epoch shuffle n replicas dup e k = Inr d0" "replica_epoch shuffle n replicas dup e' k = Inr d'"
    and "i < 2 ^ 64" "e' < 2 ^ 64"
    and "new_DistributedRandomSampler shuffle n replicas k dup = Inr d1"
    and "new_DistributedSequentialSampler n replicas k dup = Inr s0"
  shows "SequentialSampler_load (saved (SequentialSampler_save q)) (new_SequentialSampler (seq_size q)) = (Inr (), q) \<and>
    StreamSampler_load (saved (StreamSampler_save st)) (new_StreamSampler (epoch_size st)) = (Inr (), st) \<and>
    RandomSampler_load (saved (RandomSampler_save r)) (r', g) = (Inr (), (r, g)) \<and>
    DistributedSequentialSampler_load
      (saved (DistributedSequentialSampler_save (s0\<lparr>dq_sample_index := i\<rparr>))) s0 = (Inr (), s0\<lparr>dq_sample_index := i\<rparr>) \<and>
    (let d = set_epoch e' (d0\<lparr>dr_sample_index := i\<rparr>); l = d'\<lparr>dr_sample_index := i\<rparr> in
       DistributedRandomSampler_load shuffle (saved (DistributedRandomSampler_save d)) d1 = (Inr (), l) \<and>
       (l = d \<longleftrightarrow> all_indices d' = all_indices d0) \<and> (e' = e \<longrightarrow> l = d))"
proof (intro conjI)
  show "SequentialSampler_load (saved (SequentialSampler_save q)) (new_SequentialSampler (seq_size q)) = (Inr (), q)"
    using assms(1) by (simp add: SequentialSampler_load_def SequentialSampler_save_def archive_eval new_SequentialSampler_def)
  show "StreamSampler_load (saved (StreamSampler_save st)) (new_StreamSampler (epoch_size st)) = (Inr (), st)"
    using assms(2) by (simp add: StreamSampler_load_def StreamSampler_save_def archive_eval new_StreamSampler_def)
  show "RandomSampler_load (saved (RandomSampler_save r)) (r', g) = (Inr (), (r, g))"
    using assms(3) by (simp add: RandomSampler_load_def RandomSampler_save_def archive_eval)
  show "DistributedSequentialSampler_load (saved (DistributedSequentialSampler_save (s0\<lparr>dq_sample_index := i\<rparr>))) s0 =
      (Inr (), s0\<lparr>dq_sample_index := i\<rparr>)"
    using assms(6) by (simp add: DistributedSequentialSampler_load_def DistributedSequentialSampler_save_def archive_eval)
  have r: "DistributedRandomSampler_reset shuffle None (set_epoch e d1) = (Inr (), d0)"
    and r': "DistributedRandomSampler_reset shuffle None (set_epoch e' d1) = (Inr (), d')"
    using assms(4,5,8) by (auto simp: replica_epoch_def split: prod.splits sum.splits)
  have lc: "local_sample_count (d1\<lparr>epoch := x\<rparr>) = local_sample_count d1" for x by (simp add: local_sample_count_def)
  then obtain c where c: "local_sample_count d1 = Inr c"
    using r by (cases "local_sample_count d1")
      (simp_all add: DistributedRandomSampler_reset_def DistributedRandomSampler_populate_indices_def set_epoch_def)
  define X where "X = map (\<lambda>i. if i < ds_size d1 then i else sub64 i (ds_size d1))
      [0..<(if num_replicas d1 = 1 then ds_size d1 else mul64 c (num_replicas d1))]"
  let ?at = "\<lambda>x. d1\<lparr>epoch := x, all_indices := shuffle x X, dr_begin_index := mul64 (rank d1) c,
      dr_end_index := add64 (mul64 (rank d1) c) c, dr_sample_index := mul64 (rank d1) c\<rparr>"
  have at: "DistributedRandomSampler_reset shuffle None (set_epoch x d1) = (Inr (), ?at x)" for x
    using c lc [of x] by (simp add: DistributedRandomSampler_reset_def DistributedRandomSampler_populate_indices_def set_epoch_def
      Let_def X_def cong: if_cong)
  have d: "d0 = ?at e" "d' = ?at e'" using r r' at by simp_all
  let ?d = "set_epoch e' (d0\<lparr>dr_sample_index := i\<rparr>)"
  have "DistributedRandomSampler_reset shuffle (Some (ds_size d1)) (d1\<lparr>epoch := e'\<rparr>) = (Inr (), d')"
    using r' reset_Some_same [of shuffle "set_epoch e' d1"] by (simp add: set_epoch_def)
  then have "DistributedRandomSampler_load shuffle (saved (DistributedRandomSampler_save ?d)) d1 = (Inr (), d'\<lparr>dr_sample_index := i\<rparr>)"
    using assms(6,7) by (simp add: DistributedRandomSampler_load_def DistributedRandomSampler_save_def archive_eval set_epoch_def)
  then show "let d = set_epoch e' (d0\<lparr>dr_sample_index := i\<rparr>); l = d'\<lparr>dr_sample_index := i\<rparr> in
       DistributedRandomSampler_load shuffle (saved (DistributedRandomSampler_save d)) d1 = (Inr (), l) \<and>
       (l = d \<longleftrightarrow> all_indices d' = all_indices d0) \<and> (e' = e \<longrightarrow> l = d)"
    by (auto simp: Let_def d set_epoch_def dest: arg_cong [where f = all_indices])
qed

theorem sampler_save_load_witness:
  "SequentialSampler_load (saved (SequentialSampler_save \<lparr>seq_size = 9, seq_index = 4\<rparr>)) (new_SequentialSampler 9) =
     (Inr (), \<lparr>seq_size = 9, seq_index = 4\<rparr>)"
proof -
  obtain d0 where d0: "replica_epoch (\<lambda>e xs. xs) 4 2 True 3 1 = Inr d0"
    by (simp add: replica_epoch_def sampler_eval)
  obtain d1 where d1: "new_DistributedRandomSampler (\<lambda>e xs. xs) 4 2 1 True = Inr d1" by (simp add: sampler_eval)
  obtain s0 where s0: "new_DistributedSequentialSampler 4 2 1 True = Inr s0" by (simp add: sampler_eval)
  let ?q = "\<lparr>seq_size = 9, seq_index = 4\<rparr>" and ?st = "\<lparr>examples_retrieved_so_far = 3, epoch_size = 7\<rparr>"
    and ?r = "\<lparr>rnd_indices = [1, 0], rnd_dtype = Long, rnd_index = 1\<rparr>"
  have "seq_index ?q < 2 ^ 64" "examples_retrieved_so_far ?st < 2 ^ 64" "(3 :: nat) < 2 ^ 64" by simp_all
  from sampler_save_load [OF this(1,2) refl [of "rnd_dtype ?r"] d0 d0 this(3,3) d1 s0] show ?thesis by simp
qed

end
