(* ===== verification/Data_Loader.thy ===== *)
theory Data_Loader
  imports Sampler_Contracts
begin

text \<open>
  The multi-threaded data loader (torch/csrc/api/include/torch/data: detail/queue.h, detail/data_shuttle.h,
  detail/sequencers.h, dataloader/base.h, dataloader/stateless.h, dataloader_options.h). The main
  thread and the worker threads interleave: each action below is one critical section or one call of user code, and
  \<open>loader_step\<close> performs it, or is \<open>None\<close> when the thread would block. The dataset and the sampler are template
  arguments of the code and arguments of the model. Counters are natural numbers: no epoch has \<open>2 ^ 64\<close> batches.
\<close>

section \<open>Options\<close>

record DataLoaderOptions =
  opt_batch_size :: nat
  opt_workers :: nat
  opt_max_jobs :: "nat option"
  opt_timeout :: "nat option"
  opt_enforce_ordering :: bool
  opt_drop_last :: bool

definition default_DataLoaderOptions :: DataLoaderOptions where
  "default_DataLoaderOptions = \<lparr>opt_batch_size = 1, opt_workers = 0, opt_max_jobs = None, opt_timeout = None,
     opt_enforce_ordering = True, opt_drop_last = False\<rparr>"

record FullDataLoaderOptions =
  batch_size :: nat
  workers :: nat
  max_jobs :: nat
  timeout :: "nat option"
  enforce_ordering :: bool
  drop_last :: bool

definition new_FullDataLoaderOptions :: "DataLoaderOptions \<Rightarrow> FullDataLoaderOptions" where
  "new_FullDataLoaderOptions opts = \<lparr>batch_size = opt_batch_size opts, workers = opt_workers opts,
     max_jobs = (case opt_max_jobs opts of None \<Rightarrow> 2 * opt_workers opts | Some m \<Rightarrow> m),
     timeout = opt_timeout opts, enforce_ordering = opt_enforce_ordering opts, drop_last = opt_drop_last opts\<rparr>"

section \<open>Queue and shuttle\<close>

text \<open>The contents of a queue, oldest first; a \<open>pop\<close> that has to wait is \<open>None\<close>.\<close>

definition queue_push :: "'a \<Rightarrow> 'a list \<Rightarrow> 'a list" where
  "queue_push x q = q @ [x]"

definition queue_pop :: "'a list \<Rightarrow> ('a \<times> 'a list) option" where
  "queue_pop q = (case q of [] \<Rightarrow> None | x # q' \<Rightarrow> Some (x, q'))"

definition queue_clear :: "'a list \<Rightarrow> nat \<times> 'a list" where
  "queue_clear q = (length q, [])"

record 'r Job =
  job_sqn :: nat
  quit :: bool
  batch_request :: "'r option"

record 'b Result =
  result_sqn :: nat
  batch :: "'b option"
  exception :: "exn option"

record ('r, 'b) DataShuttle =
  new_jobs :: "'r Job list"
  in_flight_jobs :: nat
  results :: "'b Result list"

definition new_DataShuttle :: "('r, 'b) DataShuttle" where
  "new_DataShuttle = \<lparr>new_jobs = [], in_flight_jobs = 0, results = []\<rparr>"

definition shuttle_push_job :: "'r Job \<Rightarrow> ('r, 'b) DataShuttle \<Rightarrow> ('r, 'b) DataShuttle" where
  "shuttle_push_job job sh =
     sh\<lparr>new_jobs := queue_push job (new_jobs sh), in_flight_jobs := in_flight_jobs sh + 1\<rparr>"

definition push_result :: "'b Result \<Rightarrow> ('r, 'b) DataShuttle \<Rightarrow> ('r, 'b) DataShuttle" where
  "push_result result sh = sh\<lparr>results := queue_push result (results sh)\<rparr>"

definition pop_job :: "('r, 'b) DataShuttle \<Rightarrow> ('r Job \<times> ('r, 'b) DataShuttle) option" where
  "pop_job sh = (case queue_pop (new_jobs sh) of None \<Rightarrow> None | Some (job, q) \<Rightarrow> Some (job, sh\<lparr>new_jobs := q\<rparr>))"

definition shuttle_pop_result :: "('r, 'b) DataShuttle \<Rightarrow> ('b Result option \<times> ('r, 'b) DataShuttle) option" where
  "shuttle_pop_result sh = (if in_flight_jobs sh > 0
     then (case queue_pop (results sh) of None \<Rightarrow> None
       | Some (r, q) \<Rightarrow> Some (Some r, sh\<lparr>results := q, in_flight_jobs := in_flight_jobs sh - 1\<rparr>))
     else Some (None, sh))"

text \<open>The part of \<open>drain\<close> before its loop; the loop is \<open>DrainResults\<close> below.\<close>

definition drain_jobs :: "('r, 'b) DataShuttle \<Rightarrow> ('r, 'b) DataShuttle" where
  "drain_jobs sh = (let (number_cleared, q) = queue_clear (new_jobs sh)
     in sh\<lparr>new_jobs := q, in_flight_jobs := in_flight_jobs sh - number_cleared\<rparr>)"

section \<open>Sequencers\<close>

datatype 'b Sequencer =
    NoSequencer
  | OrderedSequencer (next_sequence_number: nat) (buffer: "'b Result option list")

definition new_sequencer :: "FullDataLoaderOptions \<Rightarrow> 'b Sequencer" where
  "new_sequencer opts =
     (if enforce_ordering opts then OrderedSequencer 0 (replicate (max_jobs opts) None) else NoSequencer)"

definition buffer_contains_result :: "'b Result option list \<Rightarrow> bool" where
  "buffer_contains_result buf \<longleftrightarrow> list_ex (\<lambda>r. r \<noteq> None) buf"

text \<open>\<open>buffer(index)\<close>: a remainder by an empty buffer's size has no defined behaviour.\<close>

definition buffer_at :: "'b Result option list \<Rightarrow> nat \<Rightarrow> 'b Result option result" where
  "buffer_at buf i = (if length buf = 0 then Inl UndefinedBehaviour else Inr (buf ! (i mod length buf)))"

definition set_buffer :: "nat \<Rightarrow> 'b Result option \<Rightarrow> 'b Result option list \<Rightarrow> 'b Result option list" where
  "set_buffer i r buf = buf[i mod length buf := r]"

text \<open>\<open>next\<close> before it asks the producer: a buffered result that is due.\<close>

fun sequencer_buffered :: "'b Sequencer \<Rightarrow> ('b Result option \<times> 'b Sequencer) result" where
  "sequencer_buffered NoSequencer = Inr (None, NoSequencer)"
| "sequencer_buffered (OrderedSequencer n buf) =
     rbind (buffer_at buf n) (\<lambda>m. case m of
       Some r \<Rightarrow> Inr (Some r, OrderedSequencer (n + 1) (set_buffer n None buf))
     | None \<Rightarrow> Inr (None, OrderedSequencer n buf))"

datatype 'a loop = Return 'a | Continue

text \<open>One round of the loop of \<open>next\<close>, on what the producer returned.\<close>

fun sequencer_receive :: "'b Result option \<Rightarrow> 'b Sequencer \<Rightarrow> ('b Result option loop \<times> 'b Sequencer) result" where
  "sequencer_receive r NoSequencer = Inr (Return r, NoSequencer)"
| "sequencer_receive None (OrderedSequencer n buf) =
     (if buffer_contains_result buf then Inl (C10Error ''ASSERT FAILED'')
      else Inr (Return None, OrderedSequencer n buf))"
| "sequencer_receive (Some r) (OrderedSequencer n buf) =
     (if result_sqn r = n then Inr (Return (Some r), OrderedSequencer (n + 1) buf)
      else rbind (buffer_at buf (result_sqn r)) (\<lambda>m.
        if m \<noteq> None then Inl (C10Error ''ASSERT FAILED'')
        else Inr (Continue, OrderedSequencer n (set_buffer (result_sqn r) (Some r) buf))))"

section \<open>The loader\<close>

datatype 'r worker = Idle | Busy "'r Job" | Exited

datatype main_pc = Ready | PopResult | WaitResult | DrainResults bool | JoinWorkers

datatype 'b loader_output = Batch 'b | EndOfEpoch | Threw exn

text \<open>
  \<open>main_pc\<close> is where the main thread stands: outside the loader, at the start of \<open>pop_result\<close>, waiting for a result inside
  the sequencer, in the loop of \<open>drain\<close> (called by \<open>reset\<close>, or by \<open>join\<close>), or joining the threads. \<open>outputs\<close> is the trace of
  what \<open>next\<close> returned or threw since the last \<open>begin\<close>. \<open>source\<close> is the state of the sampler.
\<close>

record ('s, 'r, 'b) DataLoader =
  sequence_number :: nat
  shuttle :: "('r, 'b) DataShuttle"
  sequencer :: "'b Sequencer"
  worker_threads :: "'r worker list"
  joined :: bool
  source :: 's
  main_pc :: main_pc
  outputs :: "'b loader_output list"

definition new_DataLoader :: "FullDataLoaderOptions \<Rightarrow> 's \<Rightarrow> ('s, 'r, 'b) DataLoader" where
  "new_DataLoader opts src = \<lparr>sequence_number = 0, shuttle = new_DataShuttle, sequencer = new_sequencer opts,
     worker_threads = replicate (workers opts) Idle, joined = False, source = src, main_pc = Ready, outputs = []\<rparr>"

definition loader_push_job :: "'r option \<Rightarrow> ('s, 'r, 'b) DataLoader \<Rightarrow> ('s, 'r, 'b) DataLoader" where
  "loader_push_job request dl =
     dl\<lparr>shuttle := shuttle_push_job
           \<lparr>job_sqn = sequence_number dl, quit = (request = None), batch_request = request\<rparr> (shuttle dl),
        sequence_number := sequence_number dl + 1\<rparr>"

text \<open>
  The operations that a subclass or a template argument provides: \<open>get_batch_request\<close> and \<open>reset\<close> on the source, and
  \<open>get_batch\<close> of the dataset.
\<close>

record ('s, 'r, 'b) loader_ops =
  get_batch_request :: "('s, 'r option) mon"
  reset_source :: "('s, unit) mon"
  get_batch :: "'r \<Rightarrow> 'b option result"

definition on_source :: "('s, 'a) mon \<Rightarrow> (('s, 'r, 'b) DataLoader, 'a) mon" where
  "on_source m = (\<lambda>dl. case m (source dl) of (r, s) \<Rightarrow> (r, dl\<lparr>source := s\<rparr>))"

fun prefetch :: "('s, 'r, 'b) loader_ops \<Rightarrow> nat \<Rightarrow> (('s, 'r, 'b) DataLoader, unit) mon" where
  "prefetch ops 0 = ret ()"
| "prefetch ops (Suc n) =
     bindm (on_source (get_batch_request ops)) (\<lambda>request. case request of
       None \<Rightarrow> ret ()
     | Some r \<Rightarrow> seqm (modify (loader_push_job (Some r))) (prefetch ops n))"

definition return_with :: "'b loader_output \<Rightarrow> ('s, 'r, 'b) DataLoader \<Rightarrow> ('s, 'r, 'b) DataLoader" where
  "return_with out dl = dl\<lparr>main_pc := Ready, outputs := outputs dl @ [out]\<rparr>"

text \<open>The body of the loop of \<open>next\<close> on what \<open>pop_result\<close> returned.\<close>

definition handle_result ::
  "('s, 'r, 'b) loader_ops \<Rightarrow> 'b Result option \<Rightarrow> ('s, 'r, 'b) DataLoader \<Rightarrow> ('s, 'r, 'b) DataLoader" where
  "handle_result ops res dl = (case res of
     None \<Rightarrow> return_with EndOfEpoch dl
   | Some r \<Rightarrow> (case exception r of
       Some e \<Rightarrow> return_with (Threw (WorkerException e)) dl
     | None \<Rightarrow> (case batch r of
         Some b \<Rightarrow> (case prefetch ops 1 dl of
             (Inl e, dl) \<Rightarrow> return_with (Threw e) dl
           | (Inr _, dl) \<Rightarrow> return_with (Batch b) dl)
       | None \<Rightarrow> dl\<lparr>main_pc := PopResult\<rparr>)))"

section \<open>Steps\<close>

datatype action = CallBegin | CallNext | CallJoin | Main | Timeout | Worker nat

text \<open>\<open>reset\<close> after its \<open>drain\<close>, and \<open>join\<close> after its \<open>drain\<close>.\<close>

definition finish_reset ::
  "('s, 'r, 'b) loader_ops \<Rightarrow> FullDataLoaderOptions \<Rightarrow> ('s, 'r, 'b) DataLoader \<Rightarrow> ('s, 'r, 'b) DataLoader" where
  "finish_reset ops opts dl =
     (case prefetch ops (max_jobs opts) (dl\<lparr>sequence_number := 0, sequencer := new_sequencer opts, main_pc := Ready\<rparr>) of
        (Inl e, dl) \<Rightarrow> return_with (Threw e) dl
      | (Inr _, dl) \<Rightarrow> dl)"

fun push_quits :: "nat \<Rightarrow> ('s, 'r, 'b) DataLoader \<Rightarrow> ('s, 'r, 'b) DataLoader" where
  "push_quits 0 dl = dl"
| "push_quits (Suc n) dl = push_quits n (loader_push_job None dl)"

definition loader_begin ::
  "('s, 'r, 'b) loader_ops \<Rightarrow> ('s, 'r, 'b) DataLoader \<Rightarrow> ('s, 'r, 'b) DataLoader" where
  "loader_begin ops dl =
     (if in_flight_jobs (shuttle dl) \<noteq> 0
      then return_with (Threw (C10Error ''Attempted to get a new DataLoader iterator while another iterator is not yet exhausted'')) dl
      else case on_source (reset_source ops) (dl\<lparr>outputs := []\<rparr>) of
          (Inl e, dl) \<Rightarrow> return_with (Threw e) dl
        | (Inr _, dl) \<Rightarrow> dl\<lparr>shuttle := drain_jobs (shuttle dl), main_pc := DrainResults True\<rparr>)"

definition loader_next ::
  "('s, 'r, 'b) loader_ops \<Rightarrow> FullDataLoaderOptions \<Rightarrow> ('s, 'r, 'b) DataLoader \<Rightarrow> ('s, 'r, 'b) DataLoader" where
  "loader_next ops opts dl =
     (if workers opts > 0 then dl\<lparr>main_pc := PopResult\<rparr>
      else case on_source (get_batch_request ops) dl of
          (Inl e, dl) \<Rightarrow> return_with (Threw e) dl
        | (Inr None, dl) \<Rightarrow> return_with EndOfEpoch dl
        | (Inr (Some r), dl) \<Rightarrow> (case get_batch ops r of
              Inl e \<Rightarrow> return_with (Threw e) dl
            | Inr None \<Rightarrow> return_with EndOfEpoch dl
            | Inr (Some b) \<Rightarrow> return_with (Batch b) dl))"

definition loader_join :: "('s, 'r, 'b) DataLoader \<Rightarrow> ('s, 'r, 'b) DataLoader" where
  "loader_join dl = (if joined dl then dl
     else dl\<lparr>shuttle := drain_jobs (shuttle dl), main_pc := DrainResults False\<rparr>)"

fun main_step ::
  "('s, 'r, 'b) loader_ops \<Rightarrow> FullDataLoaderOptions \<Rightarrow> main_pc \<Rightarrow> ('s, 'r, 'b) DataLoader \<Rightarrow>
     ('s, 'r, 'b) DataLoader option" where
  "main_step ops opts Ready dl = None"
| "main_step ops opts PopResult dl = Some (case sequencer_buffered (sequencer dl) of
     Inl e \<Rightarrow> return_with (Threw e) dl
   | Inr (Some r, sq) \<Rightarrow> handle_result ops (Some r) (dl\<lparr>sequencer := sq\<rparr>)
   | Inr (None, sq) \<Rightarrow> dl\<lparr>sequencer := sq, main_pc := WaitResult\<rparr>)"
| "main_step ops opts WaitResult dl = (case shuttle_pop_result (shuttle dl) of
     None \<Rightarrow> None
   | Some (r, sh) \<Rightarrow> Some (case sequencer_receive r (sequencer dl) of
         Inl e \<Rightarrow> return_with (Threw e) (dl\<lparr>shuttle := sh\<rparr>)
       | Inr (Return r, sq) \<Rightarrow> handle_result ops r (dl\<lparr>shuttle := sh, sequencer := sq\<rparr>)
       | Inr (Continue, sq) \<Rightarrow> dl\<lparr>shuttle := sh, sequencer := sq\<rparr>))"
| "main_step ops opts (DrainResults resetting) dl =
     (if in_flight_jobs (shuttle dl) > 0
      then (case shuttle_pop_result (shuttle dl) of None \<Rightarrow> None | Some (_, sh) \<Rightarrow> Some (dl\<lparr>shuttle := sh\<rparr>))
      else Some (if resetting then finish_reset ops opts dl
                 else (push_quits (workers opts) dl)\<lparr>main_pc := JoinWorkers\<rparr>))"
| "main_step ops opts JoinWorkers dl =
     (if list_all (\<lambda>w. w = Exited) (worker_threads dl) then Some (dl\<lparr>joined := True, main_pc := Ready\<rparr>) else None)"

definition run_job :: "('s, 'r, 'b) loader_ops \<Rightarrow> 'r Job \<Rightarrow> 'b Result" where
  "run_job ops job = (case batch_request job of
     None \<Rightarrow> \<lparr>result_sqn = job_sqn job, batch = None, exception = Some UndefinedBehaviour\<rparr>
   | Some r \<Rightarrow> (case get_batch ops r of
         Inl e \<Rightarrow> \<lparr>result_sqn = job_sqn job, batch = None, exception = Some e\<rparr>
       | Inr b \<Rightarrow> \<lparr>result_sqn = job_sqn job, batch = b, exception = None\<rparr>))"

definition worker_step :: "('s, 'r, 'b) loader_ops \<Rightarrow> nat \<Rightarrow> ('s, 'r, 'b) DataLoader \<Rightarrow> ('s, 'r, 'b) DataLoader option" where
  "worker_step ops i dl = (if i < length (worker_threads dl) then
     (case worker_threads dl ! i of
        Idle \<Rightarrow> (case pop_job (shuttle dl) of None \<Rightarrow> None
          | Some (job, sh) \<Rightarrow> Some (dl\<lparr>shuttle := sh,
              worker_threads := (worker_threads dl)[i := if quit job then Exited else Busy job]\<rparr>))
      | Busy job \<Rightarrow> Some (dl\<lparr>shuttle := push_result (run_job ops job) (shuttle dl),
          worker_threads := (worker_threads dl)[i := Idle]\<rparr>)
      | Exited \<Rightarrow> None)
     else None)"

text \<open>
  The calls are made by the main thread when it is outside the loader. A wait with a timeout may give up while no
  result is there.
\<close>

definition loader_step ::
  "('s, 'r, 'b) loader_ops \<Rightarrow> FullDataLoaderOptions \<Rightarrow> action \<Rightarrow> ('s, 'r, 'b) DataLoader \<Rightarrow>
     ('s, 'r, 'b) DataLoader option" where
  "loader_step ops opts a dl = (case a of
     CallBegin \<Rightarrow> if main_pc dl = Ready then Some (loader_begin ops dl) else None
   | CallNext \<Rightarrow> if main_pc dl = Ready then Some (loader_next ops opts dl) else None
   | CallJoin \<Rightarrow> if main_pc dl = Ready then Some (loader_join dl) else None
   | Main \<Rightarrow> main_step ops opts (main_pc dl) dl
   | Timeout \<Rightarrow> if main_pc dl = WaitResult \<and> timeout opts \<noteq> None \<and> in_flight_jobs (shuttle dl) > 0 \<and>
         results (shuttle dl) = []
       then Some (return_with (Threw (C10Error ''Timeout in DataLoader queue while waiting for next batch'')) dl)
       else None
   | Worker i \<Rightarrow> worker_step ops i dl)"

section \<open>The stateless loader\<close>

definition stateless_get_batch_request ::
  "(nat \<Rightarrow> ('s, 'r option) mon) \<Rightarrow> ('r \<Rightarrow> nat) \<Rightarrow> FullDataLoaderOptions \<Rightarrow> ('s, 'r option) mon" where
  "stateless_get_batch_request nxt req_size opts =
     bindm (nxt (batch_size opts)) (\<lambda>indices. case indices of
       None \<Rightarrow> ret None
     | Some r \<Rightarrow> if req_size r < batch_size opts \<and> drop_last opts then ret None
         else seqm (assertm (req_size r > 0)) (ret (Some r)))"

definition stateless_ops ::
  "(nat \<Rightarrow> ('s, 'r option) mon) \<Rightarrow> ('s, unit) mon \<Rightarrow> ('r \<Rightarrow> nat) \<Rightarrow> ('r \<Rightarrow> 'b result) \<Rightarrow> FullDataLoaderOptions \<Rightarrow>
     ('s, 'r, 'b) loader_ops" where
  "stateless_ops nxt rst req_size dataset opts = \<lparr>
     get_batch_request = stateless_get_batch_request nxt req_size opts,
     reset_source = rst,
     get_batch = (\<lambda>r. case dataset r of Inl e \<Rightarrow> Inl e | Inr b \<Rightarrow> Inr (Some b))\<rparr>"

end
