(* ===== verification/Loader_Correctness.thy ===== *)
theory Loader_Correctness
  imports Data_Loader
begin

text \<open>
  Correctness of the ordered data loader under every interleaving of its threads: batches come out in the order of the
  requests, the assertions of the sequencer hold, the main thread is never stuck. The source of requests is a locale,
  which every sampler of the library provides through the stateless loader.
\<close>

section \<open>Sources of batch requests\<close>

locale request_source =
  fixes src_inv :: "'s \<Rightarrow> bool"
    and request :: "('s, 'r option) mon"
    and todo :: "'s \<Rightarrow> 'r list"
  assumes request_end: "src_inv s \<Longrightarrow> todo s = [] \<Longrightarrow> \<exists>s'. request s = (Inr None, s') \<and> src_inv s' \<and> todo s' = []"
    and request_next: "src_inv s \<Longrightarrow> todo s = r # rs \<Longrightarrow>
      \<exists>s'. request s = (Inr (Some r), s') \<and> src_inv s' \<and> todo s' = rs"

text \<open>What the stateless loader requests from the indices that a sampler still has.\<close>

definition epoch_plan :: "FullDataLoaderOptions \<Rightarrow> nat list \<Rightarrow> nat list list" where
  "epoch_plan opts xs =
     filter (\<lambda>r. \<not> (length r < batch_size opts \<and> drop_last opts)) (chunks (batch_size opts) xs)"

lemma epoch_plan_step:
  assumes "0 < batch_size opts" "xs \<noteq> []"
  shows "epoch_plan opts xs =
    (if length xs < batch_size opts \<and> drop_last opts then []
     else take (batch_size opts) xs # epoch_plan opts (drop (batch_size opts) xs))"
proof -
  have "length (take (batch_size opts) xs) < batch_size opts \<longleftrightarrow> length xs < batch_size opts" by auto
  then show ?thesis using chunks_step [OF assms] by (simp add: epoch_plan_def)
qed

lemma stateless_source:
  assumes "index_sampler sinv nxt rest" "0 < batch_size opts" "batch_size opts < 2 ^ 63"
  shows "request_source sinv (stateless_get_batch_request nxt length opts) (\<lambda>s. epoch_plan opts (rest s))"
proof
  let ?b = "batch_size opts"
  note law = index_sampler.nxt_end [OF assms(1)] index_sampler.nxt_take [OF assms(1) _ _ assms(3)]
  fix s
  assume s: "sinv s"
  have nonempty: "\<exists>s'. nxt ?b s = (Inr (Some (take ?b (rest s))), s') \<and> sinv s' \<and> rest s' = drop ?b (rest s) \<and>
      stateless_get_batch_request nxt length opts s =
        (Inr (if length (rest s) < ?b \<and> drop_last opts then None else Some (take ?b (rest s))), s')" if ne: "rest s \<noteq> []"
  proof -
    obtain s' where s': "nxt ?b s = (Inr (Some (take ?b (rest s))), s')" "sinv s'" "rest s' = drop ?b (rest s)"
      using law(2) [OF s ne] by blast
    have "0 < length (take ?b (rest s))" "length (take ?b (rest s)) < ?b \<longleftrightarrow> length (rest s) < ?b"
      using ne assms(2) by auto
    then show ?thesis using s' by (simp add: stateless_get_batch_request_def)
  qed
  show "\<exists>s'. stateless_get_batch_request nxt length opts s = (Inr None, s') \<and> sinv s' \<and> epoch_plan opts (rest s') = []"
    if "epoch_plan opts (rest s) = []"
  proof (cases "rest s = []")
    case True
    then show ?thesis using law(1) [OF s True] s by (simp add: stateless_get_batch_request_def epoch_plan_def)
  next
    case False
    from epoch_plan_step [OF assms(2) False] that have "length (rest s) < ?b" "drop_last opts"
      by (auto split: if_splits)
    then show ?thesis using nonempty [OF False] by (auto simp: epoch_plan_def)
  qed
  show "\<exists>s'. stateless_get_batch_request nxt length opts s = (Inr (Some r), s') \<and> sinv s' \<and> epoch_plan opts (rest s') = rs"
    if "epoch_plan opts (rest s) = r # rs" for r rs
  proof -
    have ne: "rest s \<noteq> []" using that by (auto simp: epoch_plan_def)
    from epoch_plan_step [OF assms(2) ne] that
    have "\<not> (length (rest s) < ?b \<and> drop_last opts)" "r = take ?b (rest s)" "rs = epoch_plan opts (drop ?b (rest s))"
      by (auto split: if_splits)
    then show ?thesis using nonempty [OF ne] by auto
  qed
qed

section \<open>Multisets of what is under way\<close>

definition busy_jobs :: "'r worker list \<Rightarrow> 'r Job list" where
  "busy_jobs ws = concat (map (\<lambda>w. case w of Busy j \<Rightarrow> [j] | _ \<Rightarrow> []) ws)"

definition buffered :: "'b Result option list \<Rightarrow> 'b Result list" where
  "buffered buf = concat (map (\<lambda>x. case x of Some r \<Rightarrow> [r] | None \<Rightarrow> []) buf)"

lemma mset_concat_update:
  "i < length xs \<Longrightarrow> mset (concat (map f (xs[i := y]))) + mset (f (xs ! i)) = mset (concat (map f xs)) + mset (f y)"
proof (induction xs arbitrary: i)
  case (Cons x xs)
  show ?case
  proof (cases i)
    case 0
    then show ?thesis by (simp add: union_ac)
  next
    case (Suc k)
    then show ?thesis using Cons.IH [of k] Cons.prems by (simp add: union_ac)
  qed
qed simp

lemma mset_add_mset_facts:
  assumes "mset xs = add_mset a (mset ys)"
  shows "set xs = insert a (set ys)" "length xs = Suc (length ys)"
  using arg_cong [OF assms, of set_mset] arg_cong [OF assms, of size] by simp_all

lemma busy_take:
  "i < length ws \<Longrightarrow> ws ! i = Idle \<Longrightarrow> mset (busy_jobs (ws[i := Busy j])) = add_mset j (mset (busy_jobs ws))"
  using mset_concat_update [of i ws "\<lambda>w. case w of Busy j \<Rightarrow> [j] | _ \<Rightarrow> []" "Busy j"] by (simp add: busy_jobs_def)

lemma busy_done:
  "i < length ws \<Longrightarrow> ws ! i = Busy j \<Longrightarrow> mset (busy_jobs ws) = add_mset j (mset (busy_jobs (ws[i := Idle])))"
  using mset_concat_update [of i ws "\<lambda>w. case w of Busy j \<Rightarrow> [j] | _ \<Rightarrow> []" Idle] by (simp add: busy_jobs_def)

lemma buffered_store:
  "i < length buf \<Longrightarrow> buf ! i = None \<Longrightarrow> mset (buffered (buf[i := Some r])) = add_mset r (mset (buffered buf))"
  using mset_concat_update [of i buf "\<lambda>x. case x of Some r \<Rightarrow> [r] | None \<Rightarrow> []" "Some r"] by (simp add: buffered_def)

lemma buffered_take:
  "i < length buf \<Longrightarrow> buf ! i = Some r \<Longrightarrow> mset (buffered buf) = add_mset r (mset (buffered (buf[i := None])))"
  using mset_concat_update [of i buf "\<lambda>x. case x of Some r \<Rightarrow> [r] | None \<Rightarrow> []" None] by (simp add: buffered_def)

lemma in_buffered: "r \<in> set (buffered buf) \<longleftrightarrow> (\<exists>i < length buf. buf ! i = Some r)"
  by (fastforce simp: buffered_def in_set_conv_nth [of _ buf] split: option.splits)

lemma buffered_Nil: "buffered buf = [] \<longleftrightarrow> \<not> buffer_contains_result buf"
  by (induction buf) (auto simp: buffered_def buffer_contains_result_def split: option.splits)

lemma busy_jobs_set: "j \<in> set (busy_jobs ws) \<longleftrightarrow> Busy j \<in> set ws"
  by (fastforce simp: busy_jobs_def split: worker.splits)

lemma mod_window:
  assumes "(a :: nat) mod M = b mod M" "n \<le> a" "a < n + M" "n \<le> b" "b < n + M"
  shows "a = b"
proof (rule ccontr)
  assume "a \<noteq> b"
  then consider "a < b" | "b < a" by linarith
  then show False
  proof cases
    case 1
    then have "M dvd b - a" using assms(1) [symmetric] by (simp add: mod_eq_dvd_iff_nat)
    then show False using 1 assms dvd_imp_le [of M "b - a"] by linarith
  next
    case 2
    then have "M dvd a - b" using assms(1) by (simp add: mod_eq_dvd_iff_nat)
    then show False using 2 assms dvd_imp_le [of M "a - b"] by linarith
  qed
qed

section \<open>The flow of jobs\<close>

definition job_for :: "'r list \<Rightarrow> nat \<Rightarrow> 'r Job" where
  "job_for plan n = \<lparr>job_sqn = n, quit = False, batch_request = Some (plan ! n)\<rparr>"

definition result_for :: "('s, 'r, 'b) loader_ops \<Rightarrow> 'r list \<Rightarrow> nat \<Rightarrow> 'b Result" where
  "result_for ops plan n = run_job ops (job_for plan n)"

definition under_way :: "('r, 'b) DataShuttle \<Rightarrow> 'r worker list \<Rightarrow> 'b Result option list \<Rightarrow> nat multiset" where
  "under_way sh ws buf = image_mset job_sqn (mset (new_jobs sh)) + image_mset job_sqn (mset (busy_jobs ws)) +
     image_mset result_sqn (mset (results sh)) + image_mset result_sqn (mset (buffered buf))"

text \<open>
  Between the delivered results and the next sequence number every number is under way exactly once: as a job in the
  queue or with a worker, as a result in the queue, or as a result in its slot of the sequencer's buffer.
\<close>

definition flow_ok ::
  "('s, 'r, 'b) loader_ops \<Rightarrow> 'r list \<Rightarrow> nat \<Rightarrow> nat \<Rightarrow> ('r, 'b) DataShuttle \<Rightarrow> 'r worker list \<Rightarrow>
     'b Result option list \<Rightarrow> bool" where
  "flow_ok ops plan n m sh ws buf \<longleftrightarrow>
     under_way sh ws buf = mset [n..<m] \<and>
     (\<forall>j \<in> set (new_jobs sh) \<union> set (busy_jobs ws). j = job_for plan (job_sqn j)) \<and>
     (\<forall>r \<in> set (results sh) \<union> set (buffered buf). r = result_for ops plan (result_sqn r)) \<and>
     (\<forall>i < length buf. \<forall>r. buf ! i = Some r \<longrightarrow> result_sqn r mod length buf = i) \<and>
     in_flight_jobs sh = length (new_jobs sh) + length (busy_jobs ws) + length (results sh) \<and>
     Exited \<notin> set ws"

lemma run_job_sqn [simp]: "result_sqn (run_job ops j) = job_sqn j"
  by (simp add: run_job_def split: option.splits sum.splits)

lemma job_for_simps [simp]: "job_sqn (job_for plan n) = n" "\<not> quit (job_for plan n)"
  by (simp_all add: job_for_def)

lemma result_for_sqn [simp]: "result_sqn (result_for ops plan n) = n"
  by (simp add: result_for_def)

lemma flow_take_job:
  assumes f: "flow_ok ops plan n m sh ws buf" and i: "i < length ws" "ws ! i = Idle" and q: "new_jobs sh = j # q"
  shows "flow_ok ops plan n m (sh\<lparr>new_jobs := q\<rparr>) (ws[i := Busy j]) buf" "\<not> quit j"
proof -
  note b = busy_take [OF i, of j]
  note mset_add_mset_facts [OF b]
  moreover have "Exited \<notin> set (ws[i := Busy j])"
    using f set_update_subset_insert [of ws i "Busy j"] by (auto simp: flow_ok_def)
  ultimately show "flow_ok ops plan n m (sh\<lparr>new_jobs := q\<rparr>) (ws[i := Busy j]) buf"
    using f q b by (auto simp: flow_ok_def under_way_def union_ac)
  have "j = job_for plan (job_sqn j)" using f q by (simp add: flow_ok_def)
  then show "\<not> quit j" by (metis job_for_simps(2))
qed

lemma flow_finish_job:
  assumes f: "flow_ok ops plan n m sh ws buf" and i: "i < length ws" "ws ! i = Busy j"
  shows "flow_ok ops plan n m (push_result (run_job ops j) sh) (ws[i := Idle]) buf"
proof -
  note b = busy_done [OF i]
  note mset_add_mset_facts [OF b]
  moreover have "Exited \<notin> set (ws[i := Idle])"
    using f set_update_subset_insert [of ws i Idle] by (auto simp: flow_ok_def)
  moreover have "run_job ops j = result_for ops plan (job_sqn j)"
  proof -
    have "j = job_for plan (job_sqn j)" using f calculation(1) by (simp add: flow_ok_def)
    then show ?thesis unfolding result_for_def by simp
  qed
  ultimately show ?thesis
    using f b by (auto simp: flow_ok_def under_way_def push_result_def queue_push_def union_ac)
qed

lemma under_way_bounds:
  assumes "flow_ok ops plan n m sh ws buf"
  shows "r \<in> set (results sh) \<Longrightarrow> n \<le> result_sqn r \<and> result_sqn r < m"
    and "r \<in> set (buffered buf) \<Longrightarrow> n \<le> result_sqn r \<and> result_sqn r < m"
proof -
  have s: "set_mset (under_way sh ws buf) = {n..<m}" using assms by (simp add: flow_ok_def)
  show "n \<le> result_sqn r \<and> result_sqn r < m" if "r \<in> set (results sh)"
  proof -
    have "result_sqn r \<in> set_mset (under_way sh ws buf)" using that by (auto simp: under_way_def)
    then show ?thesis unfolding s by simp
  qed
  show "n \<le> result_sqn r \<and> result_sqn r < m" if "r \<in> set (buffered buf)"
  proof -
    have "result_sqn r \<in> set_mset (under_way sh ws buf)" using that by (auto simp: under_way_def)
    then show ?thesis unfolding s by simp
  qed
qed

abbreviation popped :: "'b Result list \<Rightarrow> ('r, 'b) DataShuttle \<Rightarrow> ('r, 'b) DataShuttle" where
  "popped q sh \<equiv> sh\<lparr>results := q, in_flight_jobs := in_flight_jobs sh - 1\<rparr>"

text \<open>A result that is not due has a free slot: the number in the slot would be the same one.\<close>

lemma flow_stash:
  assumes f: "flow_ok ops plan n m sh ws buf" and q: "results sh = r # q" and w: "m \<le> n + length buf"
    and b: "0 < length buf"
  shows "buf ! (result_sqn r mod length buf) = None"
    and "flow_ok ops plan n m (popped q sh) ws (set_buffer (result_sqn r) (Some r) buf)"
proof -
  let ?i = "result_sqn r mod length buf"
  have i: "?i < length buf" using b by simp
  have r: "n \<le> result_sqn r" "result_sqn r < m" using under_way_bounds(1) [OF f, of r] q by auto
  show none: "buf ! ?i = None"
  proof (rule ccontr)
    assume "buf ! ?i \<noteq> None"
    then obtain r' where r': "buf ! ?i = Some r'" by blast
    then have in_buf: "r' \<in> set (buffered buf)" using i by (auto simp: in_buffered)
    have "result_sqn r' mod length buf = result_sqn r mod length buf" using f r' i by (auto simp: flow_ok_def)
    moreover have "n \<le> result_sqn r'" "result_sqn r' < m" using under_way_bounds(2) [OF f in_buf] by auto
    ultimately have same: "result_sqn r' = result_sqn r" 
      using mod_window [of "result_sqn r'" "length buf" "result_sqn r" n] r w by linarith
    have "{#result_sqn r, result_sqn r'#} \<subseteq># under_way sh ws buf"
      using q multi_member_split [of r' "mset (buffered buf)"] in_buf by (auto simp: under_way_def union_ac)
    then have "2 \<le> count (under_way sh ws buf) (result_sqn r)"
      using same mset_subset_eq_count [of "{#result_sqn r, result_sqn r'#}" "under_way sh ws buf" "result_sqn r"] by simp
    then show False using f distinct_count_atmost_1 [of "[n..<m]"] by (auto simp: flow_ok_def split: if_splits)
  qed
  note st = buffered_store [OF i none, of r]
  note mset_add_mset_facts(1) [OF st]
  moreover have "r = result_for ops plan (result_sqn r)" using f q by (simp add: flow_ok_def)
  ultimately show "flow_ok ops plan n m (popped q sh) ws (set_buffer (result_sqn r) (Some r) buf)"
    using f q st i by (auto simp: flow_ok_def under_way_def set_buffer_def union_ac nth_list_update split: if_splits)
qed

lemma upt_head: "n < m \<Longrightarrow> mset [n..<m] = add_mset n (mset [n + 1..<m])"
  by (simp add: upt_conv_Cons)

lemma flow_deliver:
  assumes f: "flow_ok ops plan n m sh ws buf" and q: "results sh = r # q" and n: "result_sqn r = n"
  shows "r = result_for ops plan n" "n < m" "flow_ok ops plan (n + 1) m (popped q sh) ws buf"
proof -
  show "r = result_for ops plan n" using f q n by (auto simp: flow_ok_def)
  show "n < m" using under_way_bounds(1) [OF f, of r] q n by auto
  have "under_way sh ws buf = add_mset n (under_way (popped q sh) ws buf)"
    using q n by (simp add: under_way_def union_ac)
  moreover have "under_way sh ws buf = mset [n..<m]" using f by (simp only: flow_ok_def)
  ultimately have "under_way (popped q sh) ws buf = mset [n + 1..<m]"
    using upt_head [OF \<open>n < m\<close>] by (simp only: add_mset_add_mset_same_iff)
  then show "flow_ok ops plan (n + 1) m (popped q sh) ws buf"
    using f q by (auto simp: flow_ok_def)
qed

lemma flow_deliver_buffered:
  assumes f: "flow_ok ops plan n m sh ws buf" and r: "buf ! (n mod length buf) = Some r"
    and w: "m \<le> n + length buf" and b: "0 < length buf"
  shows "r = result_for ops plan n" "n < m" "flow_ok ops plan (n + 1) m sh ws (set_buffer n None buf)"
proof -
  let ?i = "n mod length buf"
  have i: "?i < length buf" using b by simp
  have in_buf: "r \<in> set (buffered buf)" using r i by (auto simp: in_buffered)
  have rb: "n \<le> result_sqn r" "result_sqn r < m" using under_way_bounds(2) [OF f in_buf] by auto
  have "result_sqn r mod length buf = n mod length buf" using f r i by (auto simp: flow_ok_def)
  then have n: "result_sqn r = n" using mod_window [of "result_sqn r" "length buf" n n] rb w b by linarith
  show "r = result_for ops plan n" using f in_buf n by (auto simp: flow_ok_def)
  show "n < m" using rb n by simp
  note tk = buffered_take [OF i r]
  have "under_way sh ws buf = add_mset n (under_way sh ws (buf[?i := None]))"
    using tk n by (simp add: under_way_def)
  moreover have "under_way sh ws buf = mset [n..<m]" using f by (simp only: flow_ok_def)
  ultimately have "under_way sh ws (buf[?i := None]) = mset [n + 1..<m]"
    using upt_head [OF \<open>n < m\<close>] by (simp only: add_mset_add_mset_same_iff)
  moreover have "set (buffered (buf[?i := None])) \<subseteq> set (buffered buf)"
    using mset_add_mset_facts(1) [OF tk] by auto
  ultimately show "flow_ok ops plan (n + 1) m sh ws (set_buffer n None buf)"
    using f i by (auto simp: flow_ok_def set_buffer_def nth_list_update split: if_splits)
qed

lemma flow_push:
  assumes f: "flow_ok ops plan n m sh ws buf" "n \<le> m"
  shows "flow_ok ops plan n (m + 1) (shuttle_push_job (job_for plan m) sh) ws buf"
  using assms by (auto simp: flow_ok_def under_way_def shuttle_push_job_def queue_push_def)

lemma flow_drained:
  assumes f: "flow_ok ops plan n m sh ws buf" and "in_flight_jobs sh = 0" "buf ! (n mod length buf) = None" "n \<le> m"
    and b: "0 < length buf"
  shows "n = m" "buffered buf = []"
proof -
  have "new_jobs sh = []" "busy_jobs ws = []" "results sh = []" using f assms(2) by (simp_all add: flow_ok_def)
  moreover have "under_way sh ws buf = mset [n..<m]" using f by (simp only: flow_ok_def)
  ultimately have uw: "image_mset result_sqn (mset (buffered buf)) = mset [n..<m]" by (simp add: under_way_def)
  show "n = m"
  proof (rule ccontr)
    assume "n \<noteq> m"
    then have "n \<in># image_mset result_sqn (mset (buffered buf))" unfolding uw using assms(4) by simp
    then obtain r where "r \<in> set (buffered buf)" "result_sqn r = n" by auto
    then obtain i where "i < length buf" "buf ! i = Some r" "n mod length buf = i"
      using f by (auto simp: in_buffered flow_ok_def)
    then show False using assms(3) by simp
  qed
  then show "buffered buf = []" using uw by simp
qed

section \<open>The invariant of the ordered loader\<close>

definition outcome :: "('s, 'r, 'b) loader_ops \<Rightarrow> 'r \<Rightarrow> 'b loader_output" where
  "outcome ops r = (case get_batch ops r of
     Inl e \<Rightarrow> Threw (WorkerException e) | Inr (Some b) \<Rightarrow> Batch b | Inr None \<Rightarrow> EndOfEpoch)"

definition failing :: "('s, 'r, 'b) loader_ops \<Rightarrow> 'r \<Rightarrow> bool" where
  "failing ops r \<longleftrightarrow> (case get_batch ops r of Inl _ \<Rightarrow> True | Inr _ \<Rightarrow> False)"

definition failures :: "('s, 'r, 'b) loader_ops \<Rightarrow> 'r list \<Rightarrow> nat" where
  "failures ops rs = length (filter (failing ops) rs)"

definition timeout_error :: exn where
  "timeout_error = C10Error ''Timeout in DataLoader queue while waiting for next batch''"

definition without_timeouts :: "'b loader_output list \<Rightarrow> 'b loader_output list" where
  "without_timeouts outs = filter (\<lambda>out. case out of Threw e \<Rightarrow> e \<noteq> timeout_error | _ \<Rightarrow> True) outs"

text \<open>
  \<open>n\<close> results have been delivered. A delivered batch is replaced by a new job, a delivered exception is not: the number of
  jobs sent so far follows from that.
\<close>

definition loader_at ::
  "('s \<Rightarrow> bool) \<Rightarrow> ('s \<Rightarrow> 'r list) \<Rightarrow> ('s, 'r, 'b) loader_ops \<Rightarrow> FullDataLoaderOptions \<Rightarrow> 'r list \<Rightarrow>
     nat \<Rightarrow> 'b Result option list \<Rightarrow> ('s, 'r, 'b) DataLoader \<Rightarrow> bool" where
  "loader_at src_inv todo ops opts plan n buf dl \<longleftrightarrow>
     sequencer dl = OrderedSequencer n buf \<and> length buf = max_jobs opts \<and> 0 < max_jobs opts \<and>
     0 < workers opts \<and> length (worker_threads dl) = workers opts \<and>
     flow_ok ops plan n (sequence_number dl) (shuttle dl) (worker_threads dl) buf \<and> n \<le> sequence_number dl \<and>
     src_inv (source dl) \<and> todo (source dl) = drop (sequence_number dl) plan \<and>
     sequence_number dl = min (length plan) (max_jobs opts + (n - failures ops (take n plan)))"

definition trace_ok :: "('s, 'r, 'b) loader_ops \<Rightarrow> 'r list \<Rightarrow> nat \<Rightarrow> ('s, 'r, 'b) DataLoader \<Rightarrow> bool" where
  "trace_ok ops plan n dl \<longleftrightarrow> (\<exists>k. without_timeouts (outputs dl) =
       map (outcome ops) (take n plan) @ replicate k EndOfEpoch \<and> (0 < k \<longrightarrow> n = sequence_number dl))"

definition loader_ok ::
  "('s \<Rightarrow> bool) \<Rightarrow> ('s \<Rightarrow> 'r list) \<Rightarrow> ('s, 'r, 'b) loader_ops \<Rightarrow> FullDataLoaderOptions \<Rightarrow> 'r list \<Rightarrow>
     ('s, 'r, 'b) DataLoader \<Rightarrow> bool" where
  "loader_ok src_inv todo ops opts plan dl \<longleftrightarrow> (\<exists>n buf.
     loader_at src_inv todo ops opts plan n buf dl \<and> trace_ok ops plan n dl \<and>
     main_pc dl \<in> {Ready, PopResult, WaitResult} \<and>
     (main_pc dl = WaitResult \<longrightarrow> buf ! (n mod length buf) = None))"

lemma failures_le: "failures ops (take n plan) \<le> n"
  using length_filter_le [of "failing ops" "take n plan"] by (simp add: failures_def)

lemma failures_Suc:
  "n < length plan \<Longrightarrow> failures ops (take (n + 1) plan) =
     failures ops (take n plan) + (if failing ops (plan ! n) then 1 else 0)"
  by (simp add: failures_def take_Suc_conv_app_nth)

lemma loader_at_window:
  "loader_at src_inv todo ops opts plan n buf dl \<Longrightarrow> sequence_number dl \<le> n + length buf"
  by (auto simp: loader_at_def)

lemma loader_at_frame:
  "loader_at src_inv todo ops opts plan n buf (dl\<lparr>main_pc := pc, outputs := out\<rparr>) =
     loader_at src_inv todo ops opts plan n buf dl"
  "loader_at src_inv todo ops opts plan n buf (dl\<lparr>main_pc := pc\<rparr>) = loader_at src_inv todo ops opts plan n buf dl"
  by (simp_all add: loader_at_def)

lemma loader_at_change:
  assumes "loader_at src_inv todo ops opts plan n buf dl"
    and "sequencer dl' = OrderedSequencer n buf'" "length buf' = length buf"
    and "length (worker_threads dl') = length (worker_threads dl)" "sequence_number dl' = sequence_number dl"
    and "source dl' = source dl"
    and "flow_ok ops plan n (sequence_number dl) (shuttle dl') (worker_threads dl') buf'"
  shows "loader_at src_inv todo ops opts plan n buf' dl'"
  using assms(1,7) unfolding loader_at_def assms(2-6) by blast

lemma trace_ok_cong:
  "outputs dl' = outputs dl \<Longrightarrow> sequence_number dl' = sequence_number dl \<Longrightarrow> trace_ok ops plan n dl' = trace_ok ops plan n dl"
  by (simp add: trace_ok_def)

lemma trace_return:
  assumes "trace_ok ops plan n dl" "n < sequence_number dl" "sequence_number dl \<le> length plan"
    and "sequence_number dl \<le> sequence_number dl'" "outputs dl' = outputs dl"
  shows "trace_ok ops plan (n + 1) (return_with (outcome ops (plan ! n)) dl')"
proof -
  have "without_timeouts [outcome ops (plan ! n)] = [outcome ops (plan ! n)]"
    by (simp add: outcome_def without_timeouts_def timeout_error_def split: sum.splits option.splits)
  then show ?thesis
    using assms by (auto simp: trace_ok_def return_with_def without_timeouts_def take_Suc_conv_app_nth intro!: exI [of _ 0])
qed

lemma trace_end:
  assumes "trace_ok ops plan n dl" "n = sequence_number dl" "sequence_number dl' = sequence_number dl" "outputs dl' = outputs dl"
  shows "trace_ok ops plan n (return_with EndOfEpoch dl')"
proof -
  obtain k where k: "without_timeouts (outputs dl) = map (outcome ops) (take n plan) @ replicate k EndOfEpoch"
    using assms(1) by (auto simp: trace_ok_def)
  then have "without_timeouts (outputs dl @ [EndOfEpoch]) = map (outcome ops) (take n plan) @ replicate (Suc k) EndOfEpoch"
    by (simp add: without_timeouts_def replicate_append_same [symmetric])
  then show ?thesis using assms by (auto simp: trace_ok_def return_with_def intro: exI [of _ "Suc k"])
qed

lemma return_with_simps [simp]:
  "main_pc (return_with out dl) = Ready" "loader_at src_inv todo ops opts plan n buf (return_with out dl) =
     loader_at src_inv todo ops opts plan n buf dl"
  by (simp_all add: return_with_def loader_at_frame)

section \<open>Steps keep the invariant\<close>

locale ordered_loader = request_source src_inv "get_batch_request ops" todo
  for src_inv :: "'s \<Rightarrow> bool" and todo :: "'s \<Rightarrow> 'r list" and ops :: "('s, 'r, 'b) loader_ops" +
  assumes get_batch_total: "get_batch ops r \<noteq> Inr None"
begin

lemma prefetch_step:
  assumes "src_inv (source dl)" "todo (source dl) = drop m plan" "sequence_number dl = m"
    and "flow_ok ops plan n m (shuttle dl) ws buf" "n \<le> m"
  shows "\<exists>dl'. on_source (get_batch_request ops) dl = (Inr (if m < length plan then Some (plan ! m) else None), dl') \<and>
    (\<exists>s. dl' = dl\<lparr>source := s\<rparr> \<and> src_inv s \<and> todo s = drop (Suc m) plan)"
proof (cases "m < length plan")
  case True
  then have "todo (source dl) = plan ! m # drop (Suc m) plan" using assms(2) by (simp add: Cons_nth_drop_Suc)
  from request_next [OF assms(1) this] True show ?thesis by (auto simp: on_source_def)
next
  case False
  then have "todo (source dl) = []" using assms(2) by simp
  from request_end [OF assms(1) this] False show ?thesis by (auto simp: on_source_def)
qed

lemma deliver:
  assumes at: "sequencer dl = OrderedSequencer (n + 1) buf" "length buf = max_jobs opts" "0 < max_jobs opts"
      "0 < workers opts" "length (worker_threads dl) = workers opts"
    and flow: "flow_ok ops plan (n + 1) (sequence_number dl) (shuttle dl) (worker_threads dl) buf"
    and n: "n < sequence_number dl"
    and src: "src_inv (source dl)" "todo (source dl) = drop (sequence_number dl) plan"
    and sent: "sequence_number dl = min (length plan) (max_jobs opts + (n - failures ops (take n plan)))"
    and tr: "trace_ok ops plan n dl"
  shows "loader_ok src_inv todo ops opts plan (handle_result ops (Some (result_for ops plan n)) dl)"
    and "main_pc (handle_result ops (Some (result_for ops plan n)) dl) = Ready"
proof -
  let ?m = "sequence_number dl"
  have len: "?m \<le> length plan" "n < length plan" using sent n by auto
  have fs: "failures ops (take (n + 1) plan) = failures ops (take n plan) + (if failing ops (plan ! n) then 1 else 0)"
    by (rule failures_Suc) (rule len)
  note fl = failures_le [of ops n plan]
  show "loader_ok src_inv todo ops opts plan (handle_result ops (Some (result_for ops plan n)) dl)"
  proof (cases "get_batch ops (plan ! n)")
    case (Inl e)
    then have h: "handle_result ops (Some (result_for ops plan n)) dl = return_with (outcome ops (plan ! n)) dl"
      by (simp add: handle_result_def result_for_def run_job_def job_for_def outcome_def)
    have "failing ops (plan ! n)" using Inl by (simp add: failing_def)
    then have "?m = min (length plan) (max_jobs opts + (n + 1 - failures ops (take (n + 1) plan)))"
      using sent fs fl by simp
    then have "loader_at src_inv todo ops opts plan (n + 1) buf dl"
      using at flow n src by (simp add: loader_at_def)
    then show ?thesis unfolding h loader_ok_def
      using trace_return [OF tr n len(1) le_refl refl] by (intro exI [of _ "n + 1"] exI [of _ buf]) simp
  next
    case (Inr x)
    then obtain b where b: "get_batch ops (plan ! n) = Inr (Some b)" using get_batch_total by (cases x) auto
    have nf: "\<not> failing ops (plan ! n)" using b by (simp add: failing_def)
    obtain dl' s where q: "on_source (get_batch_request ops) dl = (Inr (if ?m < length plan then Some (plan ! ?m) else None), dl')"
        "dl' = dl\<lparr>source := s\<rparr>" "src_inv s" "todo s = drop (Suc ?m) plan"
      using prefetch_step [OF src refl flow] n by auto
    define dl2 where "dl2 = (if ?m < length plan then loader_push_job (Some (plan ! ?m)) dl' else dl')"
    have h: "handle_result ops (Some (result_for ops plan n)) dl = return_with (outcome ops (plan ! n)) dl2"
      using b q(1) by (simp add: handle_result_def result_for_def run_job_def job_for_def outcome_def dl2_def)
    have m2: "sequence_number dl2 = (if ?m < length plan then ?m + 1 else ?m)" "outputs dl2 = outputs dl"
      by (simp_all add: dl2_def q(2) loader_push_job_def)
    have "shuttle dl2 = (if ?m < length plan then shuttle_push_job (job_for plan ?m) (shuttle dl) else shuttle dl)"
      by (simp add: dl2_def q(2) loader_push_job_def job_for_def)
    moreover have w2: "sequencer dl2 = sequencer dl" "worker_threads dl2 = worker_threads dl"
      by (simp_all add: dl2_def q(2) loader_push_job_def)
    ultimately have f2: "flow_ok ops plan (n + 1) (sequence_number dl2) (shuttle dl2) (worker_threads dl2) buf"
      using flow flow_push [OF flow] n m2 by simp
    have "sequence_number dl2 = min (length plan) (max_jobs opts + (n + 1 - failures ops (take (n + 1) plan)))"
      using sent fs fl nf m2 by (simp add: min_def Suc_diff_le)
    moreover have "todo (source dl2) = drop (sequence_number dl2) plan" "src_inv (source dl2)"
      using q len by (simp_all add: dl2_def loader_push_job_def)
    moreover have "n + 1 \<le> sequence_number dl2" using n m2(1) by simp
    ultimately have "loader_at src_inv todo ops opts plan (n + 1) buf dl2"
      unfolding loader_at_def w2 using at f2 [unfolded w2] by blast
    then show ?thesis unfolding h loader_ok_def
      using trace_return [OF tr n len(1) _ m2(2)] m2(1) by (intro exI [of _ "n + 1"] exI [of _ buf]) simp
  qed
  show "main_pc (handle_result ops (Some (result_for ops plan n)) dl) = Ready"
    using get_batch_total [of "plan ! n"]
    by (auto simp: handle_result_def result_for_def run_job_def job_for_def split: option.splits sum.splits prod.splits)
qed

end

context ordered_loader
begin

lemma loader_atD:
  assumes "loader_at src_inv todo ops opts plan n buf dl"
  shows "sequencer dl = OrderedSequencer n buf" "length buf = max_jobs opts" "0 < max_jobs opts" "0 < workers opts"
    "length (worker_threads dl) = workers opts"
    "flow_ok ops plan n (sequence_number dl) (shuttle dl) (worker_threads dl) buf" "n \<le> sequence_number dl"
    "src_inv (source dl)" "todo (source dl) = drop (sequence_number dl) plan"
    "sequence_number dl = min (length plan) (max_jobs opts + (n - failures ops (take n plan)))"
    "sequence_number dl \<le> n + length buf" "0 < length buf"
  using assms loader_at_window [OF assms] by (auto simp: loader_at_def)

lemma pop_result_keeps:
  assumes at: "loader_at src_inv todo ops opts plan n buf dl" and tr: "trace_ok ops plan n dl"
    and step: "main_step ops opts PopResult dl = Some dl'"
  shows "loader_ok src_inv todo ops opts plan dl' \<and> main_pc dl' \<in> {Ready, WaitResult} \<and>
    (main_pc dl' = WaitResult \<longrightarrow> shuttle dl' = shuttle dl \<and> worker_threads dl' = worker_threads dl)"
proof -
  note a = loader_atD [OF at]
  have bn: "buf \<noteq> []" using a(12) by auto
  show ?thesis
  proof (cases "buf ! (n mod length buf)")
    case None
    then have "dl' = dl\<lparr>sequencer := OrderedSequencer n buf, main_pc := WaitResult\<rparr>"
      using step a(1) bn by (simp add: buffer_at_def)
    then have "dl' = dl\<lparr>main_pc := WaitResult\<rparr>" using a(1) by simp
    then show ?thesis using at tr None trace_ok_cong [of dl' dl ops plan n]
      by (auto simp: loader_ok_def loader_at_frame intro!: exI [of _ n] exI [of _ buf])
  next
    case (Some r)
    let ?dl = "dl\<lparr>sequencer := OrderedSequencer (n + 1) (set_buffer n None buf)\<rparr>"
    note d = flow_deliver_buffered [OF a(6) Some a(11,12)]
    have "dl' = handle_result ops (Some (result_for ops plan n)) ?dl"
      using step a(1) bn Some d(1) by (simp add: buffer_at_def)
    moreover have "trace_ok ops plan n ?dl" using tr by (simp add: trace_ok_def)
    ultimately show ?thesis
      using deliver [of ?dl n "set_buffer n None buf" opts plan] a d by (simp add: set_buffer_def)
  qed
qed

lemma wait_result_keeps:
  assumes at: "loader_at src_inv todo ops opts plan n buf dl" and tr: "trace_ok ops plan n dl"
    and pc: "main_pc dl = WaitResult" "buf ! (n mod length buf) = None"
    and step: "main_step ops opts WaitResult dl = Some dl'"
  shows "loader_ok src_inv todo ops opts plan dl' \<and> main_pc dl' \<in> {Ready, WaitResult} \<and>
    (main_pc dl' = WaitResult \<longrightarrow> worker_threads dl' = worker_threads dl \<and>
       new_jobs (shuttle dl') = new_jobs (shuttle dl) \<and> length (results (shuttle dl')) < length (results (shuttle dl)))"
proof -
  note a = loader_atD [OF at]
  have bn: "buf \<noteq> []" using a(12) by auto
  show ?thesis
  proof (cases "in_flight_jobs (shuttle dl) = 0")
    case True
    note e = flow_drained [OF a(6) True pc(2) a(7,12)]
    have same: "dl\<lparr>sequencer := OrderedSequencer n buf\<rparr> = dl" using a(1) by simp
    have "dl' = return_with EndOfEpoch (dl\<lparr>sequencer := OrderedSequencer n buf\<rparr>)"
      using step True a(1) e(2) by (simp add: shuttle_pop_result_def handle_result_def buffered_Nil)
    then have "dl' = return_with EndOfEpoch dl" unfolding same .
    then show ?thesis using at trace_end [OF tr e(1) refl refl]
      by (auto simp: loader_ok_def intro!: exI [of _ n] exI [of _ buf])
  next
    case False
    then obtain r q where q: "results (shuttle dl) = r # q"
      using step by (cases "results (shuttle dl)") (auto simp: shuttle_pop_result_def queue_pop_def)
    let ?dl = "dl\<lparr>shuttle := popped q (shuttle dl)\<rparr>"
    have pop: "shuttle_pop_result (shuttle dl) = Some (Some r, popped q (shuttle dl))"
      using False q by (simp add: shuttle_pop_result_def queue_pop_def)
    have tr': "trace_ok ops plan n (?dl\<lparr>sequencer := sq\<rparr>)" for sq using tr by (simp add: trace_ok_def)
    show ?thesis
    proof (cases "result_sqn r = n")
      case True
      note d = flow_deliver [OF a(6) q True]
      have "dl' = handle_result ops (Some (result_for ops plan n)) (?dl\<lparr>sequencer := OrderedSequencer (n + 1) buf\<rparr>)"
        using step pop a(1) True d(1) by simp
      then show ?thesis
        using deliver [of "?dl\<lparr>sequencer := OrderedSequencer (n + 1) buf\<rparr>" n buf opts plan] a d tr' by simp
    next
      case False
      note d = flow_stash [OF a(6) q a(11,12)]
      let ?buf = "set_buffer (result_sqn r) (Some r) buf"
      have dl': "dl' = ?dl\<lparr>sequencer := OrderedSequencer n ?buf\<rparr>"
        using step pop a(1) False bn d(1) by (simp add: buffer_at_def)
      have "result_sqn r mod length buf \<noteq> n mod length buf"
      proof
        assume "result_sqn r mod length buf = n mod length buf"
        moreover have "n \<le> result_sqn r" "result_sqn r < sequence_number dl"
          using under_way_bounds(1) [OF a(6), of r] q by auto
        ultimately have "result_sqn r = n"
          using mod_window [of "result_sqn r" "length buf" n n] a(11,12) by linarith
        then show False using False by simp
      qed
      then have "?buf ! (n mod length ?buf) = None" using pc(2) by (simp add: set_buffer_def)
      moreover have "loader_at src_inv todo ops opts plan n ?buf dl'"
        by (rule loader_at_change [OF at]) (use d(2) in \<open>simp_all add: dl' set_buffer_def\<close>)
      ultimately show ?thesis using tr' pc(1) q unfolding loader_ok_def dl'
        by (auto intro!: exI [of _ n] exI [of _ ?buf])
    qed
  qed
qed

lemma worker_keeps:
  assumes at: "loader_at src_inv todo ops opts plan n buf dl" and step: "worker_step ops i dl = Some dl'"
  shows "loader_at src_inv todo ops opts plan n buf dl' \<and> outputs dl' = outputs dl \<and> main_pc dl' = main_pc dl \<and>
    sequence_number dl' = sequence_number dl"
proof -
  note a = loader_atD [OF at]
  have i: "i < length (worker_threads dl)" using step by (simp add: worker_step_def split: if_splits)
  show ?thesis
  proof (cases "worker_threads dl ! i")
    case Idle
    then obtain j q where q: "new_jobs (shuttle dl) = j # q"
      using step i by (cases "new_jobs (shuttle dl)") (auto simp: worker_step_def pop_job_def queue_pop_def)
    note f = flow_take_job [OF a(6) i Idle q]
    have "dl' = dl\<lparr>shuttle := (shuttle dl)\<lparr>new_jobs := q\<rparr>, worker_threads := (worker_threads dl)[i := Busy j]\<rparr>"
      using step i Idle q f(2) by (simp add: worker_step_def pop_job_def queue_pop_def)
    then show ?thesis using f(1) a(1) by (auto intro!: loader_at_change [OF at])
  next
    case (Busy j)
    then have "dl' = dl\<lparr>shuttle := push_result (run_job ops j) (shuttle dl), worker_threads := (worker_threads dl)[i := Idle]\<rparr>"
      using step i by (simp add: worker_step_def)
    then show ?thesis using flow_finish_job [OF a(6) i Busy] a(1) by (auto intro!: loader_at_change [OF at])
  next
    case Exited
    then show ?thesis using step i by (simp add: worker_step_def)
  qed
qed

end

section \<open>Runs\<close>

definition quiescent :: "FullDataLoaderOptions \<Rightarrow> ('s, 'r, 'b) DataLoader \<Rightarrow> bool" where
  "quiescent opts dl \<longleftrightarrow> in_flight_jobs (shuttle dl) = 0 \<and> new_jobs (shuttle dl) = [] \<and> results (shuttle dl) = [] \<and>
     worker_threads dl = replicate (workers opts) Idle \<and> main_pc dl = Ready"

lemma quiescent_new: "quiescent opts (new_DataLoader opts src)"
  by (simp add: quiescent_def new_DataLoader_def new_DataShuttle_def)

text \<open>The runs of one epoch: any interleaving of calls of \<open>next\<close>, the main thread, timeouts and workers.\<close>

inductive epoch_run ::
  "('s, 'r, 'b) loader_ops \<Rightarrow> FullDataLoaderOptions \<Rightarrow> ('s, 'r, 'b) DataLoader \<Rightarrow> ('s, 'r, 'b) DataLoader \<Rightarrow> bool"
  for ops opts dl where
  epoch_refl: "epoch_run ops opts dl dl"
| epoch_step: "epoch_run ops opts dl dl' \<Longrightarrow> a \<notin> {CallBegin, CallJoin} \<Longrightarrow> loader_step ops opts a dl' = Some dl'' \<Longrightarrow>
    epoch_run ops opts dl dl''"

definition work :: "('s, 'r, 'b) DataLoader \<Rightarrow> nat" where
  "work dl = 3 * length (new_jobs (shuttle dl)) + 2 * length (busy_jobs (worker_threads dl)) + length (results (shuttle dl)) +
     (if main_pc dl = PopResult then 1 else 0)"

context ordered_loader
begin

lemma step_keeps:
  assumes ok: "loader_ok src_inv todo ops opts plan dl" and a: "a \<notin> {CallBegin, CallJoin}"
    and step: "loader_step ops opts a dl = Some dl'"
  shows "loader_ok src_inv todo ops opts plan dl'"
proof -
  obtain n buf where at: "loader_at src_inv todo ops opts plan n buf dl" and tr: "trace_ok ops plan n dl"
      and pc: "main_pc dl \<in> {Ready, PopResult, WaitResult}" "main_pc dl = WaitResult \<Longrightarrow> buf ! (n mod length buf) = None"
    using ok unfolding loader_ok_def by blast
  show ?thesis
  proof (cases a)
    case CallNext
    then have "dl' = dl\<lparr>main_pc := PopResult\<rparr>"
      using step loader_atD(4) [OF at] by (simp add: loader_step_def loader_next_def split: if_splits)
    then show ?thesis using at tr trace_ok_cong [of dl' dl ops plan n]
      by (auto simp: loader_ok_def loader_at_frame intro!: exI [of _ n] exI [of _ buf])
  next
    case Main
    with step pc(1) consider "main_step ops opts PopResult dl = Some dl'"
      | "main_pc dl = WaitResult" "main_step ops opts WaitResult dl = Some dl'"
      by (auto simp: loader_step_def)
    then show ?thesis
      using pop_result_keeps [OF at tr] wait_result_keeps [OF at tr _ pc(2)] by cases blast+
  next
    case Timeout
    then have "dl' = return_with (Threw timeout_error) dl"
      using step by (simp add: loader_step_def timeout_error_def split: if_splits)
    moreover have "trace_ok ops plan n (return_with (Threw timeout_error) dl)"
      using tr by (simp add: trace_ok_def return_with_def without_timeouts_def)
    ultimately show ?thesis using at by (auto simp: loader_ok_def intro!: exI [of _ n] exI [of _ buf])
  next
    case (Worker i)
    then have "worker_step ops i dl = Some dl'" using step by (simp add: loader_step_def)
    note w = worker_keeps [OF at this]
    then show ?thesis using pc tr trace_ok_cong [of dl' dl ops plan n]
      unfolding loader_ok_def by (intro exI [of _ n] exI [of _ buf]) simp
  qed (use a in auto)
qed

lemma run_keeps:
  assumes "epoch_run ops opts dl dl'" "loader_ok src_inv todo ops opts plan dl"
  shows "loader_ok src_inv todo ops opts plan dl'"
  using assms by (induction rule: epoch_run.induct) (auto intro: step_keeps)

lemma prefetch_many:
  assumes "src_inv (source dl)" "todo (source dl) = drop m plan" "sequence_number dl = m"
    and "flow_ok ops plan n m (shuttle dl) (worker_threads dl) buf" "n \<le> m" "m \<le> length plan"
  shows "\<exists>dl'. prefetch ops k dl = (Inr (), dl') \<and> sequence_number dl' = min (length plan) (m + k) \<and>
    src_inv (source dl') \<and> todo (source dl') = drop (sequence_number dl') plan \<and>
    flow_ok ops plan n (sequence_number dl') (shuttle dl') (worker_threads dl') buf \<and>
    worker_threads dl' = worker_threads dl \<and> sequencer dl' = sequencer dl \<and> main_pc dl' = main_pc dl \<and>
    outputs dl' = outputs dl"
  using assms
proof (induction k arbitrary: dl m)
  case 0
  then show ?case by simp
next
  case (Suc k)
  obtain dl1 s where q: "on_source (get_batch_request ops) dl = (Inr (if m < length plan then Some (plan ! m) else None), dl1)"
      "dl1 = dl\<lparr>source := s\<rparr>" "src_inv s" "todo s = drop (Suc m) plan"
    using prefetch_step [OF Suc.prems(1-5)] by auto
  show ?case
  proof (cases "m < length plan")
    case False
    then show ?thesis using q Suc.prems by simp
  next
    case True
    let ?dl = "loader_push_job (Some (plan ! m)) dl1"
    have sh: "shuttle ?dl = shuttle_push_job (job_for plan m) (shuttle dl)" "sequence_number ?dl = m + 1"
        "worker_threads ?dl = worker_threads dl" "source ?dl = s"
      using q Suc.prems(3) by (simp_all add: loader_push_job_def job_for_def)
    have "\<exists>dl'. prefetch ops k ?dl = (Inr (), dl') \<and> sequence_number dl' = min (length plan) (m + 1 + k) \<and>
      src_inv (source dl') \<and> todo (source dl') = drop (sequence_number dl') plan \<and>
      flow_ok ops plan n (sequence_number dl') (shuttle dl') (worker_threads dl') buf \<and>
      worker_threads dl' = worker_threads ?dl \<and> sequencer dl' = sequencer ?dl \<and> main_pc dl' = main_pc ?dl \<and>
      outputs dl' = outputs ?dl"
      using q sh flow_push [OF Suc.prems(4,5)] Suc.prems(5) True by (intro Suc.IH) simp_all
    moreover have "prefetch ops (Suc k) dl = prefetch ops k ?dl" using q(1) True by simp
    moreover have "sequencer ?dl = sequencer dl" "main_pc ?dl = main_pc dl" "outputs ?dl = outputs dl"
      using q(2) by (simp_all add: loader_push_job_def)
    ultimately show ?thesis using sh(3) by simp
  qed
qed

lemma begin_ok:
  assumes q: "quiescent opts dl0" and "0 < workers opts" "0 < max_jobs opts" "enforce_ordering opts"
    and rst: "reset_source ops (source dl0) = (Inr (), s1)" "src_inv s1"
    and steps: "loader_step ops opts CallBegin dl0 = Some dl1" "loader_step ops opts Main dl1 = Some dl2"
  shows "loader_ok src_inv todo ops opts (todo s1) dl2"
proof -
  let ?plan = "todo s1" and ?buf = "replicate (max_jobs opts) None"
  define d where "d = dl1\<lparr>sequence_number := 0, sequencer := new_sequencer opts, main_pc := Ready\<rparr>"
  have dl1: "dl1 = dl0\<lparr>outputs := [], source := s1, shuttle := drain_jobs (shuttle dl0), main_pc := DrainResults True\<rparr>"
    using steps(1) q rst(1) by (auto simp: loader_step_def quiescent_def loader_begin_def on_source_def)
  have drained: "drain_jobs (shuttle dl0) = shuttle dl0"
    using q by (simp add: drain_jobs_def queue_clear_def quiescent_def)
  have "buffered ?buf = []" "busy_jobs (replicate (workers opts) Idle) = []"
    by (simp_all add: buffered_def busy_jobs_def)
  then have "flow_ok ops ?plan 0 0 (shuttle d) (worker_threads d) ?buf"
    using q by (auto simp: flow_ok_def under_way_def quiescent_def d_def dl1 drained)
  then obtain dl' where dl': "prefetch ops (max_jobs opts) d = (Inr (), dl')"
      "sequence_number dl' = min (length ?plan) (0 + max_jobs opts)" "src_inv (source dl')"
      "todo (source dl') = drop (sequence_number dl') ?plan"
      "flow_ok ops ?plan 0 (sequence_number dl') (shuttle dl') (worker_threads dl') ?buf"
      "worker_threads dl' = worker_threads d" "sequencer dl' = sequencer d" "main_pc dl' = main_pc d" "outputs dl' = outputs d"
    using prefetch_many [of d 0 ?plan 0 ?buf "max_jobs opts"] rst(2) by (auto simp: d_def dl1)
  have "dl2 = dl'"
    using steps(2) q dl'(1) unfolding d_def
    by (simp add: dl1 loader_step_def quiescent_def finish_reset_def drained)
  moreover have "loader_at src_inv todo ops opts ?plan 0 ?buf dl'"
    using dl' assms(2-4) q unfolding loader_at_def by (auto simp: d_def dl1 new_sequencer_def quiescent_def)
  moreover have "trace_ok ops ?plan 0 dl'"
    using dl'(9) by (simp add: trace_ok_def d_def dl1 without_timeouts_def)
  ultimately show ?thesis using dl'(8) by (auto simp: loader_ok_def d_def intro!: exI [of _ 0] exI [of _ ?buf])
qed

lemma main_not_stuck:
  assumes ok: "loader_ok src_inv todo ops opts plan dl" and pc: "main_pc dl \<noteq> Ready"
  shows "\<exists>a. (a = Main \<or> (\<exists>i. a = Worker i)) \<and> loader_step ops opts a dl \<noteq> None"
proof -
  obtain n buf where at: "loader_at src_inv todo ops opts plan n buf dl" "main_pc dl \<in> {PopResult, WaitResult}"
    using ok pc unfolding loader_ok_def by blast
  note a = loader_atD [OF at(1)]
  show ?thesis
  proof (cases "loader_step ops opts Main dl = None")
    case True
    then have "results (shuttle dl) = []" "in_flight_jobs (shuttle dl) > 0"
      using at(2) by (auto simp: loader_step_def shuttle_pop_result_def queue_pop_def split: if_splits list.splits)
    then consider j where "j \<in> set (busy_jobs (worker_threads dl))" | "busy_jobs (worker_threads dl) = []" "new_jobs (shuttle dl) \<noteq> []"
      using a(6) by (cases "busy_jobs (worker_threads dl)") (auto simp: flow_ok_def)
    then show ?thesis
    proof cases
      case 1
      then obtain i where "i < length (worker_threads dl)" "worker_threads dl ! i = Busy j"
        unfolding busy_jobs_set by (auto simp: in_set_conv_nth)
      then have "loader_step ops opts (Worker i) dl \<noteq> None" by (simp add: loader_step_def worker_step_def)
      then show ?thesis by blast
    next
      case 2
      have i: "0 < length (worker_threads dl)" using a(4,5) by simp
      then have "worker_threads dl ! 0 \<in> set (worker_threads dl)" by (rule nth_mem)
      moreover have "Exited \<notin> set (worker_threads dl)" using a(6) by (simp add: flow_ok_def)
      moreover have "Busy j \<notin> set (worker_threads dl)" for j using 2(1) busy_jobs_set [of j "worker_threads dl"] by simp
      ultimately have "worker_threads dl ! 0 = Idle" by (metis worker.exhaust)
      then have "loader_step ops opts (Worker 0) dl \<noteq> None"
        using i 2(2) by (auto simp: loader_step_def worker_step_def pop_job_def queue_pop_def split: list.splits)
      then show ?thesis by blast
    qed
  qed blast
qed

lemma work_decreases:
  assumes ok: "loader_ok src_inv todo ops opts plan dl" and pc: "main_pc dl \<noteq> Ready"
    and a: "a = Main \<or> (\<exists>i. a = Worker i)" and step: "loader_step ops opts a dl = Some dl'"
  shows "main_pc dl' = Ready \<or> work dl' < work dl"
proof -
  obtain n buf where at: "loader_at src_inv todo ops opts plan n buf dl" and tr: "trace_ok ops plan n dl"
      and p: "main_pc dl \<in> {PopResult, WaitResult}" "main_pc dl = WaitResult \<Longrightarrow> buf ! (n mod length buf) = None"
    using ok pc unfolding loader_ok_def by blast
  note at' = loader_atD [OF at]
  consider "main_pc dl = PopResult" "main_step ops opts PopResult dl = Some dl'"
    | "main_pc dl = WaitResult" "main_step ops opts WaitResult dl = Some dl'"
    | i where "worker_step ops i dl = Some dl'"
    using a step p(1) by (auto simp: loader_step_def)
  then show ?thesis
  proof cases
    case 1
    then show ?thesis using pop_result_keeps [OF at tr 1(2)] by (auto simp: work_def)
  next
    case 2
    then show ?thesis using wait_result_keeps [OF at tr 2(1) p(2) [OF 2(1)] 2(2)] by (auto simp: work_def)
  next
    case 3
    then have i: "i < length (worker_threads dl)" by (simp add: worker_step_def split: if_splits)
    show ?thesis
    proof (cases "worker_threads dl ! i")
      case Idle
      then obtain j q where q: "new_jobs (shuttle dl) = j # q"
        using 3 i by (cases "new_jobs (shuttle dl)") (auto simp: worker_step_def pop_job_def queue_pop_def)
      then show ?thesis
        using 3 i Idle flow_take_job(2) [OF at'(6) i Idle q] mset_add_mset_facts(2) [OF busy_take [OF i Idle, of j]]
        by (auto simp: worker_step_def pop_job_def queue_pop_def work_def)
    next
      case (Busy j)
      then show ?thesis
        using 3 i mset_add_mset_facts(2) [OF busy_done [OF i Busy]]
        by (auto simp: worker_step_def work_def push_result_def queue_push_def)
    qed (use 3 i in \<open>simp add: worker_step_def\<close>)
  qed
qed

end

section \<open>Loaders over the samplers\<close>

lemma ordered_loader_stateless:
  assumes "index_sampler sinv nxt rest" "0 < batch_size opts" "batch_size opts < 2 ^ 63"
  shows "ordered_loader sinv (\<lambda>s. epoch_plan opts (rest s)) (stateless_ops nxt rst length dataset opts)"
proof -
  have "get_batch_request (stateless_ops nxt rst length dataset opts) = stateless_get_batch_request nxt length opts"
    by (simp add: stateless_ops_def)
  then show ?thesis
    using stateless_source [OF assms]
    by (auto simp: ordered_loader_def ordered_loader_axioms_def stateless_ops_def split: sum.splits)
qed

text \<open>
  With a batch size that the loader accepts, each sampler of the library is a source of requests for the stateless
  loader.
\<close>

definition batch_size_ok :: "FullDataLoaderOptions \<Rightarrow> bool" where
  "batch_size_ok opts \<longleftrightarrow> 0 < batch_size opts \<and> batch_size opts < 2 ^ 63"

lemma guarded_source:
  assumes "index_sampler sinv nxt rest"
  shows "request_source (\<lambda>s. sinv s \<and> batch_size_ok opts) (stateless_get_batch_request nxt length opts)
    (\<lambda>s. epoch_plan opts (rest s))"
proof (cases "batch_size_ok opts")
  case True
  then have "request_source sinv (stateless_get_batch_request nxt length opts) (\<lambda>s. epoch_plan opts (rest s))"
    using stateless_source [OF assms] by (simp add: batch_size_ok_def)
  with True show ?thesis by simp
next
  case False
  then show ?thesis by (simp add: request_source_def)
qed

interpretation sequential_requests: request_source "\<lambda>s. sequential_inv s \<and> batch_size_ok opts"
    "stateless_get_batch_request SequentialSampler_next length opts" "\<lambda>s. epoch_plan opts (sequential_rest s)" for opts
  by (rule guarded_source [OF sequential.index_sampler_axioms])

interpretation random_requests: request_source "\<lambda>s. random_inv s \<and> batch_size_ok opts"
    "stateless_get_batch_request RandomSampler_next length opts" "\<lambda>s. epoch_plan opts (random_rest s)" for opts
  by (rule guarded_source [OF random.index_sampler_axioms])

lemma guarded_loader:
  assumes "index_sampler sinv nxt rest"
  shows "ordered_loader (\<lambda>s. sinv s \<and> batch_size_ok opts) (\<lambda>s. epoch_plan opts (rest s))
    (stateless_ops nxt rst length dataset opts)"
  using guarded_source [OF assms, of opts]
  by (auto simp: ordered_loader_def ordered_loader_axioms_def stateless_ops_def split: sum.splits)

interpretation sequential_loader: ordered_loader "\<lambda>s. sequential_inv s \<and> batch_size_ok opts"
    "\<lambda>s. epoch_plan opts (sequential_rest s)" "stateless_ops SequentialSampler_next rst length dataset opts" for opts rst dataset
  by (rule guarded_loader [OF sequential.index_sampler_axioms])

interpretation random_loader: ordered_loader "\<lambda>s. random_inv s \<and> batch_size_ok opts"
    "\<lambda>s. epoch_plan opts (random_rest s)" "stateless_ops RandomSampler_next rst length dataset opts" for opts rst dataset
  by (rule guarded_loader [OF random.index_sampler_axioms])

section \<open>Properties\<close>

text \<open>What \<open>next\<close> makes of a request to a stateless dataset.\<close>

definition dataset_output :: "('r \<Rightarrow> 'b result) \<Rightarrow> 'r \<Rightarrow> 'b loader_output" where
  "dataset_output dataset r = (case dataset r of Inl e \<Rightarrow> Threw (WorkerException e) | Inr b \<Rightarrow> Batch b)"

lemma outcome_stateless: "outcome (stateless_ops nxt rst req_size dataset opts) = dataset_output dataset"
  by (rule ext) (simp add: outcome_def stateless_ops_def dataset_output_def split: sum.splits)

lemma failing_stateless: "failing (stateless_ops nxt rst req_size dataset opts) r = (\<exists>e. dataset r = Inl e)"
  by (simp add: failing_def stateless_ops_def split: sum.splits)

lemma end_of_epoch:
  assumes "n = min len (jobs + (n - f))" "f \<le> n"
  shows "n = len \<or> f = (jobs :: nat)"
  using assms by (auto simp: min_def split: if_splits)

text \<open>
  Property C4. The data loader with worker threads and ordering enforced, over any sampler that keeps the sampler
  contract and for every interleaving of the main thread, the workers and timeouts: what \<open>next\<close> returned so far in the
  epoch, timeouts aside, is what the dataset gives for the first \<open>n\<close> requests of the sampler, in their order, followed by
  end-of-epoch answers; in particular no assertion of the sequencer fails. An end-of-epoch answer comes when all requests
  have been answered, or when \<open>max_jobs\<close> of them made the dataset throw.
\<close>

theorem ordered_loader_delivers_in_order:
  assumes "index_sampler sinv nxt rest"
    and "0 < batch_size opts" "batch_size opts < 2 ^ 63" "0 < workers opts" "0 < max_jobs opts" "enforce_ordering opts"
    and "ops = stateless_ops nxt rst length dataset opts"
    and "quiescent opts dl0" "rst (source dl0) = (Inr (), s1)" "sinv s1"
    and "loader_step ops opts CallBegin dl0 = Some dl1" "loader_step ops opts Main dl1 = Some dl2"
    and "epoch_run ops opts dl2 dl"
  shows "\<exists>n k. n \<le> length (epoch_plan opts (rest s1)) \<and>
    without_timeouts (outputs dl) =
      map (dataset_output dataset) (take n (epoch_plan opts (rest s1))) @ replicate k EndOfEpoch \<and>
    (0 < k \<longrightarrow> n = length (epoch_plan opts (rest s1)) \<or>
       length (filter (\<lambda>r. \<exists>e. dataset r = Inl e) (take n (epoch_plan opts (rest s1)))) = max_jobs opts)"
proof -
  let ?plan = "epoch_plan opts (rest s1)" and ?todo = "\<lambda>s. epoch_plan opts (rest s)"
  note loc = ordered_loader_stateless [OF assms(1-3), of rst dataset, folded assms(7)]
  have rst: "reset_source ops (source dl0) = (Inr (), s1)" using assms(7,9) by (simp add: stateless_ops_def)
  have "loader_ok sinv ?todo ops opts ?plan dl2"
    by (rule ordered_loader.begin_ok [OF loc assms(8,4-6) rst assms(10-12)])
  from ordered_loader.run_keeps [OF loc assms(13) this]
  obtain n buf where at: "loader_at sinv ?todo ops opts ?plan n buf dl" and tr: "trace_ok ops ?plan n dl"
    unfolding loader_ok_def by blast
  note a = ordered_loader.loader_atD [OF loc at]
  obtain k where k: "without_timeouts (outputs dl) = map (outcome ops) (take n ?plan) @ replicate k EndOfEpoch"
      "0 < k \<Longrightarrow> n = sequence_number dl"
    using tr unfolding trace_ok_def by blast
  have "n \<le> length ?plan" using a(7,10) by simp
  moreover have "outcome ops = dataset_output dataset" unfolding assms(7) by (rule outcome_stateless)
  moreover have "failures ops (take n ?plan) = length (filter (\<lambda>r. \<exists>e. dataset r = Inl e) (take n ?plan))"
    unfolding failures_def assms(7) failing_stateless ..
  ultimately show ?thesis
    using k end_of_epoch [OF _ failures_le, of n "length ?plan" "max_jobs opts" ops ?plan] a(10) by metis
qed

text \<open>
  Property C15. The main thread inside \<open>next\<close> of such a loader is never stuck, and \<open>next\<close> returns: at every moment the main
  thread or a worker can make a step, and every step of the main thread or of a worker, whichever it is, returns from
  \<open>next\<close> or decreases the amount of work that is left.
\<close>

theorem ordered_loader_next_returns:
  assumes "index_sampler sinv nxt rest"
    and "0 < batch_size opts" "batch_size opts < 2 ^ 63" "0 < workers opts" "0 < max_jobs opts" "enforce_ordering opts"
    and "ops = stateless_ops nxt rst length dataset opts"
    and "quiescent opts dl0" "rst (source dl0) = (Inr (), s1)" "sinv s1"
    and "loader_step ops opts CallBegin dl0 = Some dl1" "loader_step ops opts Main dl1 = Some dl2"
    and "epoch_run ops opts dl2 dl" "main_pc dl \<noteq> Ready"
  shows "(\<exists>a. (a = Main \<or> (\<exists>i. a = Worker i)) \<and> loader_step ops opts a dl \<noteq> None) \<and>
    (\<forall>a dl'. (a = Main \<or> (\<exists>i. a = Worker i)) \<and> loader_step ops opts a dl = Some dl' \<longrightarrow>
       main_pc dl' = Ready \<or> work dl' < work dl)"
proof -
  note loc = ordered_loader_stateless [OF assms(1-3), of rst dataset, folded assms(7)]
  have rst: "reset_source ops (source dl0) = (Inr (), s1)" using assms(7,9) by (simp add: stateless_ops_def)
  have "loader_ok sinv (\<lambda>s. epoch_plan opts (rest s)) ops opts (epoch_plan opts (rest s1)) dl2"
    by (rule ordered_loader.begin_ok [OF loc assms(8,4-6) rst assms(10-12)])
  note ok = ordered_loader.run_keeps [OF loc assms(13) this]
  show ?thesis
    using ordered_loader.main_not_stuck [OF loc ok assms(14)] ordered_loader.work_decreases [OF loc ok assms(14)]
    by blast
qed

section \<open>Concrete runs\<close>

fun run_schedule ::
  "('s, 'r, 'b) loader_ops \<Rightarrow> FullDataLoaderOptions \<Rightarrow> action list \<Rightarrow> ('s, 'r, 'b) DataLoader \<Rightarrow>
     ('s, 'r, 'b) DataLoader option" where
  "run_schedule ops opts [] dl = Some dl"
| "run_schedule ops opts (a # as) dl =
     (case loader_step ops opts a dl of None \<Rightarrow> None | Some dl' \<Rightarrow> run_schedule ops opts as dl')"

lemma run_schedule_epoch:
  assumes "run_schedule ops opts as dl = Some dl'" "list_all (\<lambda>a. a \<notin> {CallBegin, CallJoin}) as" "epoch_run ops opts d dl"
  shows "epoch_run ops opts d dl'"
  using assms
proof (induction as arbitrary: dl)
  case (Cons a as)
  then show ?case by (auto split: option.splits intro: epoch_step)
qed simp

text \<open>A loader over the sequential sampler whose batches are the requested indices.\<close>

definition demo_options :: FullDataLoaderOptions where
  "demo_options = new_FullDataLoaderOptions (default_DataLoaderOptions\<lparr>opt_batch_size := 2, opt_workers := 2\<rparr>)"

definition sequential_reset_op :: "(SequentialSampler, unit) mon" where
  "sequential_reset_op = modify (SequentialSampler_reset None)"

definition demo_ops ::
  "FullDataLoaderOptions \<Rightarrow> (nat list \<Rightarrow> nat list result) \<Rightarrow> (SequentialSampler, nat list, nat list) loader_ops" where
  "demo_ops opts dataset = stateless_ops SequentialSampler_next sequential_reset_op length dataset opts"

lemmas loader_eval = demo_options_def new_FullDataLoaderOptions_def default_DataLoaderOptions_def demo_ops_def stateless_ops_def
  sequential_reset_op_def SequentialSampler_reset_def new_SequentialSampler_def SequentialSampler_next_def
  stateless_get_batch_request_def new_DataLoader_def new_DataShuttle_def new_sequencer_def loader_step_def loader_begin_def
  loader_next_def on_source_def drain_jobs_def queue_clear_def queue_push_def queue_pop_def finish_reset_def loader_push_job_def
  shuttle_push_job_def shuttle_pop_result_def pop_job_def push_result_def worker_step_def run_job_def handle_result_def
  return_with_def buffer_at_def set_buffer_def buffer_contains_result_def

lemma loader_numerals:
  "prefetch ops (numeral k) = bindm (on_source (get_batch_request ops)) (\<lambda>request. case request of
     None \<Rightarrow> ret () | Some r \<Rightarrow> seqm (modify (loader_push_job (Some r))) (prefetch ops (pred_numeral k)))"
  "count_up (numeral k) i = (let (batch, j) = count_up (pred_numeral k) (add64 i 1) in (i # batch, j))"
  "replicate (numeral k) x = x # replicate (pred_numeral k) x"
  by (simp_all only: numeral_eq_Suc replicate_Suc prefetch.simps count_up.simps)

lemmas loader_run = loader_eval loader_numerals bindm_def seqm_def

lemma demo_options_facts:
  "0 < batch_size demo_options" "batch_size demo_options < 2 ^ 63" "0 < workers demo_options" "0 < max_jobs demo_options"
  "enforce_ordering demo_options"
  by (simp_all add: demo_options_def new_FullDataLoaderOptions_def default_DataLoaderOptions_def)

lemma demo_reset:
  "sequential_reset_op (source (new_DataLoader demo_options (new_SequentialSampler 3))) = (Inr (), new_SequentialSampler 3)"
  "sequential_inv (new_SequentialSampler 3)"
  by (simp_all add: loader_eval sequential_inv_def)

lemma demo_begin:
  obtains dl1 dl2 where
    "loader_step (demo_ops demo_options Inr) demo_options CallBegin (new_DataLoader demo_options (new_SequentialSampler 3)) = Some dl1"
    "loader_step (demo_ops demo_options Inr) demo_options Main dl1 = Some dl2"
    "run_schedule (demo_ops demo_options Inr) demo_options [CallBegin, Main]
       (new_DataLoader demo_options (new_SequentialSampler 3)) = Some dl2"
proof -
  have "run_schedule (demo_ops demo_options Inr) demo_options [CallBegin, Main]
      (new_DataLoader demo_options (new_SequentialSampler 3)) \<noteq> None"
    by (simp add: loader_run)
  then show thesis using that by (auto split: option.splits)
qed

lemma run_schedule_append:
  "run_schedule ops opts (as @ bs) dl =
     (case run_schedule ops opts as dl of None \<Rightarrow> None | Some dl' \<Rightarrow> run_schedule ops opts bs dl')"
  by (induction as arbitrary: dl) (auto split: option.splits)

text \<open>The second worker finishes first; the batches come out in order.\<close>

definition demo_schedule :: "action list" where
  "demo_schedule = [Worker 0, Worker 1, CallNext, Worker 1, Main, Main, Worker 0, Main, CallNext]"

lemma demo_run:
  "map_option (\<lambda>dl. (outputs dl, main_pc dl)) (run_schedule (demo_ops demo_options Inr) demo_options
     ([CallBegin, Main] @ demo_schedule) (new_DataLoader demo_options (new_SequentialSampler 3))) =
   Some ([Batch [0, 1]], PopResult)"
  by (simp add: loader_run demo_schedule_def)

lemma demo_epoch:
  assumes "run_schedule (demo_ops demo_options Inr) demo_options [CallBegin, Main]
     (new_DataLoader demo_options (new_SequentialSampler 3)) = Some dl2"
  obtains dl where "epoch_run (demo_ops demo_options Inr) demo_options dl2 dl" "outputs dl = [Batch [0, 1]]" "main_pc dl = PopResult"
proof -
  obtain dl where "run_schedule (demo_ops demo_options Inr) demo_options demo_schedule dl2 = Some dl"
      "outputs dl = [Batch [0, 1]]" "main_pc dl = PopResult"
    using demo_run unfolding run_schedule_append assms by auto
  moreover have "list_all (\<lambda>a. a \<notin> {CallBegin, CallJoin}) demo_schedule" by (simp add: demo_schedule_def)
  ultimately show thesis using that run_schedule_epoch [OF _ _ epoch_refl] by blast
qed

theorem ordered_loader_delivers_in_order_witness:
  "\<exists>dl2 dl n k. epoch_run (demo_ops demo_options Inr) demo_options dl2 dl \<and> outputs dl = [Batch [0, 1]] \<and>
     without_timeouts (outputs dl) =
       map (dataset_output Inr) (take n (epoch_plan demo_options [0..<3])) @ replicate k EndOfEpoch"
proof -
  obtain dl1 dl2 where b: "loader_step (demo_ops demo_options Inr) demo_options CallBegin
        (new_DataLoader demo_options (new_SequentialSampler 3)) = Some dl1"
      "loader_step (demo_ops demo_options Inr) demo_options Main dl1 = Some dl2"
      "run_schedule (demo_ops demo_options Inr) demo_options [CallBegin, Main]
        (new_DataLoader demo_options (new_SequentialSampler 3)) = Some dl2"
    by (rule demo_begin)
  obtain dl where dl: "epoch_run (demo_ops demo_options Inr) demo_options dl2 dl" "outputs dl = [Batch [0, 1]]"
    by (rule demo_epoch [OF b(3)])
  have "sequential_rest (new_SequentialSampler 3) = [0..<3]" by (simp add: sequential_rest_def new_SequentialSampler_def)
  with ordered_loader_delivers_in_order [OF sequential.index_sampler_axioms demo_options_facts demo_ops_def
      quiescent_new demo_reset b(1,2) dl(1)] dl
  show ?thesis by metis
qed

theorem ordered_loader_next_returns_witness:
  "\<exists>dl2 dl. epoch_run (demo_ops demo_options Inr) demo_options dl2 dl \<and> main_pc dl = PopResult \<and>
     (\<exists>a. (a = Main \<or> (\<exists>i. a = Worker i)) \<and> loader_step (demo_ops demo_options Inr) demo_options a dl \<noteq> None)"
proof -
  obtain dl1 dl2 where b: "loader_step (demo_ops demo_options Inr) demo_options CallBegin
        (new_DataLoader demo_options (new_SequentialSampler 3)) = Some dl1"
      "loader_step (demo_ops demo_options Inr) demo_options Main dl1 = Some dl2"
      "run_schedule (demo_ops demo_options Inr) demo_options [CallBegin, Main]
        (new_DataLoader demo_options (new_SequentialSampler 3)) = Some dl2"
    by (rule demo_begin)
  obtain dl where dl: "epoch_run (demo_ops demo_options Inr) demo_options dl2 dl" "main_pc dl = PopResult"
    by (rule demo_epoch [OF b(3)])
  have "main_pc dl \<noteq> Ready" using dl(2) by simp
  from ordered_loader_next_returns [OF sequential.index_sampler_axioms demo_options_facts demo_ops_def
      quiescent_new demo_reset b(1,2) dl(1) this] dl
  show ?thesis by blast
qed

section \<open>Where the loader differs from its documentation\<close>

text \<open>
  Without worker threads the main thread loads the data, but \<open>reset\<close> still prefetches: if \<open>max_jobs\<close> is set, that many
  requests go into a queue that nobody reads, and the first batch returned is the one after them.
\<close>

definition no_worker_options :: FullDataLoaderOptions where
  "no_worker_options = new_FullDataLoaderOptions (default_DataLoaderOptions\<lparr>opt_max_jobs := Some 2\<rparr>)"

theorem main_thread_loader_skips_batches:
  "map_option outputs (run_schedule (demo_ops no_worker_options Inr) no_worker_options [CallBegin, Main, CallNext, CallNext]
     (new_DataLoader no_worker_options (new_SequentialSampler 3))) = Some [Batch [2], EndOfEpoch]"
  by (simp add: loader_run no_worker_options_def)

text \<open>
  A worker's exception is not followed by a new request, so that after \<open>max_jobs\<close> exceptions the epoch ends although the
  sampler still has indices.
\<close>

definition one_job_options :: FullDataLoaderOptions where
  "one_job_options = new_FullDataLoaderOptions (default_DataLoaderOptions\<lparr>opt_workers := 1, opt_max_jobs := Some 1\<rparr>)"

theorem exceptions_end_epoch_early:
  "map_option outputs (run_schedule (demo_ops one_job_options (\<lambda>r. if r = [0] then Inl OutOfRange else Inr r)) one_job_options
     [CallBegin, Main, Worker 0, Worker 0, CallNext, Main, Main, CallNext, Main, Main]
     (new_DataLoader one_job_options (new_SequentialSampler 3))) = Some [Threw (WorkerException OutOfRange), EndOfEpoch]"
  by (simp add: loader_run one_job_options_def)

end
