(* ===== verification/Chunk_Buffer.thy ===== *)
theory Chunk_Buffer
  imports Sampler_Contracts
begin

text \<open>
  The batch buffer of chunk datasets (torch/csrc/api/include/torch/data/datasets/chunk.h): preloaders cut chunks into
  batches in an order chosen by an example sampler, the main thread takes the batches out. Every operation holds the
  queue's mutex, so one operation is one step; an operation whose condition variable would have to wait is \<open>None\<close>. The
  example sampler is a template argument: its \<open>reset\<close> and \<open>next\<close> are arguments of the operations. Example counts are natural
  numbers: a buffer with \<open>2 ^ 64\<close> examples does not exist.
\<close>

section \<open>Options\<close>

record ChunkDatasetOptions =
  preloader_count :: nat
  chunk_batch_size :: nat
  cache_size :: nat

definition new_ChunkDatasetOptions :: "nat \<Rightarrow> nat \<Rightarrow> nat \<Rightarrow> ChunkDatasetOptions result" where
  "new_ChunkDatasetOptions preloaders bs cache =
     rbind (AT_CHECK (preloaders > 0) ''Preloader count is 0. At least one preloader needs to be specified.'') (\<lambda>_.
     rbind (AT_CHECK (bs > 0) ''Batch size is 0. A positive batch size needs to be specified.'') (\<lambda>_.
     rbind (AT_CHECK (cache > 0) ''Cache size is 0. A positive cache size needs to be specified.'') (\<lambda>_.
     rbind (AT_CHECK (cache \<ge> bs) ''Cache size is less than batch size. Cache needs to be large enough to hold at least one batch.'') (\<lambda>_.
     Inr \<lparr>preloader_count = preloaders, chunk_batch_size = bs, cache_size = cache\<rparr>))))"

section \<open>The buffer\<close>

record 'e UnwrappedBatchData =
  batch_data :: "'e list"
  batch_exception :: "exn option"

record ('s, 'e) BatchDataBuffer =
  buffer_batch_size :: nat
  total_example_count_in_queue :: nat
  batch_queue :: "'e UnwrappedBatchData list"
  example_sampler :: 's
  queue_capacity :: nat
  stop :: bool

definition new_BatchDataBuffer :: "nat \<Rightarrow> 's \<Rightarrow> nat \<Rightarrow> ('s, 'e) BatchDataBuffer" where
  "new_BatchDataBuffer bs smp capacity = \<lparr>buffer_batch_size = bs, total_example_count_in_queue = 0, batch_queue = [],
     example_sampler = smp, queue_capacity = capacity, stop = False\<rparr>"

definition buffer_get_batch :: "('s, 'e) BatchDataBuffer \<Rightarrow> ('e list option result \<times> ('s, 'e) BatchDataBuffer) option" where
  "buffer_get_batch b = (if total_example_count_in_queue b \<ge> buffer_batch_size b \<or> stop b
     then Some (case batch_queue b of
         [] \<Rightarrow> if stop b then (Inr None, b) else (Inl (C10Error ''ASSERT FAILED''), b)
       | u # q \<Rightarrow> (case batch_exception u of
             Some e \<Rightarrow> (Inl (WorkerException e), b\<lparr>batch_queue := q\<rparr>)
           | None \<Rightarrow> (Inr (Some (batch_data u)), b\<lparr>batch_queue := q,
               total_example_count_in_queue := total_example_count_in_queue b - length (batch_data u)\<rparr>)))
     else None)"

text \<open>The variables of \<open>add_chunk_data\<close>: the sampler, the examples not yet moved out of \<open>data\<close>, \<open>remaining_size\<close>.\<close>

record ('s, 'e) fill_state =
  fill_sampler :: 's
  fill_data :: "'e option list"
  remaining_size :: nat

text \<open>
  The loop of \<open>fill_batch\<close>: it appends the examples at the indices and moves them out of \<open>data\<close>; an example that was moved
  out before has no specified value.
\<close>

fun move_examples :: "nat list \<Rightarrow> 'e list \<Rightarrow> ('s, 'e) fill_state \<Rightarrow> 'e list result \<times> 'e list \<times> ('s, 'e) fill_state" where
  "move_examples [] acc f = (Inr acc, acc, f)"
| "move_examples (i # is) acc f =
     (if i < length (fill_data f) then (case fill_data f ! i of
        None \<Rightarrow> (Inl UndefinedBehaviour, acc, f)
      | Some x \<Rightarrow> move_examples is (acc @ [x]) (f\<lparr>fill_data := (fill_data f)[i := None]\<rparr>))
      else (Inl (C10Error ''Index out of range''), acc, f))"

text \<open>\<open>fill_batch\<close>: its result, the batch as it is left (also when it throws) and the variables.\<close>

definition fill_batch ::
  "(nat \<Rightarrow> ('s, nat list option) mon) \<Rightarrow> nat \<Rightarrow> 'e list \<Rightarrow> ('s, 'e) fill_state \<Rightarrow>
     unit result \<times> 'e list \<times> ('s, 'e) fill_state" where
  "fill_batch nxt example_count acc f = (case nxt example_count (fill_sampler f) of
     (Inl e, s) \<Rightarrow> (Inl e, acc, f\<lparr>fill_sampler := s\<rparr>)
   | (Inr None, s) \<Rightarrow> (Inl (C10Error ''ASSERT FAILED''), acc, f\<lparr>fill_sampler := s\<rparr>)
   | (Inr (Some indices), s) \<Rightarrow>
       if length indices = example_count
       then (case move_examples indices acc (f\<lparr>fill_sampler := s\<rparr>) of
           (Inl e, acc, f) \<Rightarrow> (Inl e, acc, f)
         | (Inr _, acc, f) \<Rightarrow> (Inr (), acc, f\<lparr>remaining_size := remaining_size f - example_count\<rparr>))
       else (Inl (C10Error ''ASSERT FAILED''), acc, f\<lparr>fill_sampler := s\<rparr>))"

text \<open>
  The loop over the rest of the chunk, for \<open>fuel\<close> batches; a batch size of zero, which the options exclude, would never
  end.
\<close>

fun fill_queue ::
  "nat \<Rightarrow> (nat \<Rightarrow> ('s, nat list option) mon) \<Rightarrow> nat \<Rightarrow> 'e UnwrappedBatchData list \<Rightarrow> ('s, 'e) fill_state \<Rightarrow>
     (unit result \<times> 'e UnwrappedBatchData list \<times> ('s, 'e) fill_state) option" where
  "fill_queue 0 nxt bs q f = (if remaining_size f > 0 then None else Some (Inr (), q, f))"
| "fill_queue (Suc fuel) nxt bs q f = (if remaining_size f > 0
     then (case fill_batch nxt (min (remaining_size f) bs) [] f of
         (Inl e, _, f) \<Rightarrow> Some (Inl e, q, f)
       | (Inr _, batch, f) \<Rightarrow> fill_queue fuel nxt bs (q @ [\<lparr>batch_data = batch, batch_exception = None\<rparr>]) f)
     else Some (Inr (), q, f))"

definition set_last :: "'a \<Rightarrow> 'a list \<Rightarrow> 'a list" where
  "set_last x xs = butlast xs @ [x]"

text \<open>The examples first fill up the last batch of the queue.\<close>

definition fill_last ::
  "(nat \<Rightarrow> ('s, nat list option) mon) \<Rightarrow> nat \<Rightarrow> 'e UnwrappedBatchData list \<Rightarrow> ('s, 'e) fill_state \<Rightarrow>
     unit result \<times> 'e UnwrappedBatchData list \<times> ('s, 'e) fill_state" where
  "fill_last nxt bs q f = (if q = [] then (Inr (), q, f)
     else let u = last q; current_count = length (batch_data u)
       in if current_count < bs
          then (case fill_batch nxt (min (remaining_size f) (bs - current_count)) (batch_data u) f of
              (r, batch, f) \<Rightarrow> (r, set_last (u\<lparr>batch_data := batch\<rparr>) q, f))
          else (Inr (), q, f))"

definition add_chunk_data ::
  "(nat option \<Rightarrow> ('s, unit) mon) \<Rightarrow> (nat \<Rightarrow> ('s, nat list option) mon) \<Rightarrow> 'e list \<Rightarrow> ('s, 'e) BatchDataBuffer \<Rightarrow>
     (unit result \<times> ('s, 'e) BatchDataBuffer) option" where
  "add_chunk_data rst nxt data b =
     (if total_example_count_in_queue b < queue_capacity b \<or> stop b
      then if stop b then Some (Inr (), b)
        else (case rst (Some (length data)) (example_sampler b) of
            (Inl e, s) \<Rightarrow> Some (Inl e, b\<lparr>example_sampler := s\<rparr>)
          | (Inr _, s) \<Rightarrow>
              (case fill_last nxt (buffer_batch_size b) (batch_queue b)
                  \<lparr>fill_sampler = s, fill_data = map Some data, remaining_size = length data\<rparr> of
                 (Inl e, q, f) \<Rightarrow> Some (Inl e, b\<lparr>example_sampler := fill_sampler f, batch_queue := q\<rparr>)
               | (Inr _, q, f) \<Rightarrow> (case fill_queue (length data) nxt (buffer_batch_size b) q f of
                     None \<Rightarrow> None
                   | Some (Inl e, q, f) \<Rightarrow> Some (Inl e, b\<lparr>example_sampler := fill_sampler f, batch_queue := q\<rparr>)
                   | Some (Inr _, q, f) \<Rightarrow> Some (Inr (), b\<lparr>example_sampler := fill_sampler f, batch_queue := q,
                       total_example_count_in_queue := total_example_count_in_queue b + length data\<rparr>))))
      else None)"

definition add_chunk_exception :: "exn \<Rightarrow> ('s, 'e) BatchDataBuffer \<Rightarrow> ('s, 'e) BatchDataBuffer option" where
  "add_chunk_exception e b =
     (if total_example_count_in_queue b < queue_capacity b \<or> stop b
      then if stop b then Some b
        else Some (b\<lparr>batch_queue := batch_queue b @ [\<lparr>batch_data = [], batch_exception = Some e\<rparr>]\<rparr>)
      else None)"

definition stop_buffer :: "('s, 'e) BatchDataBuffer \<Rightarrow> ('s, 'e) BatchDataBuffer" where
  "stop_buffer b = b\<lparr>stop := True\<rparr>"


section \<open>Samplers that shuffle\<close>

locale shuffling_sampler = index_sampler +
  fixes rst :: "nat option \<Rightarrow> ('a, unit) mon"
  assumes reset_perm: "inv s \<Longrightarrow> n < 2 ^ 63 \<Longrightarrow> \<exists>s'. rst (Some n) s = (Inr (), s') \<and> inv s' \<and> mset (rest s') = mset [0..<n]"
begin

definition filling :: "'e list \<Rightarrow> nat list \<Rightarrow> ('a, 'e) fill_state \<Rightarrow> bool" where
  "filling d ids f \<longleftrightarrow> inv (fill_sampler f) \<and> rest (fill_sampler f) = ids \<and> distinct ids \<and> remaining_size f = length ids \<and>
     length (fill_data f) = length d \<and> (\<forall>i \<in> set ids. i < length d \<and> fill_data f ! i = Some (d ! i))"

lemma move_examples_run:
  assumes "distinct ids" "length (fill_data f) = length d"
    and "\<forall>i \<in> set ids. i < length d \<and> fill_data f ! i = Some (d ! i)"
  shows "\<exists>f'. move_examples ids acc f = (Inr (acc @ map ((!) d) ids), acc @ map ((!) d) ids, f') \<and>
    length (fill_data f') = length d \<and> (\<forall>j. j \<notin> set ids \<longrightarrow> fill_data f' ! j = fill_data f ! j) \<and>
    fill_sampler f' = fill_sampler f \<and> remaining_size f' = remaining_size f"
  using assms
proof (induction ids arbitrary: acc f)
  case Nil
  then show ?case by simp
next
  case (Cons i ids)
  let ?f = "f\<lparr>fill_data := (fill_data f)[i := None]\<rparr>"
  have "\<exists>f'. move_examples ids (acc @ [d ! i]) ?f =
      (Inr ((acc @ [d ! i]) @ map ((!) d) ids), (acc @ [d ! i]) @ map ((!) d) ids, f') \<and>
    length (fill_data f') = length d \<and> (\<forall>j. j \<notin> set ids \<longrightarrow> fill_data f' ! j = fill_data ?f ! j) \<and>
    fill_sampler f' = fill_sampler ?f \<and> remaining_size f' = remaining_size ?f"
    by (rule Cons.IH) (use Cons.prems in \<open>auto simp: nth_list_update\<close>)
  then show ?case using Cons.prems by (auto simp: nth_list_update)
qed

lemma fill_batch_run:
  assumes f: "filling d ids f" and c: "0 < c" "c \<le> length ids" "length ids < 2 ^ 63"
  shows "\<exists>f'. fill_batch nxt c acc f = (Inr (), acc @ map ((!) d) (take c ids), f') \<and> filling d (drop c ids) f'"
proof -
  let ?s = "fill_sampler f"
  have s: "inv ?s" "rest ?s = ids" "rest ?s \<noteq> []" using f c by (auto simp: filling_def)
  have "c < 2 ^ 63" using c by simp
  from nxt_take [OF s(1,3) this] obtain s' where s': "nxt c ?s = (Inr (Some (take c ids)), s')" "inv s'" "rest s' = drop c ids"
    unfolding s(2) by blast
  let ?f = "f\<lparr>fill_sampler := s'\<rparr>"
  obtain f' where f': "move_examples (take c ids) acc ?f = (Inr (acc @ map ((!) d) (take c ids)), acc @ map ((!) d) (take c ids), f')"
      "length (fill_data f') = length d" "\<forall>j. j \<notin> set (take c ids) \<longrightarrow> fill_data f' ! j = fill_data ?f ! j"
      "fill_sampler f' = s'" "remaining_size f' = remaining_size f"
    using move_examples_run [of "take c ids" ?f d acc] f by (auto simp: filling_def dest: in_set_takeD)
  have disj: "set (take c ids) \<inter> set (drop c ids) = {}"
    using f by (simp add: filling_def set_take_disj_set_drop_if_distinct)
  have "filling d (drop c ids) (f'\<lparr>remaining_size := remaining_size f' - c\<rparr>)"
  proof -
    have "i < length d \<and> fill_data f' ! i = Some (d ! i)" if "i \<in> set (drop c ids)" for i
    proof -
      have "i \<notin> set (take c ids)" using disj that by blast
      then have "fill_data f' ! i = fill_data f ! i" using f'(3) by simp
      then show ?thesis using f in_set_dropD [OF that] by (simp add: filling_def)
    qed
    then show ?thesis using f f'(2,4,5) s'(2,3) by (simp add: filling_def)
  qed
  then show ?thesis using s'(1) f'(1) c by (simp add: fill_batch_def)
qed

lemma fill_queue_run:
  assumes "filling d ids f" "0 < bs" "length ids < 2 ^ 63" "length ids \<le> fuel"
  shows "\<exists>f'. fill_queue fuel nxt bs q f =
    Some (Inr (), q @ map (\<lambda>xs. \<lparr>batch_data = xs, batch_exception = None\<rparr>) (chunks bs (map ((!) d) ids)), f') \<and>
    inv (fill_sampler f')"
  using assms
proof (induction fuel arbitrary: ids f q)
  case 0
  then show ?case by (simp add: filling_def)
next
  case (Suc fuel)
  have r: "remaining_size f = length ids" "inv (fill_sampler f)" using Suc.prems(1) by (simp_all add: filling_def)
  show ?case
  proof (cases "ids = []")
    case True
    then show ?thesis using r by simp
  next
    case False
    let ?c = "min (length ids) bs"
    have c: "0 < ?c" "?c \<le> length ids" using False Suc.prems(2) by auto
    obtain f1 where f1: "fill_batch nxt ?c [] f = (Inr (), map ((!) d) (take ?c ids), f1)" "filling d (drop ?c ids) f1"
      using fill_batch_run [OF Suc.prems(1) c Suc.prems(3), of "[]"] by auto
    have tk: "take ?c ids = take bs ids" "drop ?c ids = drop bs ids" by (simp_all add: min_def)
    have "length (drop bs ids) < 2 ^ 63" "length (drop bs ids) \<le> fuel" using Suc.prems False by auto
    from Suc.IH [OF f1(2) [unfolded tk] Suc.prems(2) this, of "q @ [\<lparr>batch_data = map ((!) d) (take bs ids), batch_exception = None\<rparr>]"]
    show ?thesis using f1(1) False r Suc.prems(2) by (simp add: tk chunks_step drop_map take_map)
  qed
qed

end

section \<open>The buffer's contents\<close>

definition buffer_examples :: "('s, 'e) BatchDataBuffer \<Rightarrow> 'e list" where
  "buffer_examples b = concat (map batch_data (batch_queue b))"

text \<open>A buffer into which no exception was put: all batches are full except possibly the last one.\<close>

definition buffer_ok :: "('s, 'e) BatchDataBuffer \<Rightarrow> bool" where
  "buffer_ok b \<longleftrightarrow> 0 < buffer_batch_size b \<and> total_example_count_in_queue b = length (buffer_examples b) \<and>
     list_all (\<lambda>u. batch_exception u = None \<and> 0 < length (batch_data u) \<and> length (batch_data u) \<le> buffer_batch_size b) (batch_queue b) \<and>
     list_all (\<lambda>u. length (batch_data u) = buffer_batch_size b) (butlast (batch_queue b))"

lemma mset_map_nth: "mset ids = mset [0..<length d] \<Longrightarrow> mset (map ((!) d) ids) = mset d"
  by (metis map_nth mset_map)

lemma buffer_new: "0 < bs \<Longrightarrow> buffer_ok (new_BatchDataBuffer bs smp capacity)"
  by (simp add: buffer_ok_def new_BatchDataBuffer_def buffer_examples_def)

lemma chunk_lengths: "0 < bs \<Longrightarrow> list_all (\<lambda>c. 0 < length c \<and> length c \<le> bs) (chunks bs xs)"
proof (induction bs xs rule: chunks.induct)
  case (1 bs xs)
  then show ?case by (cases "xs = []") (simp_all add: chunks_step)
qed

lemma filled_units:
  assumes b: "buffer_ok b" and q: "q = batch_queue b" and bs: "bs = buffer_batch_size b"
    and n: "n = (if q \<noteq> [] \<and> length (batch_data (last q)) < bs then bs - length (batch_data (last q)) else 0)"
    and q1: "q1 = (if n = 0 then q else butlast q @ [(last q)\<lparr>batch_data := batch_data (last q) @ take n xs\<rparr>])"
  shows "list_all (\<lambda>u. batch_exception u = None \<and> 0 < length (batch_data u) \<and> length (batch_data u) \<le> bs) q1 \<and>
    list_all (\<lambda>u. length (batch_data u) = bs) (butlast q1) \<and>
    (drop n xs \<noteq> [] \<longrightarrow> list_all (\<lambda>u. length (batch_data u) = bs) q1)"
proof -
  have u: "list_all (\<lambda>u. batch_exception u = None \<and> 0 < length (batch_data u) \<and> length (batch_data u) \<le> bs) q"
      "list_all (\<lambda>u. length (batch_data u) = bs) (butlast q)"
    using b by (simp_all add: buffer_ok_def q bs)
  show ?thesis
  proof (cases "q = []")
    case True
    then show ?thesis using n q1 by simp
  next
    case False
    then have split: "q = butlast q @ [last q]" by simp
    have l: "batch_exception (last q) = None" "0 < length (batch_data (last q))" "length (batch_data (last q)) \<le> bs"
      using u(1) False by (simp_all add: list_all_iff)
    have bl: "list_all (\<lambda>u. batch_exception u = None \<and> 0 < length (batch_data u) \<and> length (batch_data u) \<le> bs) (butlast q)"
      using u(1) by (auto simp: list_all_iff dest: in_set_butlastD)
    show ?thesis
    proof (cases "n = 0")
      case True
      then have "length (batch_data (last q)) = bs" using n l False by (auto split: if_splits)
      then have "list_all (\<lambda>u. length (batch_data u) = bs) q" using u(2) by (subst split) simp
      then show ?thesis using u True q1 by simp
    next
      case nz: False
      then have "n = bs - length (batch_data (last q))" using n by (auto split: if_splits)
      then show ?thesis using nz q1 u(2) bl l by auto
    qed
  qed
qed

context shuffling_sampler
begin

text \<open>The queue after a chunk was added: its last batch filled up, then full batches and a last one.\<close>

lemma fill_last_run:
  assumes f: "filling d ids f" and bs: "0 < bs" and len: "ids \<noteq> []" "length ids < 2 ^ 63"
    and q: "q \<noteq> []" "length (batch_data (last q)) < bs"
  shows "\<exists>f'. fill_last nxt bs q f =
      (Inr (), butlast q @ [(last q)\<lparr>batch_data := batch_data (last q) @ map ((!) d) (take (bs - length (batch_data (last q))) ids)\<rparr>], f') \<and>
    filling d (drop (bs - length (batch_data (last q))) ids) f'"
proof -
  let ?u = "last q" and ?n = "bs - length (batch_data (last q))"
  let ?c = "min (length ids) ?n"
  have c: "0 < ?c" "?c \<le> length ids" using q len by auto
  have tk: "take ?c ids = take ?n ids" "drop ?c ids = drop ?n ids" by (simp_all add: min_def)
  have "remaining_size f = length ids" using f by (simp add: filling_def)
  then show ?thesis
    using fill_batch_run [OF f c len(2), of "batch_data ?u"] q by (auto simp: fill_last_def Let_def tk set_last_def)
qed

lemma add_chunk_run:
  assumes b: "buffer_ok b" "\<not> stop b" "total_example_count_in_queue b < queue_capacity b" "inv (example_sampler b)"
    and d: "d \<noteq> []" "length d < 2 ^ 63"
  shows "\<exists>b' xs. add_chunk_data rst nxt d b = Some (Inr (), b') \<and> buffer_ok b' \<and> inv (example_sampler b') \<and>
    mset xs = mset d \<and> buffer_examples b' = buffer_examples b @ xs \<and> \<not> stop b' \<and>
    buffer_batch_size b' = buffer_batch_size b"
proof -
  let ?bs = "buffer_batch_size b" and ?q = "batch_queue b"
  let ?mk = "\<lambda>xs. \<lparr>batch_data = xs, batch_exception = None\<rparr>"
  have bs: "0 < ?bs" using b(1) by (simp add: buffer_ok_def)
  obtain s' where s': "rst (Some (length d)) (example_sampler b) = (Inr (), s')" "inv s'" "mset (rest s') = mset [0..<length d]"
    using reset_perm [OF b(4) d(2)] by blast
  define ids where "ids = rest s'"
  have ids: "distinct ids" "set ids = {0..<length d}" "length ids = length d"
    using mset_eq_imp_distinct_iff [OF s'(3)] mset_eq_setD [OF s'(3)] mset_eq_length [OF s'(3)] by (auto simp: ids_def)
  let ?f = "\<lparr>fill_sampler = s', fill_data = map Some d, remaining_size = length d\<rparr>"
  have f: "filling d ids ?f" using s' ids by (auto simp: filling_def ids_def)
  define xs where "xs = map ((!) d) ids"
  have xs: "mset xs = mset d" unfolding xs_def ids_def by (rule mset_map_nth [OF s'(3)])
  have isl: "ids \<noteq> []" "length ids < 2 ^ 63" using ids(3) d by auto
  define n where "n = (if ?q \<noteq> [] \<and> length (batch_data (last ?q)) < ?bs then ?bs - length (batch_data (last ?q)) else 0)"
  define q1 where "q1 = (if n = 0 then ?q else butlast ?q @ [(last ?q)\<lparr>batch_data := batch_data (last ?q) @ take n xs\<rparr>])"
  obtain f1 where f1: "fill_last nxt ?bs ?q ?f = (Inr (), q1, f1)" "filling d (drop n ids) f1"
  proof (cases "n = 0")
    case True
    then have "\<not> (?q \<noteq> [] \<and> length (batch_data (last ?q)) < ?bs)" by (auto simp: n_def split: if_splits)
    then show thesis using that [of ?f] f True by (auto simp: fill_last_def q1_def Let_def)
  next
    case False
    then have q: "?q \<noteq> []" "length (batch_data (last ?q)) < ?bs" "n = ?bs - length (batch_data (last ?q))"
      by (auto simp: n_def split: if_splits)
    show thesis using fill_last_run [OF f bs isl q(1,2)] that False unfolding q1_def xs_def q(3) [symmetric] by (auto simp: take_map)
  qed
  define q2 where "q2 = q1 @ map ?mk (chunks ?bs (drop n xs))"
  have "length (drop n ids) < 2 ^ 63" "length (drop n ids) \<le> length d" using isl ids(3) by auto
  from fill_queue_run [OF f1(2) bs this, of q1] obtain f2 where
    f2: "fill_queue (length d) nxt ?bs q1 f1 = Some (Inr (), q2, f2)" "inv (fill_sampler f2)"
    unfolding q2_def xs_def by (auto simp: drop_map)
  let ?b = "b\<lparr>example_sampler := fill_sampler f2, batch_queue := q2,
    total_example_count_in_queue := total_example_count_in_queue b + length d\<rparr>"
  have run: "add_chunk_data rst nxt d b = Some (Inr (), ?b)"
    using b(2,3) s'(1) f1(1) f2(1) by (simp add: add_chunk_data_def)
  have q1: "concat (map batch_data q1) = concat (map batch_data ?q) @ take n xs"
  proof (cases "n = 0")
    case False
    then obtain zs z where "?q = zs @ [z]" by (cases ?q rule: rev_cases) (auto simp: n_def)
    then show ?thesis using False by (simp add: q1_def)
  qed (simp add: q1_def)
  have "concat (map batch_data (map ?mk (chunks ?bs (drop n xs)))) = drop n xs"
    using concat_chunks [OF bs] by (simp add: comp_def)
  then have ex: "buffer_examples ?b = buffer_examples b @ xs"
    by (simp add: buffer_examples_def q2_def q1)
  have u1: "list_all (\<lambda>u. batch_exception u = None \<and> 0 < length (batch_data u) \<and> length (batch_data u) \<le> ?bs) q1"
      "list_all (\<lambda>u. length (batch_data u) = ?bs) (butlast q1)"
      "drop n xs \<noteq> [] \<Longrightarrow> list_all (\<lambda>u. length (batch_data u) = ?bs) q1"
    using filled_units [OF b(1) refl refl n_def q1_def] by blast+
  have cs: "list_all (\<lambda>c. 0 < length c \<and> length c \<le> ?bs) (chunks ?bs (drop n xs))"
    by (rule chunk_lengths [OF bs])
  have "list_all (\<lambda>u. length (batch_data u) = ?bs) (butlast q2)"
  proof (cases "drop n xs = []")
    case True
    then show ?thesis using u1(2) by (simp add: q2_def)
  next
    case False
    then have "chunks ?bs (drop n xs) \<noteq> []" using bs by (simp add: chunks_step)
    then show ?thesis using u1(3) [OF False] chunk_sizes [OF bs False]
      by (simp add: q2_def butlast_append map_butlast [symmetric] list.pred_map comp_def)
  qed
  moreover have "list_all (\<lambda>u. batch_exception u = None \<and> 0 < length (batch_data u) \<and> length (batch_data u) \<le> ?bs) q2"
    using u1(1) cs by (simp add: q2_def list.pred_map comp_def)
  moreover have "length xs = length d" by (simp add: xs_def ids(3))
  ultimately have "buffer_ok ?b"
    using bs ex b(1) by (simp add: buffer_ok_def)
  then show ?thesis using run ex xs f2(2) b(2) by auto
qed

end

section \<open>The samplers shuffle\<close>

interpretation sequential_examples: shuffling_sampler sequential_inv SequentialSampler_next sequential_rest
    "\<lambda>n. modify (SequentialSampler_reset n)"
proof
  show "\<exists>s'. modify (SequentialSampler_reset (Some n)) s = (Inr (), s') \<and> sequential_inv s' \<and>
      mset (sequential_rest s') = mset [0..<n]" if "n < 2 ^ 63" for s n
    using that by (simp add: SequentialSampler_reset_def sequential_inv_def sequential_rest_def)
qed

text \<open>A random sampler with \<open>int64\<close> indices whose generator has been seeded.\<close>

definition random_live :: "random_state \<Rightarrow> bool" where
  "random_live = (\<lambda>(s, g). random_inv (s, g) \<and> rnd_dtype s = Long \<and> (\<exists>seed k. mt_at seed g k))"

lemma RandomSampler_next_frame:
  "RandomSampler_next b (s, g) = (r, (s', g')) \<Longrightarrow> g' = g \<and> rnd_dtype s' = rnd_dtype s"
  by (auto simp: RandomSampler_next_def Let_def split: if_splits)

interpretation random_examples: shuffling_sampler random_live RandomSampler_next random_rest RandomSampler_reset
proof
  show "RandomSampler_next b t = (Inr None, t)" if "random_live t" "random_rest t = []" for t b
    using that random.nxt_end [of t b] by (auto simp: random_live_def)
  show "\<exists>s'. RandomSampler_next b t = (Inr (Some (take b (random_rest t))), s') \<and> random_live s' \<and>
      random_rest s' = drop b (random_rest t)" if live: "random_live t" and ne: "random_rest t \<noteq> []" "b < 2 ^ 63" for t b
  proof -
    obtain s g where t: "t = (s, g)" by fastforce
    obtain s' g' where n: "RandomSampler_next b t = (Inr (Some (take b (random_rest t))), (s', g'))" "random_inv (s', g')"
        "random_rest (s', g') = drop b (random_rest t)"
      using random.nxt_take [of t b] live ne by (auto simp: random_live_def)
    then have "g' = g" "rnd_dtype s' = rnd_dtype s" using RandomSampler_next_frame [of b s g] t by auto
    then have "random_live (s', g')" using n(2) live t by (simp add: random_live_def)
    then show ?thesis using n by blast
  qed
  show "\<exists>s'. RandomSampler_reset (Some n) t = (Inr (), s') \<and> random_live s' \<and> mset (random_rest s') = mset [0..<n]"
    if live: "random_live t" and n: "n < 2 ^ 63" for t n
  proof -
    obtain s g seed k where t: "t = (s, g)" "rnd_dtype s = Long" "mt_at seed g k"
      using live by (auto simp: random_live_def)
    have d: "dispatch_all_types (rnd_dtype s)" "n \<le> index_limit (rnd_dtype s)"
      using t(2) n by (simp_all add: dispatch_all_types_def index_limit_def)
    obtain r g' where r: "randperm (int n) Long g = (Inr r, g')" "mt_at seed g' (k + (n - 1))"
      using randperm_mset [OF t(3) d] t(2) by auto
    obtain t' where t': "RandomSampler_reset (Some n) (s, g) = (Inr (), t')" "random_inv t'" "mset (random_rest t') = mset [0..<n]"
      using RandomSampler_reset_rest [OF t(3) d n] by blast
    then have "t' = (s\<lparr>rnd_indices := r, rnd_index := 0\<rparr>, g')"
      using r(1) t(2) n by (simp add: RandomSampler_reset_def int64_of_small)
    then show ?thesis using t t' r(2) by (auto simp: random_live_def)
  qed
qed

section \<open>Properties\<close>

lemma buffer_ok_get:
  assumes "buffer_ok b" "buffer_batch_size b \<le> length (buffer_examples b) \<or> stop b" "buffer_examples b \<noteq> []"
  shows "\<exists>batch b'. buffer_get_batch b = Some (Inr (Some batch), b') \<and> buffer_ok b' \<and>
    length batch = min (buffer_batch_size b) (length (buffer_examples b)) \<and> buffer_examples b = batch @ buffer_examples b' \<and>
    example_sampler b' = example_sampler b"
proof -
  have tot: "total_example_count_in_queue b = length (buffer_examples b)" using assms(1) by (simp add: buffer_ok_def)
  obtain u q where q: "batch_queue b = u # q"
    using assms(3) by (cases "batch_queue b") (auto simp: buffer_examples_def)
  have u: "batch_exception u = None" "length (batch_data u) = min (buffer_batch_size b) (length (buffer_examples b))"
  proof -
    show "batch_exception u = None" using assms(1) q by (simp add: buffer_ok_def)
    show "length (batch_data u) = min (buffer_batch_size b) (length (buffer_examples b))"
      using assms(1) q by (cases "q = []") (auto simp: buffer_ok_def buffer_examples_def)
  qed
  let ?b = "b\<lparr>batch_queue := q, total_example_count_in_queue := total_example_count_in_queue b - length (batch_data u)\<rparr>"
  have "buffer_ok ?b" using assms(1) q by (cases "q = []") (auto simp: buffer_ok_def buffer_examples_def)
  moreover have "buffer_get_batch b = Some (Inr (Some (batch_data u)), ?b)"
    using assms(2) tot q u(1) by (auto simp: buffer_get_batch_def)
  moreover have "buffer_examples b = batch_data u @ buffer_examples ?b" using q by (simp add: buffer_examples_def)
  moreover have "example_sampler ?b = example_sampler b" by simp
  ultimately show ?thesis using u(2) by blast
qed

lemma buffer_ok_empty: "buffer_ok b \<Longrightarrow> buffer_examples b = [] \<longleftrightarrow> batch_queue b = []"
  by (cases "batch_queue b") (auto simp: buffer_ok_def buffer_examples_def)

text \<open>
  Property C22. A batch buffer over a random sampler that holds no exceptions. \<open>add_chunk_data\<close>: when the buffer was
  stopped, it drops the chunk; when the buffer holds its capacity or more, the preloader waits; otherwise, for a chunk that
  is not empty, as the preloaders make sure, and has less than \<open>2 ^ 63\<close> examples, it succeeds, the examples of the chunk
  follow those of the buffer in some order, each exactly once, all batches except possibly the last one stay full, and the
  example count stays exact. \<open>get_batch\<close>: when a full batch is there, it takes out the oldest one; when there is less, the
  reader waits unless the buffer was stopped; then it gets the examples that are left, and \<open>nullopt\<close> when there are none.
\<close>

theorem chunk_buffer_conserves_examples:
  assumes "buffer_ok b" "random_live (example_sampler b)"
  shows "(if stop b then add_chunk_data RandomSampler_reset RandomSampler_next data b = Some (Inr (), b)
     else if queue_capacity b \<le> length (buffer_examples b) then add_chunk_data RandomSampler_reset RandomSampler_next data b = None
     else data \<noteq> [] \<longrightarrow> length data < 2 ^ 63 \<longrightarrow>
       (\<exists>b' xs. add_chunk_data RandomSampler_reset RandomSampler_next data b = Some (Inr (), b') \<and> buffer_ok b' \<and>
         random_live (example_sampler b') \<and> mset xs = mset data \<and> buffer_examples b' = buffer_examples b @ xs)) \<and>
    (if buffer_batch_size b \<le> length (buffer_examples b)
     then \<exists>batch b'. buffer_get_batch b = Some (Inr (Some batch), b') \<and> buffer_ok b' \<and> random_live (example_sampler b') \<and>
       length batch = buffer_batch_size b \<and> buffer_examples b = batch @ buffer_examples b'
     else if \<not> stop b then buffer_get_batch b = None
     else if buffer_examples b = [] then buffer_get_batch b = Some (Inr None, b)
     else \<exists>b'. buffer_get_batch b = Some (Inr (Some (buffer_examples b)), b') \<and> buffer_ok b' \<and>
       random_live (example_sampler b') \<and> buffer_examples b' = [])"
proof (rule conjI)
  have tot: "total_example_count_in_queue b = length (buffer_examples b)" and bs: "0 < buffer_batch_size b"
    using assms(1) by (simp_all add: buffer_ok_def)
  show "if stop b then add_chunk_data RandomSampler_reset RandomSampler_next data b = Some (Inr (), b)
     else if queue_capacity b \<le> length (buffer_examples b) then add_chunk_data RandomSampler_reset RandomSampler_next data b = None
     else data \<noteq> [] \<longrightarrow> length data < 2 ^ 63 \<longrightarrow>
       (\<exists>b' xs. add_chunk_data RandomSampler_reset RandomSampler_next data b = Some (Inr (), b') \<and> buffer_ok b' \<and>
         random_live (example_sampler b') \<and> mset xs = mset data \<and> buffer_examples b' = buffer_examples b @ xs)"
  proof (cases "stop b \<or> queue_capacity b \<le> length (buffer_examples b)")
    case True
    then show ?thesis using tot by (cases "stop b") (simp_all add: add_chunk_data_def)
  next
    case False
    then have "\<not> stop b" "total_example_count_in_queue b < queue_capacity b" using tot by simp_all
    from random_examples.add_chunk_run [OF assms(1) this assms(2), of data] False show ?thesis unfolding if_not_P [OF False [unfolded de_Morgan_disj, THEN conjunct1]] if_not_P [OF False [unfolded de_Morgan_disj, THEN conjunct2]] by meson
  qed
  show "if buffer_batch_size b \<le> length (buffer_examples b)
     then \<exists>batch b'. buffer_get_batch b = Some (Inr (Some batch), b') \<and> buffer_ok b' \<and> random_live (example_sampler b') \<and>
       length batch = buffer_batch_size b \<and> buffer_examples b = batch @ buffer_examples b'
     else if \<not> stop b then buffer_get_batch b = None
     else if buffer_examples b = [] then buffer_get_batch b = Some (Inr None, b)
     else \<exists>b'. buffer_get_batch b = Some (Inr (Some (buffer_examples b)), b') \<and> buffer_ok b' \<and>
       random_live (example_sampler b') \<and> buffer_examples b' = []"
  proof (cases "buffer_batch_size b \<le> length (buffer_examples b)")
    case True
    then have "buffer_examples b \<noteq> []" using bs by auto
    from buffer_ok_get [OF assms(1) _ this] True obtain batch b' where
      "buffer_get_batch b = Some (Inr (Some batch), b')" "buffer_ok b'" "example_sampler b' = example_sampler b"
      "length batch = min (buffer_batch_size b) (length (buffer_examples b))" "buffer_examples b = batch @ buffer_examples b'" by blast
    moreover from this(3) have "random_live (example_sampler b')" using assms(2) by simp
    ultimately have "buffer_get_batch b = Some (Inr (Some batch), b') \<and> buffer_ok b' \<and> random_live (example_sampler b') \<and>
       length batch = buffer_batch_size b \<and> buffer_examples b = batch @ buffer_examples b'" using True by simp
    then show ?thesis unfolding if_P [OF True] by blast
  next
    case False
    show ?thesis
    proof (cases "stop b \<and> buffer_examples b \<noteq> []")
      case True
      from buffer_ok_get [OF assms(1)] True obtain batch b' where
        b': "buffer_get_batch b = Some (Inr (Some batch), b')" "buffer_ok b'" "example_sampler b' = example_sampler b"
        "length batch = min (buffer_batch_size b) (length (buffer_examples b))" "buffer_examples b = batch @ buffer_examples b'" by blast
      have "length (buffer_examples b) = length batch + length (buffer_examples b')" by (subst b'(5)) simp
      then have "buffer_examples b' = []" using b'(4) False by simp
      then show ?thesis using b' False True assms(2) by simp
    next
      case other: False
      then show ?thesis using False tot buffer_ok_empty [OF assms(1)] by (auto simp: buffer_get_batch_def)
    qed
  qed
qed

theorem chunk_buffer_conserves_examples_witness:
  "\<exists>s. random_live s \<and> (\<exists>b' xs. add_chunk_data RandomSampler_reset RandomSampler_next ''abc'' (new_BatchDataBuffer 2 s 8) =
      Some (Inr (), b') \<and> buffer_ok b' \<and> mset xs = mset ''abc'' \<and> buffer_examples b' = xs)"
proof -
  let ?s = "(\<lparr>rnd_indices = [], rnd_dtype = Long, rnd_index = 0\<rparr>, THRandom_manualSeed 5 THGenerator_newUnseeded)"
  let ?b = "new_BatchDataBuffer 2 ?s 8 :: (random_state, char) BatchDataBuffer"
  have s: "random_live ?s" using manualSeed_mt_at by (auto simp: random_live_def random_inv_def)
  have b: "buffer_ok ?b" "random_live (example_sampler ?b)"
    using buffer_new [of 2] s by (simp_all add: new_BatchDataBuffer_def)
  have f: "\<not> stop ?b" "queue_capacity ?b = 8" "buffer_examples ?b = []"
    by (simp_all add: buffer_examples_def new_BatchDataBuffer_def)
  define B where "B = ?b"
  note b = b [folded B_def] and f = f [folded B_def]
  have "\<exists>b' xs. add_chunk_data RandomSampler_reset RandomSampler_next ''abc'' B = Some (Inr (), b') \<and> buffer_ok b' \<and>
      mset xs = mset ''abc'' \<and> buffer_examples b' = xs"
    using conjunct1 [OF chunk_buffer_conserves_examples [OF b, of "''abc''"]] f by fastforce
  then show ?thesis using s unfolding B_def by blast
qed

text \<open>
  When a preloader's exception is the last entry of the queue, the next chunk fills that entry up first: reading the
  exception discards these examples, and the count still includes them, so that the reader waits for examples that are not
  there.
\<close>

theorem chunk_exception_loses_examples:
  "\<exists>b1 b2 b3. add_chunk_exception OutOfRange (new_BatchDataBuffer 2 (new_SequentialSampler 0) 8) = Some b1 \<and>
     add_chunk_data (\<lambda>n. modify (SequentialSampler_reset n)) SequentialSampler_next ''ab'' b1 = Some (Inr (), b2) \<and>
     buffer_get_batch b2 = Some (Inl (WorkerException OutOfRange), b3) \<and>
     buffer_examples b3 = [] \<and> total_example_count_in_queue b3 = 2"
proof -
  let ?u = "\<lparr>batch_data = ''ab'', batch_exception = Some OutOfRange\<rparr>"
  let ?b1 = "(new_BatchDataBuffer 2 (new_SequentialSampler 0) 8)\<lparr>batch_queue := [?u\<lparr>batch_data := []\<rparr>]\<rparr>"
  let ?b2 = "?b1\<lparr>batch_queue := [?u], total_example_count_in_queue := 2, example_sampler := \<lparr>seq_size = 2, seq_index = 2\<rparr>\<rparr>"
  have c2: "count_up 2 i = ([i, add64 i 1], add64 (add64 i 1) 1)" for i
    by (simp add: numeral_2_eq_2)
  have "add_chunk_exception OutOfRange (new_BatchDataBuffer 2 (new_SequentialSampler 0) 8) = Some ?b1"
    by (simp add: add_chunk_exception_def new_BatchDataBuffer_def)
  moreover have "add_chunk_data (\<lambda>n. modify (SequentialSampler_reset n)) SequentialSampler_next ''ab'' ?b1 = Some (Inr (), ?b2)"
    by (simp add: add_chunk_data_def new_BatchDataBuffer_def new_SequentialSampler_def SequentialSampler_reset_def fill_last_def
        fill_batch_def SequentialSampler_next_def Let_def set_last_def c2)
  moreover have "buffer_get_batch ?b2 = Some (Inl (WorkerException OutOfRange), ?b2\<lparr>batch_queue := []\<rparr>)"
    by (simp add: buffer_get_batch_def new_BatchDataBuffer_def)
  ultimately show ?thesis by (force simp: buffer_examples_def)
qed

end
