(* ===== verification/Device_Guards.thy ===== *)
theory Device_Guards
  imports Device State_Exn
begin

text \<open>
  Device and stream guards (c10/core/impl/InlineDeviceGuard.h, InlineStreamGuard.h) over the interface
  \<open>DeviceGuardImplInterface\<close> and its registry, with the implementation \<open>FakeGuardImpl\<close>. An implementation is a record
  of its virtual functions over the state \<open>'s\<close> they work on. A guard object is a record; the methods that change it
  run on the pair of the guard and the state, so that a guard half changed by an exception stays visible.
\<close>

section \<open>The interface and its registry\<close>

record 's guard_impl =
  impl_type :: DeviceType
  exchangeDevice :: "Device \<Rightarrow> ('s, Device) mon"
  getDevice :: "('s, Device) mon"
  setDevice :: "Device \<Rightarrow> ('s, unit) mon"
  uncheckedSetDevice :: "Device \<Rightarrow> ('s, unit) mon"
  getStream :: "Device \<Rightarrow> ('s, Stream) mon"
  exchangeStream :: "Stream \<Rightarrow> ('s, Stream) mon"
  deviceCount :: "('s, DeviceIndex) mon"

type_synonym 's guard_registry = "DeviceType \<Rightarrow> 's guard_impl option"

text \<open>The registry is an array with one entry for each device type below \<open>COMPILE_TIME_MAX_DEVICE_TYPES\<close>.\<close>

definition registry_slot :: "DeviceType \<Rightarrow> bool" where
  "registry_slot t \<longleftrightarrow> DeviceType_int16 t < DeviceType_int16 COMPILE_TIME_MAX_DEVICE_TYPES"

definition DeviceGuardImplRegistrar ::
  "DeviceType \<Rightarrow> 's guard_impl option \<Rightarrow> 's guard_registry \<Rightarrow> 's guard_registry result" where
  "DeviceGuardImplRegistrar t p reg = (if registry_slot t then Inr (reg(t := p)) else Inl UndefinedBehaviour)"

definition getDeviceGuardImpl :: "'s guard_registry \<Rightarrow> DeviceType \<Rightarrow> 's guard_impl result" where
  "getDeviceGuardImpl reg t = (if \<not> registry_slot t then Inl UndefinedBehaviour
     else case reg t of None \<Rightarrow> Inl (C10Error ''DeviceGuardImpl is not available'') | Some p \<Rightarrow> Inr p)"

definition hasDeviceGuardImpl :: "'s guard_registry \<Rightarrow> DeviceType \<Rightarrow> bool result" where
  "hasDeviceGuardImpl reg t = (if registry_slot t then Inr (reg t \<noteq> None) else Inl UndefinedBehaviour)"

text \<open>
  The template argument of a guard. \<open>VirtualGuardImpl\<close> holds a pointer into the registry and forwards every call to
  it; any other class has a static device type and a constructor that takes the type of the device. A method the template
  disables for one of the two has no meaning there.
\<close>

datatype 's guard_class =
    VirtualGuard "'s guard_registry"
  | StaticGuard DeviceType "DeviceType \<Rightarrow> 's guard_impl result"

fun make_impl :: "'s guard_class \<Rightarrow> DeviceType \<Rightarrow> 's guard_impl result" where
  "make_impl (VirtualGuard reg) t = getDeviceGuardImpl reg t"
| "make_impl (StaticGuard _ construct) t = construct t"

section \<open>Device guards\<close>

record 's DeviceGuard =
  guard_impl :: "'s guard_impl"
  original_device :: Device
  current_device :: Device

definition new_DeviceGuard_impl :: "Device \<Rightarrow> 's guard_impl \<Rightarrow> ('s, 's DeviceGuard) mon" where
  "new_DeviceGuard_impl device i =
     bindm (if dev_index device = -1 then getDevice i else exchangeDevice i device) (\<lambda>orig.
       ret \<lparr>guard_impl = i, original_device = orig, current_device = (if dev_index device = -1 then orig else device)\<rparr>)"

definition new_DeviceGuard :: "'s guard_class \<Rightarrow> Device \<Rightarrow> ('s, 's DeviceGuard) mon" where
  "new_DeviceGuard C device = bindm (lift_result (make_impl C (dev_type device))) (new_DeviceGuard_impl device)"

definition new_DeviceGuard_index :: "'s guard_class \<Rightarrow> DeviceIndex \<Rightarrow> ('s, 's DeviceGuard) mon" where
  "new_DeviceGuard_index C i = (case C of
     StaticGuard t construct \<Rightarrow> bindm (lift_result (mk_Device t i)) (new_DeviceGuard C)
   | VirtualGuard _ \<Rightarrow> throw UndefinedBehaviour)"

definition delete_DeviceGuard :: "('s, 'm) DeviceGuard_scheme \<Rightarrow> ('s, unit) mon" where
  "delete_DeviceGuard g = uncheckedSetDevice (guard_impl g) (original_device g)"

type_synonym ('s, 'm, 'a) gmon = "(('s, 'm) DeviceGuard_scheme \<times> 's, 'a) mon"

definition call_impl :: "('s guard_impl \<Rightarrow> ('s, 'a) mon) \<Rightarrow> ('s, 'm, 'a) gmon" where
  "call_impl f = (\<lambda>(g, s). case f (guard_impl g) s of (r, t) \<Rightarrow> (r, (g, t)))"

definition assign_guard :: "(('s, 'm) DeviceGuard_scheme \<Rightarrow> ('s, 'm) DeviceGuard_scheme) \<Rightarrow> ('s, 'm, unit) gmon" where
  "assign_guard f = modify (map_prod f id)"

definition guard_get :: "(('s, 'm) DeviceGuard_scheme \<Rightarrow> 'a) \<Rightarrow> ('s, 'm, 'a) gmon" where
  "guard_get f = gets (f \<circ> fst)"

definition set_device :: "DeviceType \<Rightarrow> Device \<Rightarrow> ('s, 'm, unit) gmon" where
  "set_device static_type device =
     seqm (assertm ((static_type = HIP \<and> dev_type device = CUDA) \<or> dev_type device = static_type))
       (if dev_index device = -1 then ret ()
        else seqm (call_impl (\<lambda>i. setDevice i device)) (assign_guard (current_device_update (\<lambda>_. device))))"

definition reset_device_virtual ::
  "'s guard_registry \<Rightarrow> Device \<Rightarrow> 's guard_impl option \<Rightarrow> ('s, 'm, unit) gmon" where
  "reset_device_virtual reg device impl =
     (if dev_index device = -1 then ret () else
      bindm (guard_get original_device) (\<lambda>orig.
      if dev_type device = dev_type orig then
        seqm (assertm (case impl of None \<Rightarrow> True | Some i \<Rightarrow> impl_type i = dev_type device))
          (seqm (call_impl (\<lambda>i. setDevice i device)) (assign_guard (current_device_update (\<lambda>_. device))))
      else
        seqm (call_impl (\<lambda>i. setDevice i orig))
        (bindm (lift_result (case impl of None \<Rightarrow> getDeviceGuardImpl reg (dev_type device) | Some i \<Rightarrow> Inr i)) (\<lambda>i.
         seqm (assign_guard (guard_impl_update (\<lambda>_. i)))
         (bindm (call_impl (\<lambda>i. exchangeDevice i device)) (\<lambda>old.
          assign_guard (current_device_update (\<lambda>_. device) \<circ> original_device_update (\<lambda>_. old))))))))"

definition reset_device :: "'s guard_class \<Rightarrow> Device \<Rightarrow> 's guard_impl option \<Rightarrow> ('s, 'm, unit) gmon" where
  "reset_device C device impl = (case C of
     StaticGuard t _ \<Rightarrow> set_device t device
   | VirtualGuard reg \<Rightarrow> reset_device_virtual reg device impl)"

definition guard_set_index :: "'s guard_class \<Rightarrow> DeviceIndex \<Rightarrow> ('s, 'm, unit) gmon" where
  "guard_set_index C i = bindm (guard_get original_device) (\<lambda>orig.
     bindm (lift_result (mk_Device (dev_type orig) i)) (\<lambda>d. reset_device C d None))"

section \<open>Stream guards\<close>

record 's StreamGuard = "'s DeviceGuard" +
  original_stream_of_original_device :: Stream
  original_stream_of_current_device :: Stream
  current_stream :: Stream

definition extend_guard :: "'s DeviceGuard \<Rightarrow> Stream \<Rightarrow> Stream \<Rightarrow> Stream \<Rightarrow> 's StreamGuard" where
  "extend_guard g oo oc c = DeviceGuard.extend g
     (StreamGuard.fields oo oc c)"

text \<open>
  The initialisers after the base class call \<open>noexcept\<close> functions, so no exception leaves a constructed base object
  behind.
\<close>

definition new_StreamGuard_rest :: "Stream \<Rightarrow> 's DeviceGuard \<Rightarrow> ('s, 's StreamGuard) mon" where
  "new_StreamGuard_rest stream g =
     bindm (getStream (guard_impl g) (original_device g)) (\<lambda>oo.
     bindm (exchangeStream (guard_impl g) stream) (\<lambda>oc. ret (extend_guard g oo oc stream)))"

definition new_StreamGuard :: "'s guard_class \<Rightarrow> Stream \<Rightarrow> ('s, 's StreamGuard) mon" where
  "new_StreamGuard C stream = bindm (new_DeviceGuard C (st_device stream)) (new_StreamGuard_rest stream)"

definition delete_StreamGuard :: "'s StreamGuard \<Rightarrow> ('s, unit) mon" where
  "delete_StreamGuard g = seqm (bindm (exchangeStream (guard_impl g) (original_stream_of_current_device g)) (\<lambda>_. ret ()))
     (delete_DeviceGuard g)"

type_synonym ('s, 'a) sgmon = "('s StreamGuard \<times> 's, 'a) mon"

definition reset_stream :: "'s guard_class \<Rightarrow> Stream \<Rightarrow> ('s, unit) sgmon" where
  "reset_stream C stream = bindm (guard_get current_device) (\<lambda>cd.
     if st_device stream = cd then
       seqm (call_impl (\<lambda>i. exchangeStream i stream)) (modify (map_prod (current_stream_update (\<lambda>_. stream)) id))
     else
       bindm (gets (original_stream_of_current_device \<circ> fst)) (\<lambda>orig.
       seqm (call_impl (\<lambda>i. exchangeStream i orig))
       (seqm (reset_device C (st_device stream) None)
       (bindm (call_impl (\<lambda>i. exchangeStream i stream)) (\<lambda>old.
         modify (map_prod (current_stream_update (\<lambda>_. stream) \<circ> original_stream_of_current_device_update (\<lambda>_. old)) id))))))"

section \<open>Optional guards\<close>

text \<open>The state of an optional guard is \<open>None\<close> until it is initialised; \<open>on_some\<close> calls a method of the guard inside.\<close>

definition emplace :: "('s, 'g) mon \<Rightarrow> ('g option \<times> 's, unit) mon" where
  "emplace m = (\<lambda>(g, s). case m s of (Inr x, t) \<Rightarrow> (Inr (), (Some x, t)) | (Inl e, t) \<Rightarrow> (Inl e, (g, t)))"

definition on_some :: "'g \<Rightarrow> ('g \<times> 's, 'a) mon \<Rightarrow> ('g option \<times> 's, 'a) mon" where
  "on_some g m = (\<lambda>(_, s). case m (g, s) of (r, (h, t)) \<Rightarrow> (r, (Some h, t)))"

definition destroy :: "('g \<Rightarrow> ('s, unit) mon) \<Rightarrow> ('g option \<times> 's, unit) mon" where
  "destroy del = (\<lambda>(g, s). case g of None \<Rightarrow> (Inr (), (None, s))
     | Some x \<Rightarrow> (case del x s of (r, t) \<Rightarrow> (r, (None, t))))"

definition new_OptionalDeviceGuard :: "'s guard_class \<Rightarrow> Device option \<Rightarrow> ('s DeviceGuard option \<times> 's, unit) mon" where
  "new_OptionalDeviceGuard C device_opt = (case device_opt of None \<Rightarrow> ret () | Some d \<Rightarrow> emplace (new_DeviceGuard C d))"

definition optional_set_device :: "'s guard_class \<Rightarrow> Device \<Rightarrow> ('s DeviceGuard option \<times> 's, unit) mon" where
  "optional_set_device C device = bindm (gets fst) (\<lambda>guard. case guard of
     None \<Rightarrow> emplace (new_DeviceGuard C device)
   | Some g \<Rightarrow> on_some g (case C of StaticGuard t _ \<Rightarrow> set_device t device | VirtualGuard _ \<Rightarrow> throw UndefinedBehaviour))"

definition optional_reset_device ::
  "'s guard_class \<Rightarrow> Device \<Rightarrow> 's guard_impl option \<Rightarrow> ('s DeviceGuard option \<times> 's, unit) mon" where
  "optional_reset_device C device impl = bindm (gets fst) (\<lambda>guard. case guard of
     None \<Rightarrow> emplace (case impl of None \<Rightarrow> new_DeviceGuard C device | Some i \<Rightarrow> new_DeviceGuard_impl device i)
   | Some g \<Rightarrow> on_some g (reset_device C device impl))"

definition optional_set_index :: "'s guard_class \<Rightarrow> DeviceIndex \<Rightarrow> ('s DeviceGuard option \<times> 's, unit) mon" where
  "optional_set_index C i = bindm (gets fst) (\<lambda>guard. case guard of
     None \<Rightarrow> emplace (new_DeviceGuard_index C i)
   | Some g \<Rightarrow> on_some g (guard_set_index C i))"

definition optional_original_device :: "'s DeviceGuard option \<Rightarrow> Device option" where
  "optional_original_device guard = map_option original_device guard"

definition optional_current_device :: "'s DeviceGuard option \<Rightarrow> Device option" where
  "optional_current_device guard = map_option current_device guard"

definition optional_device_reset :: "('s DeviceGuard option \<times> 's, unit) mon" where
  "optional_device_reset = destroy delete_DeviceGuard"

definition new_OptionalStreamGuard :: "'s guard_class \<Rightarrow> Stream option \<Rightarrow> ('s StreamGuard option \<times> 's, unit) mon" where
  "new_OptionalStreamGuard C stream_opt = (case stream_opt of None \<Rightarrow> ret () | Some d \<Rightarrow> emplace (new_StreamGuard C d))"

definition optional_reset_stream :: "'s guard_class \<Rightarrow> Stream \<Rightarrow> ('s StreamGuard option \<times> 's, unit) mon" where
  "optional_reset_stream C stream = bindm (gets fst) (\<lambda>guard. case guard of
     None \<Rightarrow> emplace (new_StreamGuard C stream)
   | Some g \<Rightarrow> on_some g (reset_stream C stream))"

definition optional_original_stream :: "'s StreamGuard option \<Rightarrow> Stream option" where
  "optional_original_stream guard = map_option original_stream_of_original_device guard"

definition optional_current_stream :: "'s StreamGuard option \<Rightarrow> Stream option" where
  "optional_current_stream guard = map_option current_stream guard"

definition optional_stream_reset :: "('s StreamGuard option \<times> 's, unit) mon" where
  "optional_stream_reset = destroy delete_StreamGuard"

section \<open>The fake implementation\<close>

text \<open>Its state are the static thread-local members of \<open>FakeGuardImpl<T>\<close> for every device type \<open>T\<close>.\<close>

definition kFakeGuardImplMaxDevices :: nat where "kFakeGuardImplMaxDevices = 8"

record fake_state =
  fake_device :: "DeviceType \<Rightarrow> DeviceIndex"
  fake_streams :: "DeviceType \<Rightarrow> StreamId list"

definition new_fake_state :: fake_state where
  "new_fake_state = \<lparr>fake_device = (\<lambda>_. 0), fake_streams = (\<lambda>_. replicate kFakeGuardImplMaxDevices 0)\<rparr>"

text \<open>A \<open>DeviceIndex\<close> compared with a \<open>size_t\<close>, or used as the subscript of a \<open>std::array\<close>, is converted to unsigned.\<close>

definition below_max :: "DeviceIndex \<Rightarrow> bool" where
  "below_max i \<longleftrightarrow> 0 \<le> sint i \<and> nat (sint i) < kFakeGuardImplMaxDevices"

definition fake_getDevice :: "DeviceType \<Rightarrow> (fake_state, Device) mon" where
  "fake_getDevice T = bindm (gets fake_device) (\<lambda>cur. lift_result (mk_Device T (cur T)))"

definition fake_assign :: "DeviceType \<Rightarrow> DeviceIndex \<Rightarrow> (fake_state, unit) mon" where
  "fake_assign T i = modify (\<lambda>s. s\<lparr>fake_device := (fake_device s)(T := i)\<rparr>)"

definition fake_exchangeDevice :: "DeviceType \<Rightarrow> Device \<Rightarrow> (fake_state, Device) mon" where
  "fake_exchangeDevice T d = seqm (assertm (dev_type d = T)) (seqm (assertm (below_max (dev_index d)))
     (bindm (fake_getDevice T) (\<lambda>old_device.
      seqm (if dev_index old_device \<noteq> dev_index d then fake_assign T (dev_index d) else ret ()) (ret old_device))))"

definition fake_setDevice :: "DeviceType \<Rightarrow> Device \<Rightarrow> (fake_state, unit) mon" where
  "fake_setDevice T d = seqm (assertm (dev_type d = T)) (seqm (assertm (0 \<le> sint (dev_index d)))
     (seqm (assertm (below_max (dev_index d))) (fake_assign T (dev_index d))))"

definition fake_uncheckedSetDevice :: "DeviceType \<Rightarrow> Device \<Rightarrow> (fake_state, unit) mon" where
  "fake_uncheckedSetDevice T d = fake_assign T (dev_index d)"

definition fake_subscript :: "DeviceType \<Rightarrow> DeviceIndex \<Rightarrow> (fake_state, nat) mon" where
  "fake_subscript T i = (if below_max i then ret (nat (sint i)) else throw UndefinedBehaviour)"

definition fake_getStream :: "DeviceType \<Rightarrow> Device \<Rightarrow> (fake_state, Stream) mon" where
  "fake_getStream T d = noexcept (bindm (fake_subscript T (dev_index d)) (\<lambda>k.
     gets (\<lambda>s. \<lparr>st_device = d, st_id = fake_streams s T ! k\<rparr>)))"

definition fake_exchangeStream :: "DeviceType \<Rightarrow> Stream \<Rightarrow> (fake_state, Stream) mon" where
  "fake_exchangeStream T st = noexcept (bindm (fake_subscript T (dev_index (st_device st))) (\<lambda>k.
     bindm (gets (\<lambda>s. fake_streams s T ! k)) (\<lambda>old_id.
     seqm (modify (\<lambda>s. s\<lparr>fake_streams := (fake_streams s)(T := (fake_streams s T)[k := st_id st])\<rparr>))
       (ret \<lparr>st_device = st_device st, st_id = old_id\<rparr>))))"

definition fake_deviceCount :: "DeviceType \<Rightarrow> (fake_state, DeviceIndex) mon" where
  "fake_deviceCount T = ret (word_of_nat kFakeGuardImplMaxDevices)"

definition FakeGuardImpl :: "DeviceType \<Rightarrow> fake_state guard_impl" where
  "FakeGuardImpl T = \<lparr>impl_type = T, exchangeDevice = fake_exchangeDevice T, getDevice = fake_getDevice T,
     setDevice = fake_setDevice T, uncheckedSetDevice = fake_uncheckedSetDevice T, getStream = fake_getStream T,
     exchangeStream = fake_exchangeStream T, deviceCount = fake_deviceCount T\<rparr>"

definition fake_setDeviceIndex :: "DeviceType \<Rightarrow> DeviceIndex \<Rightarrow> (fake_state, unit) mon" where
  "fake_setDeviceIndex T i = seqm (assertm (0 \<le> sint i)) (seqm (assertm (below_max i)) (fake_assign T i))"

definition fake_getCurrentStreamIdFor :: "DeviceType \<Rightarrow> DeviceIndex \<Rightarrow> (fake_state, StreamId) mon" where
  "fake_getCurrentStreamIdFor T i = (if below_max i then gets (\<lambda>s. fake_streams s T ! nat (sint i)) else throw OutOfRange)"

definition fake_resetStreams :: "DeviceType \<Rightarrow> (fake_state, unit) mon" where
  "fake_resetStreams T = modify (\<lambda>s. s\<lparr>fake_streams := (fake_streams s)(T := replicate kFakeGuardImplMaxDevices 0)\<rparr>)"

end
