(* ===== verification/Guard_Contracts.thy ===== *)
theory Guard_Contracts
  imports Device_Guards
begin

text \<open>
  What \<open>DeviceGuardImplInterface\<close> documents of its functions, as a locale, and what the guards promise on top of it:
  whatever sequence of resets a guard goes through, its destructor gives every device type its current device and
  every device its current stream back.
\<close>

section \<open>The contract of an implementation\<close>

text \<open>
  \<open>cur s t\<close> is the current device of type \<open>t\<close> and \<open>strm s d\<close> the current stream of device \<open>d\<close> in state \<open>s\<close>;
  \<open>usable d\<close> says that the device exists.
\<close>

abbreviation dev :: "DeviceType \<Rightarrow> DeviceIndex \<Rightarrow> Device" where
  "dev t i \<equiv> \<lparr>dev_type = t, dev_index = i\<rparr>"

locale guard_provider =
  fixes C :: "'s guard_class" and impl_of :: "DeviceType \<Rightarrow> 's guard_impl"
    and ok :: "'s \<Rightarrow> bool" and usable :: "Device \<Rightarrow> bool"
    and cur :: "'s \<Rightarrow> DeviceType \<Rightarrow> DeviceIndex" and strm :: "'s \<Rightarrow> Device \<Rightarrow> StreamId"
  assumes make: "usable d \<Longrightarrow> make_impl C (dev_type d) = Inr (impl_of (dev_type d))"
    and one_type: "C = StaticGuard st f \<Longrightarrow> usable d \<Longrightarrow> dev_type d = st"
    and indexed: "usable d \<Longrightarrow> dev_index d \<noteq> -1"
    and cur_usable: "ok s \<Longrightarrow> usable d \<Longrightarrow> usable (dev (dev_type d) (cur s (dev_type d)))"
    and exchange_law: "ok s \<Longrightarrow> usable d \<Longrightarrow> \<exists>t.
      exchangeDevice (impl_of (dev_type d)) d s = (Inr (dev (dev_type d) (cur s (dev_type d))), t) \<and>
      ok t \<and> cur t = (cur s)(dev_type d := dev_index d) \<and> strm t = strm s"
    and set_law: "ok s \<Longrightarrow> usable d \<Longrightarrow> \<exists>t. setDevice (impl_of (dev_type d)) d s = (Inr (), t) \<and>
      ok t \<and> cur t = (cur s)(dev_type d := dev_index d) \<and> strm t = strm s"
    and unchecked_law: "ok s \<Longrightarrow> usable d \<Longrightarrow> \<exists>t. uncheckedSetDevice (impl_of (dev_type d)) d s = (Inr (), t) \<and>
      ok t \<and> cur t = (cur s)(dev_type d := dev_index d) \<and> strm t = strm s"
begin

definition guarding :: "'s \<Rightarrow> ('s, 'm) DeviceGuard_scheme \<Rightarrow> 's \<Rightarrow> bool" where
  "guarding s0 g s \<longleftrightarrow> (let t = dev_type (original_device g) in
     ok s \<and> usable (original_device g) \<and> usable (current_device g) \<and> dev_type (current_device g) = t \<and>
     guard_impl g = impl_of t \<and> original_device g = dev t (cur s0 t) \<and>
     cur s = (cur s0)(t := dev_index (current_device g)))"

lemma new_guarding:
  assumes "ok s" "usable d"
  shows "\<exists>g t. new_DeviceGuard C d s = (Inr g, t) \<and> guarding s g t \<and> strm t = strm s \<and> current_device g = d"
proof -
  obtain t where "exchangeDevice (impl_of (dev_type d)) d s = (Inr (dev (dev_type d) (cur s (dev_type d))), t)"
    and "ok t" "cur t = (cur s)(dev_type d := dev_index d)" "strm t = strm s"
    using exchange_law [OF assms] by blast
  then show ?thesis
    using assms indexed [OF assms(2)] cur_usable [OF assms] make [OF assms(2)]
    by (simp add: new_DeviceGuard_def new_DeviceGuard_impl_def guarding_def)
qed

lemma delete_guarding:
  assumes "guarding s0 g s"
  shows "\<exists>t. delete_DeviceGuard g s = (Inr (), t) \<and> ok t \<and> cur t = cur s0 \<and> strm t = strm s"
proof -
  define k where "k = dev_type (original_device g)"
  have g: "ok s" "usable (original_device g)" "guard_impl g = impl_of k" "original_device g = dev k (cur s0 k)"
    "cur s = (cur s0)(k := dev_index (current_device g))"
    using assms by (simp_all add: guarding_def k_def Let_def)
  obtain t where t: "uncheckedSetDevice (impl_of k) (original_device g) s = (Inr (), t)"
    and "ok t" "cur t = (cur s)(k := dev_index (original_device g))" "strm t = strm s"
    using unchecked_law [OF g(1,2)] by (auto simp: k_def)
  moreover have "(cur s)(k := dev_index (original_device g)) = cur s0"
    unfolding g(4,5) by simp
  ultimately show ?thesis using g(3) by (simp add: delete_DeviceGuard_def)
qed

lemma set_guarding:
  assumes "guarding s0 g s" "usable d" "dev_type d = dev_type (original_device g)"
  shows "\<exists>t. seqm (call_impl (\<lambda>i. setDevice i d)) (assign_guard (current_device_update (\<lambda>_. d))) (g, s)
      = (Inr (), (g\<lparr>current_device := d\<rparr>, t)) \<and> guarding s0 (g\<lparr>current_device := d\<rparr>) t \<and> strm t = strm s"
proof -
  have g: "ok s" "guard_impl g = impl_of (dev_type d)"
    using assms by (simp_all add: guarding_def Let_def)
  obtain t where "setDevice (impl_of (dev_type d)) d s = (Inr (), t)"
    and "ok t" "cur t = (cur s)(dev_type d := dev_index d)" "strm t = strm s"
    using set_law [OF g(1) assms(2)] by blast
  then show ?thesis
    using assms g by (simp add: seqm_def bindm_def call_impl_def assign_guard_def guarding_def Let_def)
qed

lemma switch_guarding:
  assumes "guarding s0 g s" "usable d" "dev_type d \<noteq> dev_type (original_device g)" "C = VirtualGuard reg"
  shows "\<exists>h t. reset_device_virtual reg d None (g, s) = (Inr (), (h, t)) \<and> guarding s0 h t \<and> strm t = strm s \<and>
    current_device h = d \<and> DeviceGuard.more h = DeviceGuard.more g"
proof -
  define k where "k = dev_type (original_device g)"
  have g: "ok s" "usable (original_device g)" "guard_impl g = impl_of k" "original_device g = dev k (cur s0 k)"
    "cur s = (cur s0)(k := dev_index (current_device g))"
    using assms by (simp_all add: guarding_def k_def Let_def)
  obtain t where t: "setDevice (impl_of k) (original_device g) s = (Inr (), t)"
    and ok: "ok t" and "cur t = (cur s)(k := dev_index (original_device g))" and st: "strm t = strm s"
    using set_law [OF g(1,2)] by (auto simp: k_def)
  then have cur: "cur t = cur s0" unfolding g(4,5) by simp
  obtain u where u: "exchangeDevice (impl_of (dev_type d)) d t = (Inr (dev (dev_type d) (cur s0 (dev_type d))), u)"
    and "ok u" "cur u = (cur s0)(dev_type d := dev_index d)" "strm u = strm s"
    using exchange_law [OF ok assms(2)] by (auto simp: cur st)
  moreover have "getDeviceGuardImpl reg (dev_type d) = Inr (impl_of (dev_type d))"
    using make [OF assms(2)] assms(4) by simp
  moreover have "usable (dev (dev_type d) (cur s0 (dev_type d)))" using cur_usable [OF ok assms(2)] by (simp add: cur)
  ultimately show ?thesis
    using assms(2,3) g(3) t indexed [OF assms(2)]
    by (simp add: reset_device_virtual_def guard_get_def call_impl_def assign_guard_def seqm_def bindm_def
        guarding_def Let_def k_def)
qed

lemma reset_guarding:
  assumes "guarding s0 g s" "usable d"
  shows "\<exists>h t. reset_device C d None (g, s) = (Inr (), (h, t)) \<and> guarding s0 h t \<and> strm t = strm s \<and>
    current_device h = d \<and> DeviceGuard.more h = DeviceGuard.more g"
proof (cases C)
  case (VirtualGuard reg)
  then show ?thesis
  proof (cases "dev_type d = dev_type (original_device g)")
    case True
    then show ?thesis
      using set_guarding [OF assms True] indexed [OF assms(2)] VirtualGuard
      by (auto simp: reset_device_def reset_device_virtual_def guard_get_def bindm_def)
  next
    case False
    then show ?thesis using switch_guarding [OF assms False VirtualGuard] VirtualGuard by (simp add: reset_device_def)
  qed
next
  case (StaticGuard st f)
  have "usable (original_device g)" using assms(1) by (simp add: guarding_def Let_def)
  then have "dev_type d = dev_type (original_device g)" "dev_type d = st"
    using one_type [OF StaticGuard] assms(2) by simp_all
  then show ?thesis
    using set_guarding [OF assms] indexed [OF assms(2)] StaticGuard
    by (auto simp: reset_device_def set_device_def)
qed

end

section \<open>Uses of an optional stream guard\<close>

text \<open>What a program may do with an \<open>OptionalStreamGuard\<close>, and the stream it has asked for last.\<close>

datatype guard_op = ResetStream Stream | Reset

fun stream_guard_op :: "'s guard_class \<Rightarrow> guard_op \<Rightarrow> ('s StreamGuard option \<times> 's, unit) mon" where
  "stream_guard_op C (ResetStream x) = optional_reset_stream C x"
| "stream_guard_op C Reset = optional_stream_reset"

fun op_ok :: "(Stream \<Rightarrow> bool) \<Rightarrow> guard_op \<Rightarrow> bool" where
  "op_ok P (ResetStream x) = P x"
| "op_ok P Reset = True"

fun asked_last :: "Stream option \<Rightarrow> guard_op list \<Rightarrow> Stream option" where
  "asked_last x [] = x"
| "asked_last x (ResetStream y # ops) = asked_last (Some y) ops"
| "asked_last x (Reset # ops) = asked_last None ops"

lemma asked_last_ok:
  assumes "list_all (op_ok P) ops" "asked_last None ops = Some y"
  shows "P y"
proof -
  have "list_all (op_ok P) ops \<Longrightarrow> asked_last x ops = Some y \<Longrightarrow> P y \<or> x = Some y" for x
    by (induction x ops rule: asked_last.induct) auto
  then show ?thesis using assms by blast
qed

section \<open>The contract with streams\<close>

locale stream_provider = guard_provider C impl_of ok usable cur strm
  for C :: "'s guard_class" and impl_of ok usable cur strm +
  fixes usable_stream :: "Stream \<Rightarrow> bool"
  assumes stream_usable: "usable_stream x \<Longrightarrow> usable (st_device x)"
    and strm_usable: "ok s \<Longrightarrow> usable d \<Longrightarrow> usable_stream \<lparr>st_device = d, st_id = strm s d\<rparr>"
    and get_stream_law: "ok s \<Longrightarrow> usable d \<Longrightarrow> \<exists>x. getStream (impl_of (dev_type d)) d s = (Inr x, s)"
    and exchange_stream_law: "ok s \<Longrightarrow> usable_stream x \<Longrightarrow> \<exists>t.
      exchangeStream (impl_of (dev_type (st_device x))) x s
        = (Inr \<lparr>st_device = st_device x, st_id = strm s (st_device x)\<rparr>, t) \<and>
      ok t \<and> cur t = cur s \<and> strm t = (strm s)(st_device x := st_id x)"
begin

definition guarding_stream :: "'s \<Rightarrow> 's StreamGuard \<Rightarrow> 's \<Rightarrow> bool" where
  "guarding_stream s0 g s \<longleftrightarrow> (let d = current_device g in
     guarding s0 g s \<and> ok s0 \<and> original_stream_of_current_device g = \<lparr>st_device = d, st_id = strm s0 d\<rparr> \<and>
     st_device (current_stream g) = d \<and> strm s = (strm s0)(d := st_id (current_stream g)))"

lemma guardingD:
  assumes "guarding s0 g s"
  shows "ok s" "usable (current_device g)" "guard_impl g = impl_of (dev_type (current_device g))"
    "usable (original_device g)" "dev_type (original_device g) = dev_type (current_device g)"
  using assms by (simp_all add: guarding_def Let_def)

lemma guarding_frame:
  assumes "guarding s0 g s" "ok t" "cur t = cur s"
  shows "guarding s0 g t"
  using assms by (simp add: guarding_def Let_def)

lemma guarding_cong:
  assumes "guarding s0 g s" "guard_impl h = guard_impl g" "original_device h = original_device g"
    "current_device h = current_device g"
  shows "guarding s0 h s"
  using assms by (simp add: guarding_def Let_def)

lemma new_stream_guarding:
  assumes "ok s" "usable_stream x"
  shows "\<exists>g t. new_StreamGuard C x s = (Inr g, t) \<and> guarding_stream s g t \<and> current_stream g = x"
proof -
  obtain g t where g: "new_DeviceGuard C (st_device x) s = (Inr g, t)" "guarding s g t" "strm t = strm s"
      "current_device g = st_device x"
    using new_guarding [OF assms(1) stream_usable [OF assms(2)]] by blast
  note d = guardingD [OF g(2)]
  obtain oo where oo: "getStream (guard_impl g) (original_device g) t = (Inr oo, t)"
    using get_stream_law [OF d(1,4)] d(3,5) by auto
  obtain u where u: "exchangeStream (guard_impl g) x t = (Inr \<lparr>st_device = st_device x, st_id = strm s (st_device x)\<rparr>, u)"
    and f: "ok u" "cur u = cur t" "strm u = (strm s)(st_device x := st_id x)"
    using exchange_stream_law [OF d(1) assms(2)] g(3,4) d(3) by auto
  have "guarding s (extend_guard g oo \<lparr>st_device = st_device x, st_id = strm s (st_device x)\<rparr> x) u"
    by (rule guarding_cong [OF guarding_frame [OF g(2) f(1,2)]])
      (simp_all add: extend_guard_def DeviceGuard.extend_def StreamGuard.fields_def)
  then show ?thesis
    using g oo u f assms(1)
    by (simp add: new_StreamGuard_def new_StreamGuard_rest_def guarding_stream_def extend_guard_def
        DeviceGuard.extend_def StreamGuard.fields_def)
qed

lemma exchange_to_original:
  assumes "guarding_stream s0 g s"
  shows "\<exists>y t. exchangeStream (guard_impl g) (original_stream_of_current_device g) s = (Inr y, t) \<and>
    guarding s0 g t \<and> strm t = strm s0"
proof -
  have g: "guarding s0 g s" and ok0: "ok s0"
    and orig: "original_stream_of_current_device g = \<lparr>st_device = current_device g, st_id = strm s0 (current_device g)\<rparr>"
    and s: "strm s = (strm s0)(current_device g := st_id (current_stream g))"
    using assms by (simp_all add: guarding_stream_def Let_def)
  note d = guardingD [OF g]
  obtain t where "exchangeStream (guard_impl g) (original_stream_of_current_device g) s
        = (Inr \<lparr>st_device = current_device g, st_id = strm s (current_device g)\<rparr>, t)"
    and f: "ok t" "cur t = cur s" "strm t = strm s0"
    using exchange_stream_law [OF d(1) strm_usable [OF ok0 d(2)]] d(3) orig s by auto
  then show ?thesis using guarding_frame [OF g f(1,2)] f(3) by blast
qed

lemma delete_stream_guarding:
  assumes "guarding_stream s0 g s"
  shows "\<exists>t. delete_StreamGuard g s = (Inr (), t) \<and> ok t \<and> cur t = cur s0 \<and> strm t = strm s0"
proof -
  obtain y t where "exchangeStream (guard_impl g) (original_stream_of_current_device g) s = (Inr y, t)"
    and t: "guarding s0 g t" "strm t = strm s0"
    using exchange_to_original [OF assms] by blast
  then show ?thesis using delete_guarding [OF t(1)] by (auto simp: delete_StreamGuard_def)
qed

lemma call_impl_run: "f (guard_impl g) s = (r, t) \<Longrightarrow> call_impl f (g, s) = (r, (g, t))"
  by (simp add: call_impl_def)

lemma reset_same_device:
  assumes "guarding_stream s0 g s" "usable_stream x" "st_device x = current_device g"
  shows "\<exists>t. reset_stream C x (g, s) = (Inr (), (g\<lparr>current_stream := x\<rparr>, t)) \<and>
    guarding_stream s0 (g\<lparr>current_stream := x\<rparr>) t"
proof -
  have g: "guarding s0 g s" and s: "strm s = (strm s0)(st_device x := st_id (current_stream g))"
    using assms by (simp_all add: guarding_stream_def Let_def)
  note d = guardingD [OF g]
  obtain y t where e: "exchangeStream (guard_impl g) x s = (Inr y, t)"
    and f: "ok t" "cur t = cur s" "strm t = (strm s0)(st_device x := st_id x)"
    using exchange_stream_law [OF d(1) assms(2)] assms(3) d(3) s by auto
  have "guarding s0 (g\<lparr>current_stream := x\<rparr>) t"
    by (rule guarding_cong [OF guarding_frame [OF g f(1,2)]]) simp_all
  moreover have "reset_stream C x (g, s) = (Inr (), (g\<lparr>current_stream := x\<rparr>, t))"
    using assms(3) call_impl_run [of "\<lambda>i. exchangeStream i x", OF e] by (simp add: reset_stream_def guard_get_def bindm_def seqm_def)
  ultimately show ?thesis using assms f by (simp add: guarding_stream_def Let_def)
qed

lemma reset_other_device:
  assumes "guarding_stream s0 g s" "usable_stream x" "st_device x \<noteq> current_device g"
  shows "\<exists>h t. reset_stream C x (g, s) = (Inr (), (h, t)) \<and> guarding_stream s0 h t \<and> current_stream h = x"
proof -
  obtain y t where t: "exchangeStream (guard_impl g) (original_stream_of_current_device g) s = (Inr y, t)"
    "guarding s0 g t" "strm t = strm s0"
    using exchange_to_original [OF assms(1)] by blast
  obtain h u where h: "reset_device C (st_device x) None (g, t) = (Inr (), (h, u))" "guarding s0 h u" "strm u = strm s0"
    "current_device h = st_device x" "DeviceGuard.more h = DeviceGuard.more g"
    using reset_guarding [OF t(2) stream_usable [OF assms(2)]] t(3) by auto
  note d = guardingD [OF h(2)]
  obtain w where w: "exchangeStream (guard_impl h) x u = (Inr \<lparr>st_device = st_device x, st_id = strm s0 (st_device x)\<rparr>, w)"
    and f: "ok w" "cur w = cur u" "strm w = (strm s0)(st_device x := st_id x)"
    using exchange_stream_law [OF d(1) assms(2)] h(3,4) d(3) by auto
  let ?old = "\<lparr>st_device = st_device x, st_id = strm s0 (st_device x)\<rparr>"
  let ?h = "h\<lparr>original_stream_of_current_device := ?old, current_stream := x\<rparr>"
  have run: "reset_stream C x (g, s) = (Inr (), (?h, w))"
    using assms(3) h(1) call_impl_run [of "\<lambda>i. exchangeStream i (original_stream_of_current_device g)", OF t(1)]
      call_impl_run [of "\<lambda>i. exchangeStream i x", OF w]
    by (simp add: reset_stream_def guard_get_def bindm_def seqm_def)
  have "guarding s0 ?h w"
    by (rule guarding_cong [OF guarding_frame [OF h(2) f(1,2)]]) simp_all
  moreover have "ok s0" using assms(1) by (simp add: guarding_stream_def Let_def)
  ultimately have "guarding_stream s0 ?h w" using h(4) f by (simp add: guarding_stream_def Let_def)
  then show ?thesis unfolding run by auto
qed

lemma reset_stream_guarding:
  assumes "guarding_stream s0 g s" "usable_stream x"
  shows "\<exists>h t. reset_stream C x (g, s) = (Inr (), (h, t)) \<and> guarding_stream s0 h t \<and> current_stream h = x"
proof (cases "st_device x = current_device g")
  case True
  then show ?thesis using reset_same_device [OF assms True] by auto
qed (rule reset_other_device [OF assms])

definition optional_guarding :: "'s \<Rightarrow> 's StreamGuard option \<times> 's \<Rightarrow> Stream option \<Rightarrow> bool" where
  "optional_guarding s0 gs x \<longleftrightarrow> (case gs of
     (None, s) \<Rightarrow> ok s \<and> cur s = cur s0 \<and> strm s = strm s0 \<and> x = None
   | (Some g, s) \<Rightarrow> guarding_stream s0 g s \<and> x = Some (current_stream g))"

lemma guarding_stream_view:
  assumes "guarding_stream s1 g t" "cur s1 = cur s0" "strm s1 = strm s0" "ok s0"
  shows "guarding_stream s0 g t"
  using assms by (simp add: guarding_stream_def guarding_def Let_def)

lemma optional_reset_stream_guarding:
  assumes "optional_guarding s0 gs x" "usable_stream y" "ok s0"
  shows "\<exists>ht. optional_reset_stream C y gs = (Inr (), ht) \<and> optional_guarding s0 ht (Some y)"
proof -
  obtain go s where gs: "gs = (go, s)" by fastforce
  show ?thesis
  proof (cases go)
    case None
    then have s: "ok s" "cur s = cur s0" "strm s = strm s0" using assms(1) gs by (simp_all add: optional_guarding_def)
    obtain g t where "new_StreamGuard C y s = (Inr g, t)" "guarding_stream s g t" "current_stream g = y"
      using new_stream_guarding [OF s(1) assms(2)] by blast
    then show ?thesis
      using None gs guarding_stream_view [OF _ s(2,3) assms(3)]
      by (simp add: optional_reset_stream_def bindm_def emplace_def optional_guarding_def)
  next
    case (Some g)
    then have "guarding_stream s0 g s" using assms(1) gs by (simp add: optional_guarding_def)
    then show ?thesis
      using reset_stream_guarding [OF _ assms(2)] Some gs
      by (fastforce simp: optional_reset_stream_def bindm_def on_some_def optional_guarding_def)
  qed
qed

lemma optional_stream_reset_guarding:
  assumes "optional_guarding s0 gs x" "ok s0"
  shows "\<exists>t. optional_stream_reset gs = (Inr (), (None, t)) \<and> ok t \<and> cur t = cur s0 \<and> strm t = strm s0"
proof -
  obtain go s where gs: "gs = (go, s)" by fastforce
  show ?thesis
  proof (cases go)
    case None
    then show ?thesis using assms gs by (simp add: optional_guarding_def optional_stream_reset_def destroy_def)
  next
    case (Some g)
    then have "guarding_stream s0 g s" using assms(1) gs by (simp add: optional_guarding_def)
    then show ?thesis
      using delete_stream_guarding Some gs
      by (fastforce simp: optional_stream_reset_def destroy_def)
  qed
qed

lemma guard_ops_guarding:
  assumes "optional_guarding s0 gs x" "ok s0" "list_all (op_ok usable_stream) ops"
  shows "\<exists>ht. foreach (stream_guard_op C) ops gs = (Inr (), ht) \<and> optional_guarding s0 ht (asked_last x ops)"
  using assms
proof (induction ops arbitrary: gs x)
  case Nil
  then show ?case by simp
next
  case (Cons a ops)
  have "\<exists>ht. stream_guard_op C a gs = (Inr (), ht) \<and>
      optional_guarding s0 ht (case a of ResetStream y \<Rightarrow> Some y | Reset \<Rightarrow> None)"
  proof (cases a)
    case (ResetStream y)
    then show ?thesis using optional_reset_stream_guarding [OF Cons.prems(1) _ Cons.prems(2)] Cons.prems(3) by simp
  next
    case Reset
    then show ?thesis
      using optional_stream_reset_guarding [OF Cons.prems(1,2)] by (auto simp: optional_guarding_def)
  qed
  then obtain ht where "stream_guard_op C a gs = (Inr (), ht)"
    "optional_guarding s0 ht (case a of ResetStream y \<Rightarrow> Some y | Reset \<Rightarrow> None)" by blast
  moreover have "asked_last x (a # ops) = asked_last (case a of ResetStream y \<Rightarrow> Some y | Reset \<Rightarrow> None) ops"
    by (cases a) simp_all
  ultimately show ?case using Cons.IH [of ht] Cons.prems(2,3) by simp
qed

theorem stream_guard_restores:
  assumes "ok s" "list_all (op_ok usable_stream) ops"
  shows "\<exists>g t u. foreach (stream_guard_op C) ops (None, s) = (Inr (), (g, t)) \<and>
    (\<forall>x \<in> set_option (asked_last None ops).
       cur t (dev_type (st_device x)) = dev_index (st_device x) \<and> strm t (st_device x) = st_id x) \<and>
    optional_stream_reset (g, t) = (Inr (), (None, u)) \<and> ok t \<and> ok u \<and> cur u = cur s \<and> strm u = strm s"
proof -
  have start: "optional_guarding s (None, s) None" using assms(1) by (simp add: optional_guarding_def)
  obtain g t where run: "foreach (stream_guard_op C) ops (None, s) = (Inr (), (g, t))"
    and og: "optional_guarding s (g, t) (asked_last None ops)"
    using guard_ops_guarding [OF start assms] by auto
  obtain u where u: "optional_stream_reset (g, t) = (Inr (), (None, u))" "ok u" "cur u = cur s" "strm u = strm s"
    using optional_stream_reset_guarding [OF og assms(1)] by blast
  have "cur t (dev_type (st_device x)) = dev_index (st_device x) \<and> strm t (st_device x) = st_id x"
    if "asked_last None ops = Some x" for x
    using og that by (cases g) (auto simp: optional_guarding_def guarding_stream_def guarding_def Let_def)
  moreover have "ok t"
    using og by (cases g) (auto simp: optional_guarding_def guarding_stream_def guarding_def Let_def)
  ultimately show ?thesis using run u by (cases "asked_last None ops") auto
qed

end

section \<open>The fake implementation meets the contract\<close>

definition fake_registry :: "fake_state guard_registry" where
  "fake_registry t = (if registry_slot t then Some (FakeGuardImpl t) else None)"

definition fake_usable :: "Device \<Rightarrow> bool" where
  "fake_usable d \<longleftrightarrow> registry_slot (dev_type d) \<and> below_max (dev_index d) \<and> Device_valid d"

definition fake_ok :: "fake_state \<Rightarrow> bool" where
  "fake_ok s \<longleftrightarrow> (\<forall>t. below_max (fake_device s t) \<and> Device_valid (dev t (fake_device s t)) \<and>
     length (fake_streams s t) = kFakeGuardImplMaxDevices)"

definition fake_strm :: "fake_state \<Rightarrow> Device \<Rightarrow> StreamId" where
  "fake_strm s d = (if below_max (dev_index d) then fake_streams s (dev_type d) ! nat (sint (dev_index d)) else 0)"

lemma fake_get_run:
  assumes "fake_ok s"
  shows "fake_getDevice T s = (Inr (dev T (fake_device s T)), s)"
proof -
  have "mk_Device T (fake_device s T) = Inr (dev T (fake_device s T))"
    using assms validate_iff [of "dev T (fake_device s T)"] by (simp add: mk_Device_def fake_ok_def)
  then show ?thesis by (simp add: fake_getDevice_def bindm_def)
qed

lemma fake_assign_run: "fake_assign T i s = (Inr (), s\<lparr>fake_device := (fake_device s)(T := i)\<rparr>)"
  by (simp add: fake_assign_def)

lemma fake_ok_assign:
  assumes "fake_ok s" "fake_usable d"
  shows "fake_ok (s\<lparr>fake_device := (fake_device s)(dev_type d := dev_index d)\<rparr>)"
  using assms by (auto simp: fake_ok_def fake_usable_def Device_valid_def)

lemma below_max_inj: "below_max i \<Longrightarrow> below_max j \<Longrightarrow> nat (sint i) = nat (sint j) \<longleftrightarrow> i = j"
  unfolding below_max_def by (metis nat_0_le signed_word_eqI)

lemma fake_strm_update:
  assumes "fake_ok s" "fake_usable d"
  shows "fake_strm (s\<lparr>fake_streams := (fake_streams s)(dev_type d := (fake_streams s (dev_type d))[nat (sint (dev_index d)) := i])\<rparr>)
    = (fake_strm s)(d := i)"
proof
  fix e
  have b: "below_max (dev_index d)" and l: "length (fake_streams s (dev_type d)) = kFakeGuardImplMaxDevices"
    using assms by (simp_all add: fake_usable_def fake_ok_def)
  have "nat (sint (dev_index d)) < length (fake_streams s (dev_type d))"
    using b l by (simp add: below_max_def)
  then show "fake_strm (s\<lparr>fake_streams := (fake_streams s)(dev_type d := (fake_streams s (dev_type d))[nat (sint (dev_index d)) := i])\<rparr>) e
    = ((fake_strm s)(d := i)) e"
    using b below_max_inj [OF b, of "dev_index e"] by (auto simp: fake_strm_def)
qed

lemma fake_state_eqI:
  assumes "fake_ok s" "fake_ok t" "fake_device t = fake_device s" "fake_strm t = fake_strm s"
  shows "t = s"
proof -
  have "fake_streams t T ! k = fake_streams s T ! k" if "k < kFakeGuardImplMaxDevices" for T k
  proof -
    have "sint (word_of_nat k :: 16 word) = int k"
      using that by (simp add: kFakeGuardImplMaxDevices_def signed_of_nat signed_take_bit_int_eq_self)
    then have "below_max (word_of_nat k)" "nat (sint (word_of_nat k :: 16 word)) = k"
      using that by (simp_all add: below_max_def)
    then show ?thesis using fun_cong [OF assms(4), of "dev T (word_of_nat k)"] by (simp add: fake_strm_def)
  qed
  then have "fake_streams t = fake_streams s"
    using assms(1,2) by (intro ext nth_equalityI) (simp_all add: fake_ok_def)
  then show ?thesis using assms(3) by (cases s; cases t) simp
qed

lemmas fake_run = FakeGuardImpl_def fake_exchangeDevice_def fake_setDevice_def fake_uncheckedSetDevice_def
  fake_getStream_def fake_exchangeStream_def fake_subscript_def fake_assign_def seqm_def bindm_def

interpretation fake_guards: stream_provider "VirtualGuard fake_registry" FakeGuardImpl fake_ok fake_usable fake_device
  fake_strm "fake_usable \<circ> st_device"
proof
  fix d :: Device
  assume d: "fake_usable d"
  then have slot: "registry_slot (dev_type d)" and b: "below_max (dev_index d)" by (simp_all add: fake_usable_def)
  show "make_impl (VirtualGuard fake_registry) (dev_type d) = Inr (FakeGuardImpl (dev_type d))"
    using slot by (simp add: getDeviceGuardImpl_def fake_registry_def)
  show "dev_index d \<noteq> -1" using b by (auto simp: below_max_def)
  fix s assume s: "fake_ok s"
  show "fake_usable (dev (dev_type d) (fake_device s (dev_type d)))"
    using s slot by (simp add: fake_usable_def fake_ok_def)
  show "\<exists>t. exchangeDevice (FakeGuardImpl (dev_type d)) d s = (Inr (dev (dev_type d) (fake_device s (dev_type d))), t) \<and>
      fake_ok t \<and> fake_device t = (fake_device s)(dev_type d := dev_index d) \<and> fake_strm t = fake_strm s"
  proof (cases "fake_device s (dev_type d) = dev_index d")
    case True
    then show ?thesis using s b by (auto simp: fake_run fake_get_run)
  next
    case False
    then show ?thesis using s b fake_ok_assign [OF s d] by (simp add: fake_run fake_get_run fake_strm_def fun_eq_iff)
  qed
  show "\<exists>t. setDevice (FakeGuardImpl (dev_type d)) d s = (Inr (), t) \<and>
      fake_ok t \<and> fake_device t = (fake_device s)(dev_type d := dev_index d) \<and> fake_strm t = fake_strm s"
    using b fake_ok_assign [OF s d] by (simp add: fake_run fake_strm_def fun_eq_iff below_max_def)
  show "\<exists>t. uncheckedSetDevice (FakeGuardImpl (dev_type d)) d s = (Inr (), t) \<and>
      fake_ok t \<and> fake_device t = (fake_device s)(dev_type d := dev_index d) \<and> fake_strm t = fake_strm s"
    using fake_ok_assign [OF s d] by (simp add: fake_run fake_strm_def fun_eq_iff)
  show "(fake_usable \<circ> st_device) \<lparr>st_device = d, st_id = fake_strm s d\<rparr>" using d by simp
  show "\<exists>x. getStream (FakeGuardImpl (dev_type d)) d s = (Inr x, s)"
    using b by (simp add: fake_run noexcept_def)
next
  fix x :: Stream and s assume s: "fake_ok s" and x: "(fake_usable \<circ> st_device) x"
  let ?d = "st_device x"
  have b: "below_max (dev_index ?d)" using x by (simp add: fake_usable_def)
  have "fake_ok (s\<lparr>fake_streams := (fake_streams s)(dev_type ?d := (fake_streams s (dev_type ?d))[nat (sint (dev_index ?d)) := st_id x])\<rparr>)"
    using s by (simp add: fake_ok_def)
  then show "\<exists>t. exchangeStream (FakeGuardImpl (dev_type ?d)) x s = (Inr \<lparr>st_device = ?d, st_id = fake_strm s ?d\<rparr>, t) \<and>
      fake_ok t \<and> fake_device t = fake_device s \<and> fake_strm t = (fake_strm s)(?d := st_id x)"
    using b fake_strm_update [OF s, of ?d] x by (simp add: fake_run noexcept_def fake_strm_def)
qed simp_all

text \<open>
  Property C24. The optional stream guard over the fake implementation: after any sequence of \<open>reset_stream\<close> calls with
  streams of existing devices, of any mix of device types, and of \<open>reset\<close> calls, the stream asked for last is the
  current stream of its device and that device the current one; no call throws; and destroying the guard leaves the
  current device of every type and every current stream exactly as they were before the guard was first initialised.
\<close>

theorem fake_stream_guard_restores:
  assumes "fake_ok s" "list_all (op_ok (fake_usable \<circ> st_device)) ops"
  shows "\<exists>g t. foreach (stream_guard_op (VirtualGuard fake_registry)) ops (None, s) = (Inr (), (g, t)) \<and>
    (\<forall>x \<in> set_option (asked_last None ops).
       fake_device t (dev_type (st_device x)) = dev_index (st_device x) \<and>
       fake_streams t (dev_type (st_device x)) ! nat (sint (dev_index (st_device x))) = st_id x) \<and>
    optional_stream_reset (g, t) = (Inr (), (None, s))"
proof -
  obtain g t u where r: "foreach (stream_guard_op (VirtualGuard fake_registry)) ops (None, s) = (Inr (), (g, t))"
      "\<forall>x \<in> set_option (asked_last None ops). fake_device t (dev_type (st_device x)) = dev_index (st_device x) \<and>
         fake_strm t (st_device x) = st_id x"
      "optional_stream_reset (g, t) = (Inr (), (None, u))" "fake_ok u" "fake_device u = fake_device s" "fake_strm u = fake_strm s"
    using fake_guards.stream_guard_restores [OF assms] by blast
  have "fake_strm t (st_device x) = fake_streams t (dev_type (st_device x)) ! nat (sint (dev_index (st_device x)))"
    if "asked_last None ops = Some x" for x
    using asked_last_ok [OF assms(2) that] by (simp add: fake_strm_def fake_usable_def)
  moreover have "u = s" by (rule fake_state_eqI [OF assms(1) r(4-6)])
  ultimately show ?thesis using r(1-3) by auto
qed

theorem fake_stream_guard_restores_witness:
  "\<exists>g t. foreach (stream_guard_op (VirtualGuard fake_registry))
      [ResetStream \<lparr>st_device = dev CUDA 1, st_id = 7\<rparr>, ResetStream \<lparr>st_device = dev HIP 2, st_id = 9\<rparr>]
      (None, new_fake_state) = (Inr (), (g, t)) \<and>
    fake_device t HIP = 2 \<and> fake_streams t HIP ! 2 = 9 \<and>
    optional_stream_reset (g, t) = (Inr (), (None, new_fake_state))"
  using fake_stream_guard_restores [of new_fake_state
      "[ResetStream \<lparr>st_device = dev CUDA 1, st_id = 7\<rparr>, ResetStream \<lparr>st_device = dev HIP 2, st_id = 9\<rparr>]"]
  by (simp add: fake_ok_def new_fake_state_def below_max_def kFakeGuardImplMaxDevices_def Device_valid_def
      fake_usable_def registry_slot_def)

text \<open>
  When \<open>exchangeDevice\<close> throws while \<open>reset_device\<close> moves a guard to another device type, the guard already holds the
  new implementation but still the original device of the old type: here CUDA was on device 3, \<open>reset_device(hip:9)\<close>
  throws, and the destructor then moves HIP from device 5 to device 3.
\<close>

definition guard_on_cuda :: "fake_state" where
  "guard_on_cuda = new_fake_state\<lparr>fake_device := (\<lambda>_. 0)(CUDA := 3, HIP := 5)\<rparr>"

lemma failed_reset_disturbs_other_type:
  "\<exists>g s h t e. new_DeviceGuard (VirtualGuard fake_registry) (dev CUDA 1) guard_on_cuda = (Inr g, s) \<and>
     reset_device (VirtualGuard fake_registry) (dev HIP 9) None (g, s) = (Inl e, (h, t)) \<and> fake_device t HIP = 5 \<and>
     (\<exists>u. delete_DeviceGuard h t = (Inr (), u) \<and> fake_device u HIP = 3)"
  by (simp add: new_DeviceGuard_def new_DeviceGuard_impl_def getDeviceGuardImpl_def fake_registry_def registry_slot_def
      fake_run guard_on_cuda_def new_fake_state_def reset_device_def reset_device_virtual_def guard_get_def call_impl_def
      assign_guard_def delete_DeviceGuard_def below_max_def kFakeGuardImplMaxDevices_def fake_getDevice_def mk_Device_def
      validate_def is_cpu_def)

end
