(* ===== verification/Cuda_Streams.thy ===== *)
theory Cuda_Streams
  imports Guard_Contracts
begin

text \<open>
  The CUDA stream pools (c10/cuda/CUDAStream.cpp), the wrappers of c10/cuda/CUDAFunctions.h and the guard
  implementation of c10/cuda/impl/CUDAGuardImpl.h, as one thread sees them: the global arrays are shared, the
  thread-local \<open>current_streams\<close> and the current CUDA device are those of the calling thread. A
  \<open>LeakyStreamInternals*\<close> is the array it points into with its subscripts. The CUDA runtime is an argument.
\<close>

section \<open>The CUDA runtime\<close>

datatype stream_error = StreamSuccess | StreamFailure nat

type_synonym ('d, 'a) runtime_fun = "'d \<Rightarrow> (stream_error \<times> 'a) \<times> 'd"

record 'd cuda_runtime =
  rt_GetDevice :: "('d, int) runtime_fun"
  rt_SetDevice :: "int \<Rightarrow> ('d, unit) runtime_fun"
  rt_GetDeviceCount :: "('d, int) runtime_fun"
  rt_GetLastError :: "('d, unit) runtime_fun"
  rt_StreamCreateWithPriority :: "int \<Rightarrow> ('d, nat) runtime_fun"

section \<open>State\<close>

definition C10_COMPILE_TIME_MAX_GPUS :: nat where "C10_COMPILE_TIME_MAX_GPUS = 16"
definition kStreamsPerPoolBits :: nat where "kStreamsPerPoolBits = 5"
definition kStreamsPerPool :: nat where "kStreamsPerPool = 2 ^ kStreamsPerPoolBits"
definition kHighPriority :: int where "kHighPriority = -1"
definition kLowPriority :: int where "kLowPriority = 0"

record LeakyStreamInternals =
  ls_device_index :: DeviceIndex
  ls_stream_id :: "32 word"
  ls_stream :: nat

datatype stream_ptr = DefaultStream nat | LowStream nat nat | HighStream nat nat

record 'd cuda_streams =
  num_gpus :: DeviceIndex
  init_flag :: bool
  device_flags :: "nat \<Rightarrow> bool"
  low_priority_counters :: "nat \<Rightarrow> 32 word"
  high_priority_counters :: "nat \<Rightarrow> 32 word"
  internals :: "stream_ptr \<Rightarrow> LeakyStreamInternals"
  current_streams :: "stream_ptr list option"
  runtime :: 'd

definition new_cuda_streams :: "'d \<Rightarrow> 'd cuda_streams" where
  "new_cuda_streams d = \<lparr>num_gpus = -1, init_flag = False, device_flags = (\<lambda>_. False),
     low_priority_counters = (\<lambda>_. 0), high_priority_counters = (\<lambda>_. 0),
     internals = (\<lambda>_. \<lparr>ls_device_index = -1, ls_stream_id = -1, ls_stream = 0\<rparr>), current_streams = None, runtime = d\<rparr>"

type_synonym ('d, 'a) cmon = "('d cuda_streams, 'a) mon"

definition rt_call :: "('d, 'a) runtime_fun \<Rightarrow> ('d, stream_error \<times> 'a) cmon" where
  "rt_call f = (\<lambda>s. case f (runtime s) of (r, d) \<Rightarrow> (Inr r, s\<lparr>runtime := d\<rparr>))"

definition rt_check :: "'d cuda_runtime \<Rightarrow> ('d, 'a) runtime_fun \<Rightarrow> ('d, 'a) cmon" where
  "rt_check api f = bindm (rt_call f) (\<lambda>(err, x). if err = StreamSuccess then ret x
     else seqm (rt_call (rt_GetLastError api)) (throw (C10Error ''CUDA error'')))"

section \<open>CUDAFunctions.h\<close>

definition device_count :: "'d cuda_runtime \<Rightarrow> ('d, DeviceIndex) cmon" where
  "device_count api = bindm (rt_call (rt_GetDeviceCount api)) (\<lambda>(err, count).
     if err \<noteq> StreamSuccess then seqm (rt_call (rt_GetLastError api)) (ret 0) else ret (word_of_int count))"

definition cuda_current_device :: "'d cuda_runtime \<Rightarrow> ('d, DeviceIndex) cmon" where
  "cuda_current_device api = bindm (rt_check api (rt_GetDevice api)) (\<lambda>cur_device. ret (word_of_int cur_device))"

definition cuda_set_device :: "'d cuda_runtime \<Rightarrow> DeviceIndex \<Rightarrow> ('d, unit) cmon" where
  "cuda_set_device api device = rt_check api (rt_SetDevice api (sint device))"

section \<open>Stream numbers\<close>

datatype StreamIdType = DEFAULT | LOW | HIGH | OtherStreamIdType "8 word"

fun StreamIdType_uint8 :: "StreamIdType \<Rightarrow> 8 word" where
  "StreamIdType_uint8 DEFAULT = 0"
| "StreamIdType_uint8 LOW = 1"
| "StreamIdType_uint8 HIGH = 2"
| "StreamIdType_uint8 (OtherStreamIdType v) = v"

definition StreamIdType_of_uint8 :: "8 word \<Rightarrow> StreamIdType" where
  "StreamIdType_of_uint8 v = (if v = 0 then DEFAULT else if v = 1 then LOW else if v = 2 then HIGH else OtherStreamIdType v)"

definition streamIdType :: "StreamId \<Rightarrow> StreamIdType" where
  "streamIdType s = StreamIdType_of_uint8 (ucast (signed_drop_bit kStreamsPerPoolBits s))"

definition streamIdIndex :: "StreamId \<Rightarrow> nat" where
  "streamIdIndex s = unat (s AND (2 ^ kStreamsPerPoolBits - 1))"

definition makeStreamId :: "StreamIdType \<Rightarrow> nat \<Rightarrow> StreamId" where
  "makeStreamId st si = push_bit kStreamsPerPoolBits (ucast (StreamIdType_uint8 st)) OR word_of_nat si"

text \<open>The subscript of one of the arrays with an entry for each GPU.\<close>

definition gpu_subscript :: "DeviceIndex \<Rightarrow> ('s, nat) mon" where
  "gpu_subscript i = (if 0 \<le> sint i \<and> nat (sint i) < C10_COMPILE_TIME_MAX_GPUS then ret (nat (sint i))
     else throw UndefinedBehaviour)"

definition stream_id_of :: "stream_ptr \<Rightarrow> nat \<Rightarrow> StreamId result" where
  "stream_id_of p d = (case p of
     DefaultStream k \<Rightarrow> if k = d then Inr (makeStreamId DEFAULT 0) else Inl (C10Error ''Could not compute stream ID'')
   | LowStream k i \<Rightarrow> if k = d then Inr (makeStreamId LOW i) else Inl (C10Error ''Could not compute stream ID'')
   | HighStream k i \<Rightarrow> if k = d then Inr (makeStreamId HIGH i) else Inl (C10Error ''Could not compute stream ID''))"

definition CUDAStream_getStreamId :: "stream_ptr \<Rightarrow> ('d, StreamId) cmon" where
  "CUDAStream_getStreamId p = bindm (gets (\<lambda>s. ls_device_index (internals s p))) (\<lambda>device_index.
     bindm (gpu_subscript device_index) (\<lambda>d. lift_result (stream_id_of p d)))"

definition CUDAStream_internals :: "Stream \<Rightarrow> ('s, stream_ptr) mon" where
  "CUDAStream_internals s = (let si = streamIdIndex (st_id s) in case streamIdType (st_id s) of
     DEFAULT \<Rightarrow> if si = 0 then bindm (gpu_subscript (dev_index (st_device s))) (\<lambda>d. ret (DefaultStream d))
       else throw (C10Error ''Unrecognized stream (I think this should be the default stream)'')
   | LOW \<Rightarrow> bindm (gpu_subscript (dev_index (st_device s))) (\<lambda>d. ret (LowStream d si))
   | HIGH \<Rightarrow> bindm (gpu_subscript (dev_index (st_device s))) (\<lambda>d. ret (HighStream d si))
   | OtherStreamIdType _ \<Rightarrow> throw (C10Error ''Unrecognized stream (I did not recognize the stream type)''))"

definition CUDAStream_fromInternals :: "stream_ptr \<Rightarrow> ('d, Stream) cmon" where
  "CUDAStream_fromInternals p = bindm (gets (\<lambda>s. ls_device_index (internals s p))) (\<lambda>i.
     bindm (lift_result (mk_Device CUDA i)) (\<lambda>device.
     bindm (CUDAStream_getStreamId p) (\<lambda>n. ret \<lparr>st_device = device, st_id = n\<rparr>)))"

definition CUDAStream_stream :: "Stream \<Rightarrow> ('d, nat) cmon" where
  "CUDAStream_stream s = bindm (CUDAStream_internals s) (\<lambda>p. gets (\<lambda>s. ls_stream (internals s p)))"

section \<open>Initialisation\<close>

definition upd_internals :: "stream_ptr \<Rightarrow> (LeakyStreamInternals \<Rightarrow> LeakyStreamInternals) \<Rightarrow> ('d, unit) cmon" where
  "upd_internals p f = modify (\<lambda>s. s\<lparr>internals := (internals s)(p := f (internals s p))\<rparr>)"

definition call_once :: "('d cuda_streams \<Rightarrow> bool) \<Rightarrow> ('d cuda_streams \<Rightarrow> 'd cuda_streams) \<Rightarrow> ('d, unit) cmon \<Rightarrow> ('d, unit) cmon" where
  "call_once flag raise m = bindm (gets flag) (\<lambda>f. if f then ret () else seqm m (modify raise))"

definition initGlobalStreamState :: "'d cuda_runtime \<Rightarrow> ('d, unit) cmon" where
  "initGlobalStreamState api = bindm (device_count api) (\<lambda>n.
     seqm (modify (num_gpus_update (\<lambda>_. n)))
     (seqm (if sint n \<le> int C10_COMPILE_TIME_MAX_GPUS then ret ()
            else throw (C10Error ''Number of CUDA devices on the machine is larger than the compiled max number of gpus''))
     (foreach (\<lambda>i. seqm (upd_internals (DefaultStream i) (ls_device_index_update (\<lambda>_. word_of_nat i)))
        (modify (\<lambda>s. s\<lparr>low_priority_counters := (low_priority_counters s)(i := 0),
           high_priority_counters := (high_priority_counters s)(i := 0)\<rparr>))) [0..<nat (sint n)])))"

text \<open>\<open>malloc\<close> of the size of a negative number of entries, converted to \<open>size_t\<close>, returns a null pointer.\<close>

definition initCUDAStreamsOnce :: "'d cuda_runtime \<Rightarrow> ('d, unit) cmon" where
  "initCUDAStreamsOnce api = seqm (call_once init_flag (init_flag_update (\<lambda>_. True)) (initGlobalStreamState api))
     (modify (\<lambda>s. case current_streams s of Some _ \<Rightarrow> s
       | None \<Rightarrow> if sint (num_gpus s) < 0 then s
           else s\<lparr>current_streams := Some (map DefaultStream [0..<nat (sint (num_gpus s))])\<rparr>))"

definition check_gpu :: "DeviceIndex \<Rightarrow> ('d, unit) cmon" where
  "check_gpu i = bindm (gets num_gpus) (\<lambda>n. assertm (0 \<le> sint i \<and> sint i < sint n))"

section \<open>The guard implementation\<close>

definition cuda_getDevice :: "'d cuda_runtime \<Rightarrow> ('d, Device) cmon" where
  "cuda_getDevice api = bindm (rt_check api (rt_GetDevice api)) (\<lambda>device.
     lift_result (mk_Device CUDA (word_of_int device)))"

definition cuda_exchangeDevice :: "'d cuda_runtime \<Rightarrow> Device \<Rightarrow> ('d, Device) cmon" where
  "cuda_exchangeDevice api d = seqm (assertm (dev_type d = CUDA)) (bindm (cuda_getDevice api) (\<lambda>old_device.
     seqm (if dev_index old_device \<noteq> dev_index d then rt_check api (rt_SetDevice api (sint (dev_index d))) else ret ())
       (ret old_device)))"

definition cuda_setDevice :: "'d cuda_runtime \<Rightarrow> Device \<Rightarrow> ('d, unit) cmon" where
  "cuda_setDevice api d = seqm (assertm (dev_type d = CUDA)) (rt_check api (rt_SetDevice api (sint (dev_index d))))"

text \<open>A failure is only reported with a warning.\<close>

definition cuda_uncheckedSetDevice :: "'d cuda_runtime \<Rightarrow> Device \<Rightarrow> ('d, unit) cmon" where
  "cuda_uncheckedSetDevice api d = bindm (rt_call (rt_SetDevice api (sint (dev_index d)))) (\<lambda>_. ret ())"

text \<open>
  The pools of a device are filled under a \<open>CUDAGuard\<close>, which is an \<open>InlineDeviceGuard<CUDAGuardImpl>\<close> and uses only
  the device functions of the implementation; the stream functions are added to it below.
\<close>

definition CUDAGuardImpl_with ::
  "'d cuda_runtime \<Rightarrow> (Device \<Rightarrow> ('d, Stream) cmon) \<Rightarrow> (Stream \<Rightarrow> ('d, Stream) cmon) \<Rightarrow> 'd cuda_streams guard_impl" where
  "CUDAGuardImpl_with api get exchange = \<lparr>impl_type = CUDA, exchangeDevice = cuda_exchangeDevice api,
     getDevice = cuda_getDevice api, setDevice = cuda_setDevice api, uncheckedSetDevice = cuda_uncheckedSetDevice api,
     getStream = get, exchangeStream = exchange, deviceCount = noexcept (device_count api)\<rparr>"

definition new_CUDAGuardImpl :: "'s guard_impl \<Rightarrow> DeviceType \<Rightarrow> 's guard_impl result" where
  "new_CUDAGuardImpl i t = (if t = CUDA then Inr i else Inl (C10Error ''ASSERT FAILED''))"

definition fill_pool_entry :: "'d cuda_runtime \<Rightarrow> DeviceIndex \<Rightarrow> nat \<Rightarrow> nat \<Rightarrow> ('d, unit) cmon" where
  "fill_pool_entry api device_index d i =
     seqm (upd_internals (LowStream d i) (ls_device_index_update (\<lambda>_. device_index)))
     (seqm (upd_internals (HighStream d i) (ls_device_index_update (\<lambda>_. device_index)))
     (seqm (bindm (rt_check api (rt_StreamCreateWithPriority api kLowPriority)) (\<lambda>x.
        upd_internals (LowStream d i) (ls_stream_update (\<lambda>_. x))))
     (bindm (rt_check api (rt_StreamCreateWithPriority api kHighPriority)) (\<lambda>x.
        upd_internals (HighStream d i) (ls_stream_update (\<lambda>_. x))))))"

definition initDeviceStreamState :: "'d cuda_runtime \<Rightarrow> DeviceIndex \<Rightarrow> ('d, unit) cmon" where
  "initDeviceStreamState api device_index =
     bindm (new_DeviceGuard_index (StaticGuard CUDA (new_CUDAGuardImpl
         (CUDAGuardImpl_with api (\<lambda>_. throw UndefinedBehaviour) (\<lambda>_. throw UndefinedBehaviour)))) device_index) (\<lambda>device_guard.
       finallym (bindm (gpu_subscript device_index) (\<lambda>d.
           foreach (fill_pool_entry api device_index d) [0..<kStreamsPerPool]))
         (delete_DeviceGuard device_guard))"

section \<open>The interface of the streams\<close>

definition get_idx :: "32 word \<Rightarrow> nat \<times> 32 word" where
  "get_idx counter = (unat (counter mod word_of_nat kStreamsPerPool), counter + 1)"

definition default_to_current :: "'d cuda_runtime \<Rightarrow> DeviceIndex \<Rightarrow> ('d, DeviceIndex) cmon" where
  "default_to_current api i = bindm (if i = -1 then cuda_current_device api else ret i) (\<lambda>k. seqm (check_gpu k) (ret k))"

definition getStreamFromPool :: "'d cuda_runtime \<Rightarrow> bool \<Rightarrow> DeviceIndex \<Rightarrow> ('d, Stream) cmon" where
  "getStreamFromPool api isHighPriority device_index =
     seqm (initCUDAStreamsOnce api) (bindm (default_to_current api device_index) (\<lambda>k. bindm (gpu_subscript k) (\<lambda>d.
       seqm (call_once (\<lambda>s. device_flags s d) (\<lambda>s. s\<lparr>device_flags := (device_flags s)(d := True)\<rparr>) (initDeviceStreamState api k))
       (if isHighPriority then
          bindm (gets (\<lambda>s. high_priority_counters s d)) (\<lambda>c.
          seqm (modify (\<lambda>s. s\<lparr>high_priority_counters := (high_priority_counters s)(d := snd (get_idx c))\<rparr>))
            (CUDAStream_fromInternals (HighStream d (fst (get_idx c)))))
        else
          bindm (gets (\<lambda>s. low_priority_counters s d)) (\<lambda>c.
          seqm (modify (\<lambda>s. s\<lparr>low_priority_counters := (low_priority_counters s)(d := snd (get_idx c))\<rparr>))
            (CUDAStream_fromInternals (LowStream d (fst (get_idx c)))))))))"

definition getDefaultCUDAStream :: "'d cuda_runtime \<Rightarrow> DeviceIndex \<Rightarrow> ('d, Stream) cmon" where
  "getDefaultCUDAStream api device_index = seqm (initCUDAStreamsOnce api)
     (bindm (default_to_current api device_index) (\<lambda>k. bindm (gpu_subscript k) (\<lambda>d.
        CUDAStream_fromInternals (DefaultStream d))))"

definition getCurrentCUDAStream :: "'d cuda_runtime \<Rightarrow> DeviceIndex \<Rightarrow> ('d, Stream) cmon" where
  "getCurrentCUDAStream api device_index = seqm (initCUDAStreamsOnce api)
     (bindm (default_to_current api device_index) (\<lambda>k. bindm (gets current_streams) (\<lambda>cs.
        case cs of Some ps \<Rightarrow> if 0 \<le> sint k \<and> nat (sint k) < length ps then CUDAStream_fromInternals (ps ! nat (sint k))
            else throw UndefinedBehaviour
        | None \<Rightarrow> throw UndefinedBehaviour)))"

definition setCurrentCUDAStream :: "'d cuda_runtime \<Rightarrow> Stream \<Rightarrow> ('d, unit) cmon" where
  "setCurrentCUDAStream api stream = seqm (initCUDAStreamsOnce api)
     (bindm (CUDAStream_internals stream) (\<lambda>p. bindm (gets (\<lambda>s. (ls_device_index (internals s p), current_streams s))) (\<lambda>(k, cs).
        case cs of Some ps \<Rightarrow> if 0 \<le> sint k \<and> nat (sint k) < length ps
            then modify (current_streams_update (\<lambda>_. Some (ps[nat (sint k) := p])))
            else throw UndefinedBehaviour
        | None \<Rightarrow> throw UndefinedBehaviour)))"

definition new_CUDAStream :: "Stream \<Rightarrow> Stream result" where
  "new_CUDAStream s = (if dev_type (st_device s) = CUDA then Inr s else Inl (C10Error ''''))"

definition cuda_getStream :: "'d cuda_runtime \<Rightarrow> Device \<Rightarrow> ('d, Stream) cmon" where
  "cuda_getStream api d = noexcept (getCurrentCUDAStream api (-1))"

definition cuda_exchangeStream :: "'d cuda_runtime \<Rightarrow> Stream \<Rightarrow> ('d, Stream) cmon" where
  "cuda_exchangeStream api s = noexcept (bindm (lift_result (new_CUDAStream s)) (\<lambda>cs.
     bindm (getCurrentCUDAStream api (dev_index (st_device s))) (\<lambda>old_stream.
     seqm (setCurrentCUDAStream api cs) (ret old_stream))))"

definition CUDAGuardImpl :: "'d cuda_runtime \<Rightarrow> 'd cuda_streams guard_impl" where
  "CUDAGuardImpl api = CUDAGuardImpl_with api (cuda_getStream api) (cuda_exchangeStream api)"

definition cuda_guard_class :: "'d cuda_runtime \<Rightarrow> 'd cuda_streams guard_class" where
  "cuda_guard_class api = StaticGuard CUDA (new_CUDAGuardImpl (CUDAGuardImpl api))"

end
