(* ===== verification/Stream_Properties.thy ===== *)
theory Stream_Properties
  imports Cuda_Streams
begin

text \<open>
  Correctness of the CUDA stream pools: stream numbers and the entries of the arrays correspond, the pools hand their
  streams out in turn, the current streams are kept per device, and the CUDA guard implementation meets the contract of
  the guards, under a contract of the CUDA runtime.
\<close>

section \<open>Stream numbers\<close>

fun ptr_id :: "stream_ptr \<Rightarrow> StreamId" where
  "ptr_id (DefaultStream _) = makeStreamId DEFAULT 0"
| "ptr_id (LowStream _ i) = makeStreamId LOW i"
| "ptr_id (HighStream _ i) = makeStreamId HIGH i"

fun ptr_ok :: "(nat \<Rightarrow> bool) \<Rightarrow> nat \<Rightarrow> stream_ptr \<Rightarrow> bool" where
  "ptr_ok pools k (DefaultStream d) \<longleftrightarrow> d = k"
| "ptr_ok pools k (LowStream d i) \<longleftrightarrow> d = k \<and> pools k \<and> i < kStreamsPerPool"
| "ptr_ok pools k (HighStream d i) \<longleftrightarrow> d = k \<and> pools k \<and> i < kStreamsPerPool"

abbreviation ix :: "nat \<Rightarrow> DeviceIndex" where
  "ix k \<equiv> word_of_nat k"

abbreviation cstream :: "nat \<Rightarrow> stream_ptr \<Rightarrow> Stream" where
  "cstream k p \<equiv> \<lparr>st_device = dev CUDA (ix k), st_id = ptr_id p\<rparr>"

lemma stream_numbers:
  "list_all (\<lambda>si. list_all (\<lambda>st. streamIdType (makeStreamId st si) = st \<and> streamIdIndex (makeStreamId st si) = si) [LOW, HIGH])
     [0..<kStreamsPerPool]"
  "streamIdType (makeStreamId DEFAULT 0) = DEFAULT" "streamIdIndex (makeStreamId DEFAULT 0) = 0"
  by code_simp+

lemma stream_number:
  assumes "si < kStreamsPerPool" "st = LOW \<or> st = HIGH"
  shows "streamIdType (makeStreamId st si) = st" "streamIdIndex (makeStreamId st si) = si"
  using assms stream_numbers(1) by (auto simp: list_all_iff)

lemma sint_ix [simp]: "k \<le> C10_COMPILE_TIME_MAX_GPUS \<Longrightarrow> sint (ix k) = int k"
  by (simp add: C10_COMPILE_TIME_MAX_GPUS_def signed_of_nat signed_take_bit_int_eq_self)

lemma ix_valid [simp]: "k < C10_COMPILE_TIME_MAX_GPUS \<Longrightarrow> mk_Device CUDA (ix k) = Inr (dev CUDA (ix k))"
  by (simp add: mk_Device_def validate_def is_cpu_def)

lemma ix_not_minus [simp]: "k < C10_COMPILE_TIME_MAX_GPUS \<Longrightarrow> ix k \<noteq> - 1"
proof
  assume "k < C10_COMPILE_TIME_MAX_GPUS" "ix k = - 1"
  then have "int k = sint (- 1 :: 16 word)" using sint_ix [of k] by simp
  then show False by simp
qed

lemma ix_inj: "j \<le> C10_COMPILE_TIME_MAX_GPUS \<Longrightarrow> k \<le> C10_COMPILE_TIME_MAX_GPUS \<Longrightarrow> ix j = ix k \<longleftrightarrow> j = k"
  by (metis nat_int sint_ix)

lemma gpu_subscript_run [simp]: "k < C10_COMPILE_TIME_MAX_GPUS \<Longrightarrow> gpu_subscript (ix k) = ret k"
  by (simp add: gpu_subscript_def)

lemma internals_run:
  assumes "ptr_ok pools k p" "k < C10_COMPILE_TIME_MAX_GPUS"
  shows "CUDAStream_internals (cstream k p) s = (Inr p, s)"
  using assms by (cases p) (simp_all add: CUDAStream_internals_def stream_number stream_numbers(2,3) bindm_def)

lemma cstream_inj:
  assumes "ptr_ok P k p" "ptr_ok Q k q" "k < C10_COMPILE_TIME_MAX_GPUS" "ptr_id p = ptr_id q"
  shows "p = q"
proof -
  have "(Inr p :: stream_ptr result, ()) = (Inr q, ())"
    by (rule trans [OF internals_run [OF assms(1,3), symmetric]]) (unfold assms(4), rule internals_run [OF assms(2,3)])
  then show ?thesis by simp
qed

section \<open>The state of the streams\<close>

definition index_ok :: "'d cuda_streams \<Rightarrow> nat \<Rightarrow> bool" where
  "index_ok s k \<longleftrightarrow> (\<forall>p. ptr_ok (device_flags s) k p \<longrightarrow> ls_device_index (internals s p) = ix k)"

definition streams_ok :: "nat \<Rightarrow> 'd cuda_streams \<Rightarrow> bool" where
  "streams_ok n s \<longleftrightarrow> init_flag s \<and> n \<le> C10_COMPILE_TIME_MAX_GPUS \<and> num_gpus s = ix n \<and> (\<forall>k<n. index_ok s k) \<and>
     (case current_streams s of None \<Rightarrow> False
      | Some ps \<Rightarrow> length ps = n \<and> (\<forall>k<n. ptr_ok (device_flags s) k (ps ! k)))"

lemma streams_okD:
  assumes "streams_ok n s"
  shows "init_flag s" "n \<le> C10_COMPILE_TIME_MAX_GPUS" "num_gpus s = ix n"
    and "k < n \<Longrightarrow> ptr_ok (device_flags s) k p \<Longrightarrow> ls_device_index (internals s p) = ix k"
    and "\<exists>ps. current_streams s = Some ps \<and> length ps = n \<and> (\<forall>k<n. ptr_ok (device_flags s) k (ps ! k))"
  using assms by (auto simp: streams_ok_def index_ok_def split: option.splits)

lemma init_once_run: "streams_ok n s \<Longrightarrow> initCUDAStreamsOnce api s = (Inr (), s)"
  by (auto simp: initCUDAStreamsOnce_def call_once_def bindm_def seqm_def streams_ok_def split: option.splits)

lemma from_internals_run:
  assumes "streams_ok n s" "k < n" "ptr_ok (device_flags s) k p"
  shows "CUDAStream_fromInternals p s = (Inr (cstream k p), s)"
proof -
  have k: "k < C10_COMPILE_TIME_MAX_GPUS" using streams_okD(2) [OF assms(1)] assms(2) by simp
  have "stream_id_of p k = Inr (ptr_id p)" using assms(3) by (cases p) (simp_all add: stream_id_of_def)
  then show ?thesis
    using k streams_okD(4) [OF assms] by (simp add: CUDAStream_fromInternals_def CUDAStream_getStreamId_def bindm_def)
qed

lemma default_to_current_run:
  assumes "streams_ok n s" "k < n"
  shows "default_to_current api (ix k) s = (Inr (ix k), s)"
  using assms streams_okD(2,3) [OF assms(1)]
  by (simp add: default_to_current_def check_gpu_def bindm_def seqm_def)

lemma get_current_run:
  assumes "streams_ok n s" "k < n"
  shows "getCurrentCUDAStream api (ix k) s = (Inr (cstream k (the (current_streams s) ! k)), s)"
proof -
  obtain ps where ps: "current_streams s = Some ps" "length ps = n" "\<forall>k<n. ptr_ok (device_flags s) k (ps ! k)"
    using streams_okD(5) [OF assms(1)] by blast
  have "ptr_ok (device_flags s) k (ps ! k)" using ps assms(2) by blast
  from from_internals_run [OF assms this] show ?thesis
    using ps assms(2) streams_okD(2) [OF assms(1)] init_once_run [OF assms(1)] default_to_current_run [OF assms]
    by (simp add: getCurrentCUDAStream_def bindm_def seqm_def)
qed

lemma set_current_run:
  assumes "streams_ok n s" "k < n" "ptr_ok (device_flags s) k p"
  shows "setCurrentCUDAStream api (cstream k p) s
      = (Inr (), s\<lparr>current_streams := Some ((the (current_streams s))[k := p])\<rparr>)"
    and "streams_ok n (s\<lparr>current_streams := Some ((the (current_streams s))[k := p])\<rparr>)"
proof -
  obtain ps where ps: "current_streams s = Some ps" "length ps = n" "\<forall>k<n. ptr_ok (device_flags s) k (ps ! k)"
    using streams_okD(5) [OF assms(1)] by blast
  have k: "k < C10_COMPILE_TIME_MAX_GPUS" using streams_okD(2) [OF assms(1)] assms(2) by simp
  show "setCurrentCUDAStream api (cstream k p) s
      = (Inr (), s\<lparr>current_streams := Some ((the (current_streams s))[k := p])\<rparr>)"
    using ps assms(2) k init_once_run [OF assms(1)] internals_run [OF assms(3) k, of s] streams_okD(4) [OF assms]
    by (simp add: setCurrentCUDAStream_def bindm_def seqm_def)
  show "streams_ok n (s\<lparr>current_streams := Some ((the (current_streams s))[k := p])\<rparr>)"
    using assms ps by (auto simp: streams_ok_def index_ok_def nth_list_update)
qed

section \<open>The contract of the CUDA runtime\<close>

text \<open>
  What the code relies on: \<open>cudaGetDevice\<close> reports the current device, which is one of the \<open>n\<close> devices;
  \<open>cudaSetDevice\<close> succeeds on each of them; \<open>cudaGetDeviceCount\<close> reports \<open>n\<close>; creating a stream succeeds and leaves the
  current device alone. \<open>rok\<close> holds of the runtime's states that occur and \<open>dcur\<close> reads the current device of one.
\<close>

definition runtime_ok :: "'d cuda_runtime \<Rightarrow> ('d \<Rightarrow> bool) \<Rightarrow> ('d \<Rightarrow> nat) \<Rightarrow> nat \<Rightarrow> bool" where
  "runtime_ok api rok dcur n \<longleftrightarrow> n \<le> C10_COMPILE_TIME_MAX_GPUS \<and> (\<forall>d. rok d \<longrightarrow>
     dcur d < n \<and> rt_GetDevice api d = ((StreamSuccess, int (dcur d)), d) \<and>
     rt_GetDeviceCount api d = ((StreamSuccess, int n), d) \<and>
     (\<forall>k<n. \<exists>e. rt_SetDevice api (int k) d = ((StreamSuccess, ()), e) \<and> rok e \<and> dcur e = k) \<and>
     (\<forall>prio. \<exists>x e. rt_StreamCreateWithPriority api prio d = ((StreamSuccess, x), e) \<and> rok e \<and> dcur e = dcur d))"

definition cuda_ok ::
  "'d cuda_runtime \<Rightarrow> ('d \<Rightarrow> bool) \<Rightarrow> ('d \<Rightarrow> nat) \<Rightarrow> nat \<Rightarrow> (nat \<Rightarrow> bool) \<Rightarrow> 'd cuda_streams \<Rightarrow> bool" where
  "cuda_ok api rok dcur n pools s \<longleftrightarrow>
     runtime_ok api rok dcur n \<and> rok (runtime s) \<and> streams_ok n s \<and> device_flags s = pools"

definition cuda_usable :: "nat \<Rightarrow> Device \<Rightarrow> bool" where
  "cuda_usable n d \<longleftrightarrow> n \<le> C10_COMPILE_TIME_MAX_GPUS \<and> (\<exists>k<n. d = dev CUDA (ix k))"

definition cuda_stream_ok :: "nat \<Rightarrow> (nat \<Rightarrow> bool) \<Rightarrow> Stream \<Rightarrow> bool" where
  "cuda_stream_ok n pools x \<longleftrightarrow> n \<le> C10_COMPILE_TIME_MAX_GPUS \<and> (\<exists>k<n. \<exists>p. ptr_ok pools k p \<and> x = cstream k p)"

definition cuda_cur :: "('d \<Rightarrow> nat) \<Rightarrow> 'd cuda_streams \<Rightarrow> DeviceType \<Rightarrow> DeviceIndex" where
  "cuda_cur dcur s t = (if t = CUDA then ix (dcur (runtime s)) else 0)"

definition cuda_strm :: "nat \<Rightarrow> 'd cuda_streams \<Rightarrow> Device \<Rightarrow> StreamId" where
  "cuda_strm n s d = (if cuda_usable n d then ptr_id (the (current_streams s) ! nat (sint (dev_index d))) else 0)"

lemma rt_check_run: "f (runtime s) = ((StreamSuccess, x), d) \<Longrightarrow> rt_check api f s = (Inr x, s\<lparr>runtime := d\<rparr>)"
  by (simp add: rt_check_def rt_call_def bindm_def)

lemma runtime_okD:
  assumes "runtime_ok api rok dcur n" "rok (runtime s)"
  shows "dcur (runtime s) < n" "n \<le> C10_COMPILE_TIME_MAX_GPUS"
    and "rt_check api (rt_GetDevice api) s = (Inr (int (dcur (runtime s))), s)"
    and "k < n \<Longrightarrow> \<exists>e. rt_SetDevice api (int k) (runtime s) = ((StreamSuccess, ()), e) \<and> rok e \<and> dcur e = k"
    and "\<exists>x e. rt_check api (rt_StreamCreateWithPriority api prio) s = (Inr x, s\<lparr>runtime := e\<rparr>) \<and> rok e \<and> dcur e = dcur (runtime s)"
    and "device_count api s = (Inr (ix n), s)"
proof -
  have r: "dcur (runtime s) < n" "rt_GetDevice api (runtime s) = ((StreamSuccess, int (dcur (runtime s))), runtime s)"
    "rt_GetDeviceCount api (runtime s) = ((StreamSuccess, int n), runtime s)"
    "\<And>k. k < n \<Longrightarrow> \<exists>e. rt_SetDevice api (int k) (runtime s) = ((StreamSuccess, ()), e) \<and> rok e \<and> dcur e = k"
    "\<exists>x e. rt_StreamCreateWithPriority api prio (runtime s) = ((StreamSuccess, x), e) \<and> rok e \<and> dcur e = dcur (runtime s)"
    using assms by (auto simp: runtime_ok_def)
  show "dcur (runtime s) < n" "n \<le> C10_COMPILE_TIME_MAX_GPUS"
    "k < n \<Longrightarrow> \<exists>e. rt_SetDevice api (int k) (runtime s) = ((StreamSuccess, ()), e) \<and> rok e \<and> dcur e = k"
    using r(1,4) assms(1) by (simp_all add: runtime_ok_def)
  show "rt_check api (rt_GetDevice api) s = (Inr (int (dcur (runtime s))), s)"
    using rt_check_run [of "rt_GetDevice api" s, OF r(2)] by simp
  show "\<exists>x e. rt_check api (rt_StreamCreateWithPriority api prio) s = (Inr x, s\<lparr>runtime := e\<rparr>) \<and> rok e \<and> dcur e = dcur (runtime s)"
    using r(5) rt_check_run [of "rt_StreamCreateWithPriority api prio" s] by (elim exE conjE) (intro exI conjI, assumption+)
  show "device_count api s = (Inr (ix n), s)"
    using r(3) by (simp add: device_count_def rt_call_def bindm_def)
qed

lemma cuda_get_device_run:
  assumes "runtime_ok api rok dcur n" "rok (runtime s)"
  shows "cuda_getDevice api s = (Inr (dev CUDA (ix (dcur (runtime s)))), s)"
  using runtime_okD(1-3) [OF assms] by (simp add: cuda_getDevice_def bindm_def)

lemma cuda_exchange_run:
  assumes "runtime_ok api rok dcur n" "rok (runtime s)" "k < n"
  shows "\<exists>e. cuda_exchangeDevice api (dev CUDA (ix k)) s = (Inr (dev CUDA (ix (dcur (runtime s)))), s\<lparr>runtime := e\<rparr>) \<and>
    rok e \<and> dcur e = k"
proof (cases "dcur (runtime s) = k")
  case True
  have "s\<lparr>runtime := runtime s\<rparr> = s" by simp
  then show ?thesis
    using True assms(2) cuda_get_device_run [OF assms(1,2)]
    by (intro exI [of _ "runtime s"]) (simp add: cuda_exchangeDevice_def bindm_def seqm_def)
next
  case False
  obtain e where e: "rt_SetDevice api (int k) (runtime s) = ((StreamSuccess, ()), e)" "rok e" "dcur e = k"
    using runtime_okD(4) [OF assms] by blast
  have "ix (dcur (runtime s)) \<noteq> ix k"
    using False ix_inj [of "dcur (runtime s)" k] runtime_okD(1,2) [OF assms(1,2)] assms(3) by simp
  moreover have "sint (ix k) = int k" using assms(3) runtime_okD(2) [OF assms(1,2)] by simp
  ultimately show ?thesis
    using e(2,3) cuda_get_device_run [OF assms(1,2)] rt_check_run [of "rt_SetDevice api (int k)" s, OF e(1)]
    by (intro exI [of _ e]) (simp add: cuda_exchangeDevice_def bindm_def seqm_def)
qed

lemma cuda_unchecked_run:
  assumes "runtime_ok api rok dcur n" "rok (runtime s)" "k < n"
  shows "\<exists>e. cuda_uncheckedSetDevice api (dev CUDA (ix k)) s = (Inr (), s\<lparr>runtime := e\<rparr>) \<and> rok e \<and> dcur e = k"
    "\<exists>e. cuda_setDevice api (dev CUDA (ix k)) s = (Inr (), s\<lparr>runtime := e\<rparr>) \<and> rok e \<and> dcur e = k"
proof -
  obtain e where e: "rt_SetDevice api (int k) (runtime s) = ((StreamSuccess, ()), e)" "rok e" "dcur e = k"
    using runtime_okD(4) [OF assms] by blast
  have i: "sint (ix k) = int k" using assms(3) runtime_okD(2) [OF assms(1,2)] by simp
  show "\<exists>e. cuda_uncheckedSetDevice api (dev CUDA (ix k)) s = (Inr (), s\<lparr>runtime := e\<rparr>) \<and> rok e \<and> dcur e = k"
    using e i by (intro exI [of _ e]) (simp add: cuda_uncheckedSetDevice_def rt_call_def bindm_def)
  show "\<exists>e. cuda_setDevice api (dev CUDA (ix k)) s = (Inr (), s\<lparr>runtime := e\<rparr>) \<and> rok e \<and> dcur e = k"
    using e i rt_check_run [of "rt_SetDevice api (int k)" s, OF e(1)]
    by (intro exI [of _ e]) (simp add: cuda_setDevice_def)
qed

lemma cuda_strm_runtime [simp]: "cuda_strm n (s\<lparr>runtime := e\<rparr>) = cuda_strm n s"
  by (simp add: cuda_strm_def fun_eq_iff)

lemma streams_ok_runtime [simp]: "streams_ok n (s\<lparr>runtime := e\<rparr>) = streams_ok n s"
  by (simp add: streams_ok_def index_ok_def split: option.splits)

lemma streams_ok_counters [simp]:
  "streams_ok n (s\<lparr>high_priority_counters := f\<rparr>) = streams_ok n s"
  "streams_ok n (s\<lparr>low_priority_counters := f\<rparr>) = streams_ok n s"
  by (simp_all add: streams_ok_def index_ok_def split: option.splits)

lemma cuda_ok_runtime: "cuda_ok api rok dcur n pools s \<Longrightarrow> rok e \<Longrightarrow> cuda_ok api rok dcur n pools (s\<lparr>runtime := e\<rparr>)"
  by (simp add: cuda_ok_def)

lemma cuda_cur_runtime: "dcur e = k \<Longrightarrow> cuda_cur dcur (s\<lparr>runtime := e\<rparr>) = (cuda_cur dcur s)(CUDA := ix k)"
  by (simp add: cuda_cur_def fun_eq_iff)

lemma cuda_exchange_stream_run:
  assumes "cuda_ok api rok dcur n pools s" "k < n" "ptr_ok pools k p"
  shows "cuda_exchangeStream api (cstream k p) s = (Inr (cstream k (the (current_streams s) ! k)),
      s\<lparr>current_streams := Some ((the (current_streams s))[k := p])\<rparr>)"
    and "cuda_ok api rok dcur n pools (s\<lparr>current_streams := Some ((the (current_streams s))[k := p])\<rparr>)"
    and "cuda_strm n (s\<lparr>current_streams := Some ((the (current_streams s))[k := p])\<rparr>)
      = (cuda_strm n s)(dev CUDA (ix k) := ptr_id p)"
proof -
  have s: "streams_ok n s" "ptr_ok (device_flags s) k p" using assms by (simp_all add: cuda_ok_def)
  show "cuda_exchangeStream api (cstream k p) s = (Inr (cstream k (the (current_streams s) ! k)),
      s\<lparr>current_streams := Some ((the (current_streams s))[k := p])\<rparr>)"
    using get_current_run [OF s(1) assms(2)] set_current_run(1) [OF s(1) assms(2) s(2)]
    by (simp add: cuda_exchangeStream_def new_CUDAStream_def bindm_def seqm_def)
  show "cuda_ok api rok dcur n pools (s\<lparr>current_streams := Some ((the (current_streams s))[k := p])\<rparr>)"
    using assms(1) set_current_run(2) [OF s(1) assms(2) s(2)] by (simp add: cuda_ok_def)
  have n: "n \<le> C10_COMPILE_TIME_MAX_GPUS" "length (the (current_streams s)) = n"
    using streams_okD(2,5) [OF s(1)] by auto
  show "cuda_strm n (s\<lparr>current_streams := Some ((the (current_streams s))[k := p])\<rparr>)
      = (cuda_strm n s)(dev CUDA (ix k) := ptr_id p)"
    using n assms(2) ix_inj by (auto simp: cuda_strm_def cuda_usable_def fun_eq_iff nth_list_update)
qed

section \<open>The CUDA guard implementation meets the contract\<close>

lemmas cuda_impl_defs = CUDAGuardImpl_def CUDAGuardImpl_with_def

lemma cuda_device_laws:
  assumes "cuda_ok api rok dcur n pools s" "cuda_usable n d"
  shows "\<exists>t. exchangeDevice (CUDAGuardImpl api) d s = (Inr (dev (dev_type d) (cuda_cur dcur s (dev_type d))), t) \<and>
      cuda_ok api rok dcur n pools t \<and> cuda_cur dcur t = (cuda_cur dcur s)(dev_type d := dev_index d) \<and>
      cuda_strm n t = cuda_strm n s"
    and "\<exists>t. setDevice (CUDAGuardImpl api) d s = (Inr (), t) \<and>
      cuda_ok api rok dcur n pools t \<and> cuda_cur dcur t = (cuda_cur dcur s)(dev_type d := dev_index d) \<and>
      cuda_strm n t = cuda_strm n s"
    and "\<exists>t. uncheckedSetDevice (CUDAGuardImpl api) d s = (Inr (), t) \<and>
      cuda_ok api rok dcur n pools t \<and> cuda_cur dcur t = (cuda_cur dcur s)(dev_type d := dev_index d) \<and>
      cuda_strm n t = cuda_strm n s"
proof -
  obtain k where d: "d = dev CUDA (ix k)" and k: "k < n" using assms(2) by (auto simp: cuda_usable_def)
  have r: "runtime_ok api rok dcur n" "rok (runtime s)" using assms(1) by (simp_all add: cuda_ok_def)
  have res: "cuda_ok api rok dcur n pools (s\<lparr>runtime := e\<rparr>) \<and>
      cuda_cur dcur (s\<lparr>runtime := e\<rparr>) = (cuda_cur dcur s)(dev_type d := dev_index d) \<and>
      cuda_strm n (s\<lparr>runtime := e\<rparr>) = cuda_strm n s" if "rok e" "dcur e = k" for e
    using cuda_ok_runtime [OF assms(1) that(1)] cuda_cur_runtime [of dcur e k s, OF that(2)] by (simp add: d)
  have c: "ix (dcur (runtime s)) = cuda_cur dcur s CUDA" by (simp add: cuda_cur_def)
  show "\<exists>t. exchangeDevice (CUDAGuardImpl api) d s = (Inr (dev (dev_type d) (cuda_cur dcur s (dev_type d))), t) \<and>
      cuda_ok api rok dcur n pools t \<and> cuda_cur dcur t = (cuda_cur dcur s)(dev_type d := dev_index d) \<and>
      cuda_strm n t = cuda_strm n s"
    using cuda_exchange_run [OF r k] res by (auto simp: cuda_impl_defs d c)
  show "\<exists>t. setDevice (CUDAGuardImpl api) d s = (Inr (), t) \<and>
      cuda_ok api rok dcur n pools t \<and> cuda_cur dcur t = (cuda_cur dcur s)(dev_type d := dev_index d) \<and>
      cuda_strm n t = cuda_strm n s"
    using cuda_unchecked_run(2) [OF r k] res by (auto simp: cuda_impl_defs d)
  show "\<exists>t. uncheckedSetDevice (CUDAGuardImpl api) d s = (Inr (), t) \<and>
      cuda_ok api rok dcur n pools t \<and> cuda_cur dcur t = (cuda_cur dcur s)(dev_type d := dev_index d) \<and>
      cuda_strm n t = cuda_strm n s"
    using cuda_unchecked_run(1) [OF r k] res by (auto simp: cuda_impl_defs d)
qed

lemma cuda_get_stream_run:
  assumes "cuda_ok api rok dcur n pools s"
  shows "cuda_getStream api d s = (Inr (cstream (dcur (runtime s)) (the (current_streams s) ! dcur (runtime s))), s)"
proof -
  have r: "runtime_ok api rok dcur n" "rok (runtime s)" "streams_ok n s" using assms by (simp_all add: cuda_ok_def)
  have cur: "cuda_current_device api s = (Inr (ix (dcur (runtime s))), s)"
    using runtime_okD(3) [OF r(1,2)] by (simp add: cuda_current_device_def bindm_def)
  have m: "ix (dcur (runtime s)) \<noteq> - 1" using runtime_okD(1,2) [OF r(1,2)] by simp
  have "default_to_current api (-1) s = default_to_current api (ix (dcur (runtime s))) s"
    using cur m by (simp add: default_to_current_def bindm_def)
  then have "getCurrentCUDAStream api (-1) s = getCurrentCUDAStream api (ix (dcur (runtime s))) s"
    using init_once_run [OF r(3)] by (simp add: getCurrentCUDAStream_def bindm_def seqm_def)
  then show ?thesis
    using get_current_run [OF r(3) runtime_okD(1) [OF r(1,2)]] by (simp add: cuda_getStream_def)
qed

interpretation cuda_guards: stream_provider "cuda_guard_class api" "\<lambda>_. CUDAGuardImpl api"
  "cuda_ok api rok dcur n pools" "cuda_usable n" "cuda_cur dcur" "cuda_strm n" "cuda_stream_ok n pools"
  for api :: "'d cuda_runtime" and rok dcur n pools
proof
  fix d :: Device
  assume d: "cuda_usable n d"
  then obtain k where k: "k < n" "d = dev CUDA (ix k)" "n \<le> C10_COMPILE_TIME_MAX_GPUS" by (auto simp: cuda_usable_def)
  show "make_impl (cuda_guard_class api) (dev_type d) = Inr (CUDAGuardImpl api)"
    using k by (simp add: cuda_guard_class_def new_CUDAGuardImpl_def)
  show "dev_index d \<noteq> -1" using k by simp
  fix s assume s: "cuda_ok api rok dcur n pools s"
  note r = s [unfolded cuda_ok_def]
  show "cuda_usable n (dev (dev_type d) (cuda_cur dcur s (dev_type d)))"
    using runtime_okD(1,2) r k by (force simp: cuda_usable_def cuda_cur_def)
  note cuda_device_laws [OF s d]
  then show "\<exists>t. exchangeDevice (CUDAGuardImpl api) d s = (Inr (dev (dev_type d) (cuda_cur dcur s (dev_type d))), t) \<and>
      cuda_ok api rok dcur n pools t \<and> cuda_cur dcur t = (cuda_cur dcur s)(dev_type d := dev_index d) \<and>
      cuda_strm n t = cuda_strm n s"
    and "\<exists>t. setDevice (CUDAGuardImpl api) d s = (Inr (), t) \<and>
      cuda_ok api rok dcur n pools t \<and> cuda_cur dcur t = (cuda_cur dcur s)(dev_type d := dev_index d) \<and>
      cuda_strm n t = cuda_strm n s"
    and "\<exists>t. uncheckedSetDevice (CUDAGuardImpl api) d s = (Inr (), t) \<and>
      cuda_ok api rok dcur n pools t \<and> cuda_cur dcur t = (cuda_cur dcur s)(dev_type d := dev_index d) \<and>
      cuda_strm n t = cuda_strm n s"
    by blast+
  obtain ps where "current_streams s = Some ps" "\<forall>k<n. ptr_ok pools k (ps ! k)"
    using streams_okD(5) [of n s] r by auto
  then show "cuda_stream_ok n pools \<lparr>st_device = d, st_id = cuda_strm n s d\<rparr>"
    using d k by (auto simp: cuda_stream_ok_def cuda_strm_def)
  show "\<exists>x. getStream (CUDAGuardImpl api) d s = (Inr x, s)"
    using cuda_get_stream_run [OF s] by (simp add: cuda_impl_defs)
next
  fix x :: Stream and s assume s: "cuda_ok api rok dcur n pools s" and x: "cuda_stream_ok n pools x"
  then obtain k p where k: "k < n" "ptr_ok pools k p" "x = cstream k p" "n \<le> C10_COMPILE_TIME_MAX_GPUS"
    by (auto simp: cuda_stream_ok_def)
  have "cuda_strm n s (dev CUDA (ix k)) = ptr_id (the (current_streams s) ! k)"
    using k by (auto simp: cuda_strm_def cuda_usable_def)
  then show "\<exists>t. exchangeStream (CUDAGuardImpl api) x s = (Inr \<lparr>st_device = st_device x, st_id = cuda_strm n s (st_device x)\<rparr>, t) \<and>
      cuda_ok api rok dcur n pools t \<and> cuda_cur dcur t = cuda_cur dcur s \<and>
      cuda_strm n t = (cuda_strm n s)(st_device x := st_id x)"
    using cuda_exchange_stream_run [OF s k(1,2)] k(3) by (simp add: cuda_impl_defs cuda_cur_def fun_eq_iff)
qed (auto simp: cuda_guard_class_def cuda_usable_def cuda_stream_ok_def)

section \<open>Initialisation\<close>

definition global_entry :: "nat \<Rightarrow> 'd cuda_streams \<Rightarrow> 'd cuda_streams" where
  "global_entry i s = s\<lparr>internals := (internals s)(DefaultStream i := (internals s (DefaultStream i))\<lparr>ls_device_index := ix i\<rparr>),
     low_priority_counters := (low_priority_counters s)(i := 0),
     high_priority_counters := (high_priority_counters s)(i := 0)\<rparr>"

lemma foreach_total: "(\<And>i s. f i s = (Inr (), h i s)) \<Longrightarrow> foreach f xs s = (Inr (), fold h xs s)"
  by (induction xs arbitrary: s) simp_all

lemma fold_global_entry:
  "num_gpus (fold global_entry xs s) = num_gpus s" "init_flag (fold global_entry xs s) = init_flag s"
  "device_flags (fold global_entry xs s) = device_flags s" "current_streams (fold global_entry xs s) = current_streams s"
  "runtime (fold global_entry xs s) = runtime s"
  "low_priority_counters (fold global_entry xs s) k = (if k \<in> set xs then 0 else low_priority_counters s k)"
  "high_priority_counters (fold global_entry xs s) k = (if k \<in> set xs then 0 else high_priority_counters s k)"
  "ls_device_index (internals (fold global_entry xs s) (DefaultStream k))
     = (if k \<in> set xs then ix k else ls_device_index (internals s (DefaultStream k)))"
  by (induction xs arbitrary: s) (simp_all add: global_entry_def)

lemma init_global_run:
  assumes "runtime_ok api rok dcur n" "rok (runtime s)"
  shows "initGlobalStreamState api s = (Inr (), fold global_entry [0..<n] (s\<lparr>num_gpus := ix n\<rparr>))"
proof -
  have n: "sint (ix n) = int n" using runtime_okD(2) [OF assms] by simp
  have "foreach (\<lambda>i. seqm (upd_internals (DefaultStream i) (ls_device_index_update (\<lambda>_. ix i)))
        (modify (\<lambda>s. s\<lparr>low_priority_counters := (low_priority_counters s)(i := 0),
           high_priority_counters := (high_priority_counters s)(i := 0)\<rparr>))) xs t = (Inr (), fold global_entry xs t)" for xs t
    by (rule foreach_total) (simp add: upd_internals_def global_entry_def seqm_def bindm_def)
  then show ?thesis
    using n runtime_okD(2,6) [OF assms] by (simp add: initGlobalStreamState_def bindm_def seqm_def)
qed

definition fresh_streams :: "'d cuda_streams \<Rightarrow> bool" where
  "fresh_streams s \<longleftrightarrow> \<not> init_flag s \<and> device_flags s = (\<lambda>_. False) \<and> current_streams s = None"

lemma init_once_fresh:
  assumes "runtime_ok api rok dcur n" "rok (runtime s)" "fresh_streams s"
  shows "\<exists>t. initCUDAStreamsOnce api s = (Inr (), t) \<and> cuda_ok api rok dcur n (\<lambda>_. False) t \<and> runtime t = runtime s \<and>
    (\<forall>k<n. low_priority_counters t k = 0 \<and> high_priority_counters t k = 0)"
proof -
  let ?t = "fold global_entry [0..<n] (s\<lparr>num_gpus := ix n\<rparr>)"
  let ?u = "?t\<lparr>init_flag := True, current_streams := Some (map DefaultStream [0..<n])\<rparr>"
  have n: "n \<le> C10_COMPILE_TIME_MAX_GPUS" using runtime_okD(2) [OF assms(1,2)] .
  have s: "\<not> init_flag s" "device_flags s = (\<lambda>_. False)" "current_streams s = None"
    using assms(3) by (simp_all add: fresh_streams_def)
  have "initCUDAStreamsOnce api s = (Inr (), ?u)"
    using init_global_run [OF assms(1,2)] n s
    by (simp add: initCUDAStreamsOnce_def call_once_def bindm_def seqm_def fold_global_entry)
  moreover have "index_ok ?u k" if "k < n" for k
  proof -
    have "ls_device_index (internals ?u p) = ix k" if "ptr_ok (device_flags ?u) k p" for p
      using that \<open>k < n\<close> s(2) by (cases p) (simp_all add: fold_global_entry)
    then show ?thesis by (simp add: index_ok_def)
  qed
  then have "streams_ok n ?u" using n s by (simp add: streams_ok_def fold_global_entry)
  ultimately show ?thesis using assms(1,2) s(2) by (simp add: cuda_ok_def fold_global_entry)
qed

section \<open>The pools of a device\<close>

definition same_globals :: "'d cuda_streams \<Rightarrow> 'd cuda_streams \<Rightarrow> bool" where
  "same_globals s t \<longleftrightarrow> init_flag t = init_flag s \<and> num_gpus t = num_gpus s \<and> device_flags t = device_flags s \<and>
     low_priority_counters t = low_priority_counters s \<and> high_priority_counters t = high_priority_counters s \<and>
     current_streams t = current_streams s"

abbreviation index_of :: "'d cuda_streams \<Rightarrow> stream_ptr \<Rightarrow> DeviceIndex" where
  "index_of s p \<equiv> ls_device_index (internals s p)"

definition fills :: "nat \<Rightarrow> nat set \<Rightarrow> 'd cuda_streams \<Rightarrow> 'd cuda_streams \<Rightarrow> bool" where
  "fills k I s t \<longleftrightarrow> same_globals s t \<and> (\<forall>p. index_of t p =
     (if p \<in> LowStream k ` I \<union> HighStream k ` I then ix k else index_of s p))"

lemma fills_trans: "fills k I s t \<Longrightarrow> fills k J t u \<Longrightarrow> fills k (I \<union> J) s u"
  by (auto simp: fills_def same_globals_def)

lemma fill_entry_run:
  assumes "runtime_ok api rok dcur n" "rok (runtime s)"
  shows "\<exists>t. fill_pool_entry api (ix k) k i s = (Inr (), t) \<and> fills k {i} s t \<and> rok (runtime t) \<and>
    dcur (runtime t) = dcur (runtime s)"
proof -
  let ?s = "s\<lparr>internals := (internals s)(LowStream k i := (internals s (LowStream k i))\<lparr>ls_device_index := ix k\<rparr>,
     HighStream k i := (internals s (HighStream k i))\<lparr>ls_device_index := ix k\<rparr>)\<rparr>"
  obtain x e where e: "rt_check api (rt_StreamCreateWithPriority api kLowPriority) ?s = (Inr x, ?s\<lparr>runtime := e\<rparr>)"
    "rok e" "dcur e = dcur (runtime s)"
    using runtime_okD(5) [OF assms(1), of ?s kLowPriority] assms(2) by auto
  let ?t = "?s\<lparr>runtime := e, internals := (internals ?s)(LowStream k i := (internals ?s (LowStream k i))\<lparr>ls_stream := x\<rparr>)\<rparr>"
  obtain y f where f: "rt_check api (rt_StreamCreateWithPriority api kHighPriority) ?t = (Inr y, ?t\<lparr>runtime := f\<rparr>)"
    "rok f" "dcur f = dcur (runtime s)"
    using runtime_okD(5) [OF assms(1), of ?t kHighPriority] e(2,3) by auto
  let ?u = "?t\<lparr>runtime := f, internals := (internals ?t)(HighStream k i := (internals ?t (HighStream k i))\<lparr>ls_stream := y\<rparr>)\<rparr>"
  have "fill_pool_entry api (ix k) k i s = (Inr (), ?u)"
    using e(1) f(1) by (simp add: fill_pool_entry_def upd_internals_def seqm_def bindm_def)
  moreover have "fills k {i} s ?u" by (auto simp: fills_def same_globals_def)
  ultimately show ?thesis using f(2,3) by auto
qed

lemma fill_entries_run:
  assumes "runtime_ok api rok dcur n" "rok (runtime s)"
  shows "\<exists>t. foreach (fill_pool_entry api (ix k) k) xs s = (Inr (), t) \<and> fills k (set xs) s t \<and> rok (runtime t) \<and>
    dcur (runtime t) = dcur (runtime s)"
  using assms(2)
proof (induction xs arbitrary: s)
  case Nil
  then show ?case by (auto simp: fills_def same_globals_def)
next
  case (Cons i xs)
  obtain t where t: "fill_pool_entry api (ix k) k i s = (Inr (), t)" "fills k {i} s t" "rok (runtime t)"
    "dcur (runtime t) = dcur (runtime s)"
    using fill_entry_run [OF assms(1) Cons.prems] by blast
  obtain u where u: "foreach (fill_pool_entry api (ix k) k) xs t = (Inr (), u)" "fills k (set xs) t u" "rok (runtime u)"
    "dcur (runtime u) = dcur (runtime t)"
    using Cons.IH [OF t(3)] by blast
  then show ?case using t fills_trans [OF t(2) u(2)] by (intro exI [of _ u]) simp
qed

lemma init_device_run:
  assumes "cuda_ok api rok dcur n pools s" "k < n"
  shows "\<exists>t. initDeviceStreamState api (ix k) s = (Inr (), t) \<and> fills k {..<kStreamsPerPool} s t \<and> rok (runtime t) \<and>
    dcur (runtime t) = dcur (runtime s)"
proof -
  let ?i = "CUDAGuardImpl_with api (\<lambda>_. throw UndefinedBehaviour) (\<lambda>_. throw UndefinedBehaviour)"
  have r: "runtime_ok api rok dcur n" "rok (runtime s)" using assms(1) by (simp_all add: cuda_ok_def)
  have k: "k < C10_COMPILE_TIME_MAX_GPUS" using runtime_okD(2) [OF r] assms(2) by simp
  let ?d = "dev CUDA (ix (dcur (runtime s)))"
  let ?g = "\<lparr>guard_impl = ?i, original_device = ?d, current_device = dev CUDA (ix k)\<rparr>"
  obtain e where e: "cuda_exchangeDevice api (dev CUDA (ix k)) s = (Inr ?d, s\<lparr>runtime := e\<rparr>)" "rok e" "dcur e = k"
    using cuda_exchange_run [OF r assms(2)] by blast
  have new: "new_DeviceGuard_index (StaticGuard CUDA (new_CUDAGuardImpl ?i)) (ix k) s = (Inr ?g, s\<lparr>runtime := e\<rparr>)"
    using e(1) k by (simp add: new_DeviceGuard_index_def new_DeviceGuard_def new_DeviceGuard_impl_def
        new_CUDAGuardImpl_def CUDAGuardImpl_with_def bindm_def)
  obtain t where t: "foreach (fill_pool_entry api (ix k) k) [0..<kStreamsPerPool] (s\<lparr>runtime := e\<rparr>) = (Inr (), t)"
    "fills k {..<kStreamsPerPool} (s\<lparr>runtime := e\<rparr>) t" "rok (runtime t)"
    using fill_entries_run [OF r(1), of "s\<lparr>runtime := e\<rparr>" k "[0..<kStreamsPerPool]"] e(2) by (auto simp: atLeast0LessThan)
  obtain f where f: "cuda_uncheckedSetDevice api ?d t = (Inr (), t\<lparr>runtime := f\<rparr>)" "rok f" "dcur f = dcur (runtime s)"
    using cuda_unchecked_run(1) [OF r(1) t(3) runtime_okD(1) [OF r]] by blast
  have del: "delete_DeviceGuard ?g t = (Inr (), t\<lparr>runtime := f\<rparr>)"
    using f(1) by (simp add: delete_DeviceGuard_def CUDAGuardImpl_with_def)
  have "initDeviceStreamState api (ix k) s = (Inr (), t\<lparr>runtime := f\<rparr>)"
    using new t(1) k del by (simp add: initDeviceStreamState_def finallym_def bindm_def)
  moreover have "fills k {..<kStreamsPerPool} s (t\<lparr>runtime := f\<rparr>)" using t(2) by (simp add: fills_def same_globals_def)
  ultimately show ?thesis using f(2,3) by auto
qed

lemma open_pool_run:
  assumes "cuda_ok api rok dcur n pools s" "k < n"
  shows "\<exists>t. call_once (\<lambda>s. device_flags s k) (\<lambda>s. s\<lparr>device_flags := (device_flags s)(k := True)\<rparr>) (initDeviceStreamState api (ix k)) s
      = (Inr (), t) \<and> cuda_ok api rok dcur n (pools(k := True)) t \<and> dcur (runtime t) = dcur (runtime s) \<and>
    low_priority_counters t = low_priority_counters s \<and> high_priority_counters t = high_priority_counters s \<and>
    current_streams t = current_streams s"
proof (cases "device_flags s k")
  case True
  have "pools = device_flags s" using assms(1) by (simp add: cuda_ok_def)
  then have "pools(k := True) = pools" using True by (simp add: fun_eq_iff)
  then show ?thesis using assms(1) True by (simp add: call_once_def bindm_def)
next
  case False
  obtain t where t: "initDeviceStreamState api (ix k) s = (Inr (), t)" "fills k {..<kStreamsPerPool} s t" "rok (runtime t)"
    "dcur (runtime t) = dcur (runtime s)"
    using init_device_run [OF assms] by blast
  let ?t = "t\<lparr>device_flags := (device_flags s)(k := True)\<rparr>"
  have g: "same_globals s t"
    and ix: "\<And>p. index_of t p = (if p \<in> LowStream k ` {..<kStreamsPerPool} \<union> HighStream k ` {..<kStreamsPerPool} then ix k else index_of s p)"
    using t(2) by (simp_all add: fills_def)
  have s: "streams_ok n s" "device_flags s = pools" "runtime_ok api rok dcur n" using assms(1) by (simp_all add: cuda_ok_def)
  have "index_ok ?t j" if "j < n" for j
  proof -
    have "index_of ?t p = ix j" if p: "ptr_ok (device_flags ?t) j p" for p
      using p ix [of p] streams_okD(4) [OF s(1) \<open>j < n\<close>, of p] by (cases p; cases "j = k") auto
    then show ?thesis by (simp add: index_ok_def)
  qed
  moreover have "ptr_ok (device_flags ?t) j p" if "ptr_ok (device_flags s) j p" for j p
    using that by (cases p) auto
  ultimately have "streams_ok n ?t"
    using s(1) g by (auto simp: streams_ok_def same_globals_def split: option.splits)
  then show ?thesis
    using False t(1,3,4) g s by (simp add: call_once_def bindm_def seqm_def cuda_ok_def same_globals_def)
qed

section \<open>Requests to a pool\<close>

definition pool_counter :: "bool \<Rightarrow> 'd cuda_streams \<Rightarrow> nat \<Rightarrow> 32 word" where
  "pool_counter hi s k = (if hi then high_priority_counters s k else low_priority_counters s k)"

definition pool_stream :: "bool \<Rightarrow> nat \<Rightarrow> nat \<Rightarrow> Stream" where
  "pool_stream hi k j = \<lparr>st_device = dev CUDA (ix k), st_id = makeStreamId (if hi then HIGH else LOW) (j mod kStreamsPerPool)\<rparr>"

fun collect :: "('s, 'a) mon \<Rightarrow> nat \<Rightarrow> ('s, 'a list) mon" where
  "collect m 0 = ret []"
| "collect m (Suc n) = bindm m (\<lambda>x. bindm (collect m n) (\<lambda>xs. ret (x # xs)))"

lemma get_idx_eq: "get_idx c = (unat c mod kStreamsPerPool, c + 1)"
  by (simp add: get_idx_def kStreamsPerPool_def kStreamsPerPoolBits_def unat_mod_distrib)

lemma pool_request_run:
  assumes "cuda_ok api rok dcur n pools s" "k < n"
  shows "\<exists>t. getStreamFromPool api hi (ix k) s = (Inr (pool_stream hi k (unat (pool_counter hi s k))), t) \<and>
    cuda_ok api rok dcur n (pools(k := True)) t \<and> dcur (runtime t) = dcur (runtime s) \<and>
    current_streams t = current_streams s \<and> pool_counter hi t k = pool_counter hi s k + 1"
proof -
  have s: "streams_ok n s" using assms(1) by (simp add: cuda_ok_def)
  have k: "k < C10_COMPILE_TIME_MAX_GPUS" using streams_okD(2) [OF s] assms(2) by simp
  let ?c = "unat (pool_counter hi s k) mod kStreamsPerPool"
  let ?p = "if hi then HighStream k ?c else LowStream k ?c"
  obtain t where t: "call_once (\<lambda>s. device_flags s k) (\<lambda>s. s\<lparr>device_flags := (device_flags s)(k := True)\<rparr>) (initDeviceStreamState api (ix k)) s
      = (Inr (), t)" "cuda_ok api rok dcur n (pools(k := True)) t" "dcur (runtime t) = dcur (runtime s)"
      "low_priority_counters t = low_priority_counters s" "high_priority_counters t = high_priority_counters s"
      "current_streams t = current_streams s"
    using open_pool_run [OF assms] by blast
  let ?u = "if hi then t\<lparr>high_priority_counters := (high_priority_counters t)(k := pool_counter hi s k + 1)\<rparr>
    else t\<lparr>low_priority_counters := (low_priority_counters t)(k := pool_counter hi s k + 1)\<rparr>"
  have u: "streams_ok n ?u" "device_flags ?u = pools(k := True)" "runtime ?u = runtime t"
    using t(2) by (simp_all add: cuda_ok_def)
  have c: "?c < kStreamsPerPool" by (simp add: kStreamsPerPool_def)
  then have "ptr_ok (device_flags ?u) k ?p" unfolding u(2) by simp
  from from_internals_run [OF u(1) assms(2) this]
  have "CUDAStream_fromInternals ?p ?u = (Inr (pool_stream hi k (unat (pool_counter hi s k))), ?u)"
    by (simp add: pool_stream_def)
  then have "getStreamFromPool api hi (ix k) s = (Inr (pool_stream hi k (unat (pool_counter hi s k))), ?u)"
    using init_once_run [OF s] default_to_current_run [OF s assms(2)] k t(1,4,5)
    by (cases hi) (simp_all add: getStreamFromPool_def bindm_def seqm_def get_idx_eq pool_counter_def)
  moreover have "cuda_ok api rok dcur n (pools(k := True)) ?u" using t(2) u by (simp add: cuda_ok_def)
  ultimately show ?thesis using t u by (intro exI [of _ ?u]) (simp add: pool_counter_def)
qed

lemma counter_wrap: "(a mod 2 ^ 32 + j) mod kStreamsPerPool = (a + j) mod kStreamsPerPool"
proof -
  have "a mod 2 ^ 32 mod kStreamsPerPool = a mod kStreamsPerPool"
    by (rule mod_mod_cancel) (simp add: kStreamsPerPool_def kStreamsPerPoolBits_def)
  then show ?thesis by (metis mod_add_left_eq)
qed

lemma mod_shift_inj:
  fixes c i j N :: nat
  assumes "i < N" "j < N" "(c + i) mod N = (c + j) mod N"
  shows "i = j"
  using assms
proof (induction i j rule: linorder_wlog)
  case (le i j)
  then have "N dvd (c + j) - (c + i)" using mod_eq_dvd_iff_nat [of "c + i" "c + j" N] by simp
  then have "N dvd j - i" by simp
  then show ?case using le by (auto dest: dvd_imp_le)
qed simp

lemma pool_requests_run:
  assumes "cuda_ok api rok dcur n pools s" "k < n"
  shows "\<exists>t P. collect (getStreamFromPool api hi (ix k)) m s
      = (Inr (map (\<lambda>j. pool_stream hi k (unat (pool_counter hi s k) + j)) [0..<m]), t) \<and>
    cuda_ok api rok dcur n P t \<and> dcur (runtime t) = dcur (runtime s) \<and> current_streams t = current_streams s"
  using assms(1)
proof (induction m arbitrary: s pools)
  case 0
  then show ?case by auto
next
  case (Suc m)
  let ?c = "unat (pool_counter hi s k)"
  obtain t where t: "getStreamFromPool api hi (ix k) s = (Inr (pool_stream hi k ?c), t)"
    "cuda_ok api rok dcur n (pools(k := True)) t" "dcur (runtime t) = dcur (runtime s)"
    "current_streams t = current_streams s" "pool_counter hi t k = pool_counter hi s k + 1"
    using pool_request_run [OF Suc.prems assms(2)] by blast
  have wrap: "pool_stream hi k (unat (pool_counter hi t k) + j) = pool_stream hi k (?c + Suc j)" for j
  proof -
    have "(unat (pool_counter hi t k) + j) mod kStreamsPerPool = (?c + Suc j) mod kStreamsPerPool"
      using counter_wrap [of "?c + 1" j] by (simp add: t(5) unat_word_ariths)
    then show ?thesis by (simp add: pool_stream_def)
  qed
  obtain u P where u: "collect (getStreamFromPool api hi (ix k)) m t
      = (Inr (map (\<lambda>j. pool_stream hi k (?c + Suc j)) [0..<m]), u)"
    "cuda_ok api rok dcur n P u" "dcur (runtime u) = dcur (runtime t)" "current_streams u = current_streams t"
    using Suc.IH [OF t(2)] unfolding wrap by blast
  have "map (\<lambda>j. pool_stream hi k (?c + j)) [0..<Suc m]
      = pool_stream hi k ?c # map (\<lambda>j. pool_stream hi k (?c + Suc j)) [0..<m]"
    by (simp add: map_upt_Suc del: upt_Suc)
  then have "collect (getStreamFromPool api hi (ix k)) (Suc m) s
      = (Inr (map (\<lambda>j. pool_stream hi k (?c + j)) [0..<Suc m]), u)"
    using t(1) u(1) by (simp add: bindm_def del: upt_Suc)
  then show ?case using t u by (intro exI [of _ u] exI [of _ P]) simp
qed

lemma pool_streams_distinct:
  assumes "m \<le> kStreamsPerPool"
  shows "distinct (map (\<lambda>j. pool_stream hi k (c + j)) [0..<m])"
proof -
  have "i = j" if ij: "i < m" "j < m" and eq: "pool_stream hi k (c + i) = pool_stream hi k (c + j)" for i j
  proof -
    have b: "(c + i) mod kStreamsPerPool < kStreamsPerPool" "(c + j) mod kStreamsPerPool < kStreamsPerPool"
      by (simp_all add: kStreamsPerPool_def)
    let ?T = "if hi then HIGH else LOW"
    have T: "?T = LOW \<or> ?T = HIGH" by simp
    have "makeStreamId ?T ((c + i) mod kStreamsPerPool) = makeStreamId ?T ((c + j) mod kStreamsPerPool)"
      using eq unfolding pool_stream_def by (metis Stream.select_convs(2))
    then have "(c + i) mod kStreamsPerPool = (c + j) mod kStreamsPerPool"
      using stream_number(2) [OF b(1) T] stream_number(2) [OF b(2) T] by metis
    then show ?thesis using mod_shift_inj [of i kStreamsPerPool j c] ij assms by simp
  qed
  then show ?thesis by (auto simp: distinct_map intro: inj_onI)
qed

definition cuda_ready :: "'d cuda_runtime \<Rightarrow> ('d \<Rightarrow> bool) \<Rightarrow> ('d \<Rightarrow> nat) \<Rightarrow> nat \<Rightarrow> 'd cuda_streams \<Rightarrow> bool" where
  "cuda_ready api rok dcur n s \<longleftrightarrow> runtime_ok api rok dcur n \<and> rok (runtime s) \<and>
     (s = new_cuda_streams (runtime s) \<or> (\<exists>pools. cuda_ok api rok dcur n pools s))"

lemma ready_request:
  assumes "cuda_ready api rok dcur n s" "k < n"
  shows "\<exists>t pools. cuda_ok api rok dcur n pools t \<and> runtime t = runtime s \<and> pool_counter hi t k = pool_counter hi s k \<and>
    initCUDAStreamsOnce api s = initCUDAStreamsOnce api t"
proof (cases "\<exists>pools. cuda_ok api rok dcur n pools s")
  case True
  then show ?thesis by blast
next
  case False
  then have s: "s = new_cuda_streams (runtime s)" "runtime_ok api rok dcur n" "rok (runtime s)"
    using assms(1) by (auto simp: cuda_ready_def)
  have f: "fresh_streams s" "pool_counter hi s k = 0"
    by (subst s(1), simp add: fresh_streams_def new_cuda_streams_def pool_counter_def)+
  obtain t where t: "initCUDAStreamsOnce api s = (Inr (), t)" "cuda_ok api rok dcur n (\<lambda>_. False) t" "runtime t = runtime s"
    "\<forall>k<n. low_priority_counters t k = 0 \<and> high_priority_counters t k = 0"
    using init_once_fresh [OF s(2,3) f(1)] by blast
  have "initCUDAStreamsOnce api t = (Inr (), t)" by (rule init_once_run [of n]) (use t(2) in \<open>simp add: cuda_ok_def\<close>)
  then show ?thesis
    using t assms(2) f(2) by (intro exI [of _ t]) (auto simp: pool_counter_def)
qed

text \<open>
  Property C23. Any number \<open>m\<close> of requests to one of the pools of an existing device, starting with the first request of
  the program or in any later state, succeeds and is answered round robin: the \<open>j\<close>-th stream is the entry of the pool
  whose index is the counter before the requests plus \<open>j\<close>, modulo 32, also when the 32-bit counter wraps around.
  Consecutive requests therefore get different streams until the pool of 32 is used up. The current device is
  afterwards what it was, although filling the pools changes it.
\<close>

theorem pool_round_robin:
  assumes "cuda_ready api rok dcur n s" "k < n"
  shows "\<exists>xs t. collect (getStreamFromPool api hi (word_of_nat k)) m s = (Inr xs, t) \<and>
    xs = map (\<lambda>j. pool_stream hi k (unat (pool_counter hi s k) + j)) [0..<m] \<and>
    (m \<le> kStreamsPerPool \<longrightarrow> distinct xs) \<and> cuda_ready api rok dcur n t \<and> dcur (runtime t) = dcur (runtime s)"
proof (cases m)
  case 0
  then show ?thesis using assms by simp
next
  case (Suc m')
  obtain t pools where t: "cuda_ok api rok dcur n pools t" "runtime t = runtime s" "pool_counter hi t k = pool_counter hi s k"
    "initCUDAStreamsOnce api s = initCUDAStreamsOnce api t"
    using ready_request [OF assms] by blast
  have "getStreamFromPool api hi (ix k) s = getStreamFromPool api hi (ix k) t"
    using t(4) by (simp add: getStreamFromPool_def seqm_def bindm_def)
  then have "collect (getStreamFromPool api hi (ix k)) m s = collect (getStreamFromPool api hi (ix k)) m t"
    using Suc by (simp add: bindm_def)
  moreover obtain u P where "collect (getStreamFromPool api hi (ix k)) m t
      = (Inr (map (\<lambda>j. pool_stream hi k (unat (pool_counter hi t k) + j)) [0..<m]), u)"
    "cuda_ok api rok dcur n P u" "dcur (runtime u) = dcur (runtime t)"
    using pool_requests_run [OF t(1) assms(2)] by blast
  moreover have "cuda_ready api rok dcur n u" using calculation(3) by (auto simp: cuda_ready_def cuda_ok_def)
  ultimately show ?thesis using t(2,3) pool_streams_distinct by auto
qed

section \<open>A concrete runtime\<close>

text \<open>Two devices; the state is the current device and the number of streams created.\<close>

definition two_gpus :: "(nat \<times> nat) cuda_runtime" where
  "two_gpus = \<lparr>rt_GetDevice = (\<lambda>d. ((StreamSuccess, int (fst d)), d)),
     rt_SetDevice = (\<lambda>k d. if 0 \<le> k \<and> k < 2 then ((StreamSuccess, ()), (nat k, snd d)) else ((StreamFailure 10, ()), d)),
     rt_GetDeviceCount = (\<lambda>d. ((StreamSuccess, 2), d)), rt_GetLastError = (\<lambda>d. ((StreamSuccess, ()), d)),
     rt_StreamCreateWithPriority = (\<lambda>prio d. ((StreamSuccess, Suc (snd d)), (fst d, Suc (snd d))))\<rparr>"

lemma two_gpus_ok: "runtime_ok two_gpus (\<lambda>d. fst d < 2) fst 2"
  by (simp add: runtime_ok_def two_gpus_def C10_COMPILE_TIME_MAX_GPUS_def)

theorem pool_round_robin_witness:
  "\<exists>xs t. collect (getStreamFromPool two_gpus True (word_of_nat 1)) 3 (new_cuda_streams (0, 0)) = (Inr xs, t) \<and>
    distinct xs \<and> fst (runtime t) = 0"
proof -
  have "cuda_ready two_gpus (\<lambda>d. fst d < 2) fst 2 (new_cuda_streams (0, 0))"
    using two_gpus_ok by (simp add: cuda_ready_def new_cuda_streams_def)
  from pool_round_robin [OF this, of 1 True 3] show ?thesis
    by (auto simp: kStreamsPerPool_def kStreamsPerPoolBits_def new_cuda_streams_def)
qed

section \<open>Stream guards on CUDA devices\<close>

lemma cuda_view_eq:
  assumes "cuda_ok api rok dcur n pools s" "cuda_ok api rok dcur n pools u"
    "cuda_cur dcur u = cuda_cur dcur s" "cuda_strm n u = cuda_strm n s"
  shows "dcur (runtime u) = dcur (runtime s)" "current_streams u = current_streams s"
proof -
  have n: "dcur (runtime s) < n" "dcur (runtime u) < n" "n \<le> C10_COMPILE_TIME_MAX_GPUS"
    using assms(1,2) runtime_okD(1,2) by (auto simp: cuda_ok_def)
  then show "dcur (runtime u) = dcur (runtime s)"
    using fun_cong [OF assms(3), of CUDA] ix_inj [of "dcur (runtime u)" "dcur (runtime s)"] by (simp add: cuda_cur_def)
  obtain ps where ps: "current_streams s = Some ps" "length ps = n" "\<forall>k<n. ptr_ok pools k (ps ! k)"
    using streams_okD(5) [of n s] assms(1) by (auto simp: cuda_ok_def)
  obtain qs where qs: "current_streams u = Some qs" "length qs = n" "\<forall>k<n. ptr_ok pools k (qs ! k)"
    using streams_okD(5) [of n u] assms(2) by (auto simp: cuda_ok_def)
  have "qs ! k = ps ! k" if k: "k < n" for k
  proof -
    have "cuda_usable n (dev CUDA (ix k))" using k n(3) by (auto simp: cuda_usable_def)
    then have "ptr_id (qs ! k) = ptr_id (ps ! k)"
      using fun_cong [OF assms(4), of "dev CUDA (ix k)"] k n(3) ps(1) qs(1) by (simp add: cuda_strm_def)
    moreover have "k < C10_COMPILE_TIME_MAX_GPUS" using k n(3) by simp
    ultimately show ?thesis using cstream_inj [of pools k "qs ! k" pools "ps ! k"] ps(3) qs(3) k by blast
  qed
  then show "current_streams u = current_streams s" using ps(1,2) qs(1,2) by (simp add: nth_equalityI)
qed

text \<open>
  Property C10. A \<open>CUDAStreamGuard\<close> in its optional form, over the stream pools: while it is alive, after any sequence of
  \<open>reset_stream\<close> calls with streams of existing devices (default streams, or streams of an initialised pool) and
  of \<open>reset\<close> calls, the stream asked for last is the current stream of its device and that device is the current one;
  after the guard is destroyed the current device and the current streams of all devices are what they were.
\<close>

theorem cuda_stream_guard_restores:
  assumes "cuda_ok api rok dcur n pools s" "list_all (op_ok (cuda_stream_ok n pools)) ops"
  shows "\<exists>g t u. foreach (stream_guard_op (cuda_guard_class api)) ops (None, s) = (Inr (), (g, t)) \<and>
    (\<forall>x \<in> set_option (asked_last None ops). word_of_nat (dcur (runtime t)) = dev_index (st_device x) \<and>
       getCurrentCUDAStream api (dev_index (st_device x)) t = (Inr x, t)) \<and>
    optional_stream_reset (g, t) = (Inr (), (None, u)) \<and>
    dcur (runtime u) = dcur (runtime s) \<and> current_streams u = current_streams s"
proof -
  obtain g t u where r: "foreach (stream_guard_op (cuda_guard_class api)) ops (None, s) = (Inr (), (g, t))"
      "\<forall>x \<in> set_option (asked_last None ops). cuda_cur dcur t (dev_type (st_device x)) = dev_index (st_device x) \<and>
         cuda_strm n t (st_device x) = st_id x"
      "optional_stream_reset (g, t) = (Inr (), (None, u))" "cuda_ok api rok dcur n pools t" "cuda_ok api rok dcur n pools u"
      "cuda_cur dcur u = cuda_cur dcur s" "cuda_strm n u = cuda_strm n s"
    using cuda_guards.stream_guard_restores [OF assms] by blast
  have "ix (dcur (runtime t)) = dev_index (st_device x) \<and> getCurrentCUDAStream api (dev_index (st_device x)) t = (Inr x, t)"
    if x: "asked_last None ops = Some x" for x
  proof -
    obtain k p where k: "k < n" "x = cstream k p" "n \<le> C10_COMPILE_TIME_MAX_GPUS"
      using asked_last_ok [OF assms(2) x] by (auto simp: cuda_stream_ok_def)
    have "cuda_strm n t (dev CUDA (ix k)) = ptr_id (the (current_streams t) ! k)"
      using k by (auto simp: cuda_strm_def cuda_usable_def)
    moreover have "streams_ok n t" using r(4) by (simp add: cuda_ok_def)
    ultimately show ?thesis using get_current_run [of n t k api] k(1,2) r(2) x by (simp add: cuda_cur_def)
  qed
  then show ?thesis using r cuda_view_eq [OF assms(1) r(5-7)] by (intro exI [of _ g] exI [of _ t] exI [of _ u]) auto
qed

definition two_gpu_state :: "(nat \<times> nat) cuda_streams" where
  "two_gpu_state = (new_cuda_streams (0, 0))\<lparr>num_gpus := 2, init_flag := True,
     internals := (\<lambda>p. \<lparr>ls_device_index = (case p of DefaultStream d \<Rightarrow> ix d | _ \<Rightarrow> -1), ls_stream_id = -1, ls_stream = 0\<rparr>),
     current_streams := Some [DefaultStream 0, DefaultStream 1]\<rparr>"

lemma two_gpu_state_ok: "cuda_ok two_gpus (\<lambda>d. fst d < 2) fst 2 (\<lambda>_. False) two_gpu_state"
proof -
  have "index_ok two_gpu_state k" for k
  proof -
    have "index_of two_gpu_state p = ix k" if "ptr_ok (device_flags two_gpu_state) k p" for p
      using that by (cases p) (simp_all add: two_gpu_state_def new_cuda_streams_def)
    then show ?thesis by (simp add: index_ok_def)
  qed
  then have "streams_ok 2 two_gpu_state"
    by (simp add: streams_ok_def) (simp add: two_gpu_state_def new_cuda_streams_def C10_COMPILE_TIME_MAX_GPUS_def less_2_cases_iff)
  then show ?thesis using two_gpus_ok by (simp add: cuda_ok_def) (simp add: two_gpu_state_def new_cuda_streams_def)
qed

theorem cuda_stream_guard_restores_witness:
  "\<exists>g t u. foreach (stream_guard_op (cuda_guard_class two_gpus)) [ResetStream \<lparr>st_device = dev CUDA 1, st_id = 0\<rparr>]
      (None, two_gpu_state) = (Inr (), (g, t)) \<and> (word_of_nat (fst (runtime t)) :: 16 word) = 1 \<and>
    optional_stream_reset (g, t) = (Inr (), (None, u)) \<and> fst (runtime u) = 0 \<and>
    current_streams u = Some [DefaultStream 0, DefaultStream 1]"
proof -
  have "cuda_stream_ok 2 (\<lambda>_. False) \<lparr>st_device = dev CUDA 1, st_id = 0\<rparr>"
    unfolding cuda_stream_ok_def
    by (auto simp: C10_COMPILE_TIME_MAX_GPUS_def makeStreamId_def intro!: exI [of _ 1] exI [of _ "DefaultStream 1"])
  then show ?thesis
    using cuda_stream_guard_restores [OF two_gpu_state_ok, of "[ResetStream \<lparr>st_device = dev CUDA 1, st_id = 0\<rparr>]"]
    by (auto simp: two_gpu_state_def new_cuda_streams_def simp del: foreach.simps)
qed

text \<open>
  \<open>CUDAGuardImpl::getStream\<close> ignores its argument and returns the current stream of the current device. A stream
  guard asks it for the stream of the original device when it has already switched, so \<open>original_stream()\<close> of a
  \<open>CUDAStreamGuard\<close> that changes the device is a stream of the new device, not of the original one.
\<close>

lemma original_stream_of_new_device:
  assumes "cuda_ok api rok dcur n pools s" "k < n" "ptr_ok pools k p"
  shows "\<exists>g t. new_StreamGuard (cuda_guard_class api) (cstream k p) s = (Inr g, t) \<and>
    original_device g = dev CUDA (ix (dcur (runtime s))) \<and>
    st_device (original_stream_of_original_device g) = dev CUDA (ix k)"
proof -
  have r: "runtime_ok api rok dcur n" "rok (runtime s)" using assms(1) by (simp_all add: cuda_ok_def)
  have k: "ix k \<noteq> - 1" using assms(2) runtime_okD(2) [OF r] by simp
  obtain e where e: "cuda_exchangeDevice api (dev CUDA (ix k)) s = (Inr (dev CUDA (ix (dcur (runtime s)))), s\<lparr>runtime := e\<rparr>)"
    "rok e" "dcur e = k"
    using cuda_exchange_run [OF r assms(2)] by blast
  note t = cuda_ok_runtime [OF assms(1) e(2)]
  show ?thesis
    using e(1,3) k cuda_get_stream_run [OF t] cuda_exchange_stream_run(1) [OF t assms(2,3)]
    by (simp add: new_StreamGuard_def new_DeviceGuard_def new_DeviceGuard_impl_def cuda_guard_class_def
        new_CUDAGuardImpl_def cuda_impl_defs new_StreamGuard_rest_def extend_guard_def DeviceGuard.extend_def
        StreamGuard.fields_def)
qed

end
