(* ===== verification/Thread_Pool.thy ===== *)
theory Thread_Pool
  imports Prelude "HOL-Library.Multiset"
begin

text \<open>
  The thread pool (c10/core/thread_pool.h, thread_pool.cpp). Every access to the shared members happens under
  \<open>mutex_\<close>, so a step of the model is what one thread does between acquiring and releasing it: a worker goes through
  the head of its loop, a worker that has run its task reports it and goes through the head again without letting the
  mutex go, a caller pushes a task, a caller checks \<open>complete_\<close>, the destructor stops the pool. A condition
  variable is the set of threads asleep on it; \<open>notify_one\<close> wakes any one of them, and any of them may wake up
  spuriously. A task that returns and one that throws a \<open>std::exception\<close> look the same to the pool.
\<close>

section \<open>State\<close>

datatype 'f task_element = NoId 'f | WithId 'f

datatype 'f worker_state = Awake | Asleep | Executing "'f task_element" | Exited

text \<open>The threads that call \<open>waitWorkComplete\<close>.\<close>

datatype caller_state = Idle | AwakeCaller | SleepingCaller

text \<open>\<open>submitted\<close>, \<open>started\<close> and \<open>finished\<close> record what happened; no operation reads them.\<close>

record 'f ThreadPool =
  tasks :: "'f task_element list"
  threads :: "'f worker_state list"
  pool_running :: bool
  complete :: bool
  available :: nat
  total :: nat
  callers :: "caller_state list"
  submitted :: "'f task_element list"
  started :: "(nat \<times> 'f task_element) list"
  finished :: "'f task_element list"

definition new_ThreadPool :: "nat \<Rightarrow> nat \<Rightarrow> 'f ThreadPool" where
  "new_ThreadPool pool_size n = \<lparr>tasks = [], threads = replicate pool_size Awake, pool_running = True, complete = True,
     available = pool_size, total = pool_size, callers = replicate n Idle, submitted = [], started = [], finished = []\<rparr>"

definition pool_size :: "'f ThreadPool \<Rightarrow> nat" where
  "pool_size s = length (threads s)"

definition numAvailable :: "'f ThreadPool \<Rightarrow> nat" where
  "numAvailable s = available s"

section \<open>Operations\<close>

definition notified :: "'a list \<Rightarrow> 'a \<Rightarrow> nat option \<Rightarrow> bool" where
  "notified ws asleep w = (case w of None \<Rightarrow> asleep \<notin> set ws | Some j \<Rightarrow> j < length ws \<and> ws ! j = asleep)"

definition wake :: "nat option \<Rightarrow> 'a \<Rightarrow> 'a list \<Rightarrow> 'a list" where
  "wake w awake ws = (case w of None \<Rightarrow> ws | Some j \<Rightarrow> ws[j := awake])"

definition pool_push :: "'f task_element \<Rightarrow> nat option \<Rightarrow> 'f ThreadPool \<Rightarrow> 'f ThreadPool" where
  "pool_push t w s = s\<lparr>tasks := tasks s @ [t], submitted := submitted s @ [t], complete := False,
     threads := wake w Awake (threads s)\<rparr>"

definition pool_run :: "'f \<Rightarrow> nat option \<Rightarrow> 'f ThreadPool \<Rightarrow> 'f ThreadPool" where
  "pool_run func = pool_push (NoId func)"

definition runTaskWithID :: "'f \<Rightarrow> nat option \<Rightarrow> 'f ThreadPool \<Rightarrow> 'f ThreadPool" where
  "runTaskWithID func = pool_push (WithId func)"

definition waitWorkComplete :: "nat \<Rightarrow> 'f ThreadPool \<Rightarrow> 'f ThreadPool" where
  "waitWorkComplete c s = s\<lparr>callers := (callers s)[c := if complete s then Idle else SleepingCaller]\<rparr>"

definition delete_ThreadPool :: "'f ThreadPool \<Rightarrow> 'f ThreadPool" where
  "delete_ThreadPool s = s\<lparr>pool_running := False,
     threads := map (\<lambda>w. case w of Asleep \<Rightarrow> Awake | _ \<Rightarrow> w) (threads s)\<rparr>"

definition main_loop_head :: "nat \<Rightarrow> 'f ThreadPool \<Rightarrow> 'f ThreadPool" where
  "main_loop_head i s =
    (if \<not> pool_running s then s\<lparr>threads := (threads s)[i := Exited]\<rparr>
     else case tasks s of
       [] \<Rightarrow> s\<lparr>threads := (threads s)[i := Asleep]\<rparr>
     | t # ts \<Rightarrow> s\<lparr>tasks := ts, available := sub64 (available s) 1, threads := (threads s)[i := Executing t],
         started := started s @ [(i, t)]\<rparr>)"

definition main_loop_done :: "nat \<Rightarrow> 'f task_element \<Rightarrow> nat option \<Rightarrow> 'f ThreadPool \<Rightarrow> 'f ThreadPool" where
  "main_loop_done i t w s =
    (let s1 = s\<lparr>available := add64 (available s) 1, threads := (threads s)[i := Awake], finished := finished s @ [t]\<rparr>;
         s2 = (if tasks s1 = [] \<and> available s1 = total s1
               then s1\<lparr>complete := True, callers := wake w AwakeCaller (callers s1)\<rparr> else s1)
     in main_loop_head i s2)"

text \<open>The steps of the workers, and all the steps.\<close>

inductive worker_step :: "'f ThreadPool \<Rightarrow> 'f ThreadPool \<Rightarrow> bool" where
  head: "i < length (threads s) \<Longrightarrow> threads s ! i = Awake \<Longrightarrow> worker_step s (main_loop_head i s)"
| report: "i < length (threads s) \<Longrightarrow> threads s ! i = Executing t \<Longrightarrow> notified (callers s) SleepingCaller w \<Longrightarrow>
    worker_step s (main_loop_done i t w s)"

inductive pool_step :: "'f ThreadPool \<Rightarrow> 'f ThreadPool \<Rightarrow> bool" where
  worker: "worker_step s t \<Longrightarrow> pool_step s t"
| run: "pool_running s \<Longrightarrow> notified (threads s) Asleep w \<Longrightarrow> pool_step s (pool_run f w s)"
| run_id: "pool_running s \<Longrightarrow> notified (threads s) Asleep w \<Longrightarrow> pool_step s (runTaskWithID f w s)"
| wait: "c < length (callers s) \<Longrightarrow> callers s ! c \<noteq> SleepingCaller \<Longrightarrow> pool_step s (waitWorkComplete c s)"
| spurious_worker: "i < length (threads s) \<Longrightarrow> threads s ! i = Asleep \<Longrightarrow>
    pool_step s (s\<lparr>threads := (threads s)[i := Awake]\<rparr>)"
| spurious_caller: "c < length (callers s) \<Longrightarrow> callers s ! c = SleepingCaller \<Longrightarrow>
    pool_step s (s\<lparr>callers := (callers s)[c := AwakeCaller]\<rparr>)"
| destroy: "pool_running s \<Longrightarrow> pool_step s (delete_ThreadPool s)"

definition pool_reachable :: "nat \<Rightarrow> nat \<Rightarrow> 'f ThreadPool \<Rightarrow> bool" where
  "pool_reachable n m s \<longleftrightarrow> pool_step\<^sup>*\<^sup>* (new_ThreadPool n m) s"

section \<open>The number of threads of the global queue\<close>

text \<open>
  \<open>num_threads\<close> is the atomic \<open>int\<close>; the pool of \<open>global_work_queue\<close> is a static object, \<open>None\<close> before the first
  call and then the argument it was created with. A \<open>size_t\<close> stored in the \<open>int\<close> keeps its low 32 bits.
\<close>

record work_queue =
  num_threads :: "32 word"
  queue_pool :: "32 word option"

definition new_work_queue :: work_queue where
  "new_work_queue = \<lparr>num_threads = 1, queue_pool = None\<rparr>"

definition setNumThreads :: "nat \<Rightarrow> work_queue \<Rightarrow> unit result \<times> work_queue" where
  "setNumThreads v q = (if num_threads q = -1
      then Inl (RuntimeError ''Error: cannot set num threads after pool has started'') else Inr (),
     q\<lparr>num_threads := word_of_nat v\<rparr>)"

definition global_work_queue :: "work_queue \<Rightarrow> 32 word \<times> work_queue" where
  "global_work_queue q = (case queue_pool q of Some p \<Rightarrow> (p, q)
     | None \<Rightarrow> (num_threads q, q\<lparr>num_threads := -1, queue_pool := Some (num_threads q)\<rparr>))"

section \<open>The invariant\<close>

fun task_of :: "'f worker_state \<Rightarrow> 'f task_element multiset" where
  "task_of (Executing t) = {#t#}"
| "task_of _ = {#}"

fun is_executing :: "'f worker_state \<Rightarrow> bool" where
  "is_executing (Executing _) = True"
| "is_executing _ = False"

definition in_flight :: "'f worker_state list \<Rightarrow> 'f task_element multiset" where
  "in_flight ws = sum_list (map task_of ws)"

lemma in_flight_update:
  "i < length ws \<Longrightarrow> in_flight (ws[i := w]) + task_of (ws ! i) = in_flight ws + task_of w"
proof (induction ws arbitrary: i)
  case (Cons a ws)
  then show ?case by (cases i) (simp_all add: in_flight_def add.commute add.left_commute)
qed simp

lemma in_flight_size: "size (in_flight ws) \<le> length ws"
proof (induction ws)
  case (Cons w ws)
  then show ?case by (cases w) (simp_all add: in_flight_def)
qed (simp add: in_flight_def)

lemma in_flight_empty: "in_flight ws = {#} \<longleftrightarrow> (\<forall>w \<in> set ws. task_of w = {#})"
  by (induction ws) (auto simp: in_flight_def)

lemma live_worker: "w \<noteq> Asleep \<Longrightarrow> w \<noteq> Exited \<Longrightarrow> w = Awake \<or> task_of w \<noteq> {#}"
  by (cases w) simp_all

definition pool_inv :: "nat \<Rightarrow> nat \<Rightarrow> 'f ThreadPool \<Rightarrow> bool" where
  "pool_inv n m s \<longleftrightarrow> length (threads s) = n \<and> total s = n \<and> length (callers s) = m \<and>
     available s + size (in_flight (threads s)) = n \<and>
     (complete s \<longleftrightarrow> tasks s = [] \<and> in_flight (threads s) = {#}) \<and>
     map snd (started s) @ tasks s = submitted s \<and>
     mset (finished s) + in_flight (threads s) = mset (map snd (started s)) \<and>
     (pool_running s \<longrightarrow> Exited \<notin> set (threads s)) \<and>
     (pool_running s \<and> 0 < n \<and> tasks s \<noteq> [] \<longrightarrow> (\<exists>w \<in> set (threads s). w = Awake \<or> task_of w \<noteq> {#})) \<and>
     (m \<le> 1 \<and> complete s \<longrightarrow> SleepingCaller \<notin> set (callers s))"

lemma pool_inv_new: "n < 2 ^ 64 \<Longrightarrow> pool_inv n m (new_ThreadPool n m)"
proof -
  have "in_flight (replicate n Awake) = {#}" by (simp add: in_flight_empty)
  then show ?thesis by (simp add: pool_inv_def new_ThreadPool_def)
qed

lemma head_inv:
  assumes inv: "pool_inv n m s" and n: "n < 2 ^ 64" and i: "i < length (threads s)" "threads s ! i = Awake"
  shows "pool_inv n m (main_loop_head i s)"
proof -
  have upd: "in_flight ((threads s)[i := w]) = in_flight (threads s) + task_of w" for w
    using in_flight_update [OF i(1), of w] i(2) by simp
  have mem: "w \<in> insert v (set (threads s))" if "w \<in> set ((threads s)[i := v])" for w v
    using that set_update_subset_insert by fastforce
  have ex: "v \<in> set ((threads s)[i := v])" for v using i(1) by (simp add: set_update_memI)
  show ?thesis
  proof (cases "pool_running s")
    case False
    then show ?thesis using inv upd by (simp add: main_loop_head_def pool_inv_def)
  next
    case running: True
    show ?thesis
    proof (cases "tasks s")
      case Nil
      have "Exited \<notin> set ((threads s)[i := Asleep])" using inv running mem by (force simp: pool_inv_def)
      then show ?thesis using inv upd running Nil by (simp add: main_loop_head_def pool_inv_def del: mset_map)
    next
      case (Cons t ts)
      have "Exited \<notin> set ((threads s)[i := Executing t])" using inv running mem by (force simp: pool_inv_def)
      moreover have "size (in_flight ((threads s)[i := Executing t])) \<le> n"
        using in_flight_size [of "(threads s)[i := Executing t]"] inv by (simp add: pool_inv_def)
      then have "sub64 (available s) 1 + size (in_flight ((threads s)[i := Executing t])) = n"
        using inv n upd [of "Executing t"] by (simp add: pool_inv_def)
      moreover have "\<exists>w \<in> set ((threads s)[i := Executing t]). w = Awake \<or> task_of w \<noteq> {#}"
        by (rule bexI [OF _ ex]) simp
      ultimately show ?thesis using inv upd [of "Executing t"] running Cons by (simp add: main_loop_head_def pool_inv_def)
    qed
  qed
qed

definition report_done :: "nat \<Rightarrow> 'f task_element \<Rightarrow> nat option \<Rightarrow> 'f ThreadPool \<Rightarrow> 'f ThreadPool" where
  "report_done i t w s =
    (let s1 = s\<lparr>available := add64 (available s) 1, threads := (threads s)[i := Awake], finished := finished s @ [t]\<rparr>
     in if tasks s1 = [] \<and> available s1 = total s1
        then s1\<lparr>complete := True, callers := wake w AwakeCaller (callers s1)\<rparr> else s1)"

lemma main_loop_done_eq: "main_loop_done i t w s = main_loop_head i (report_done i t w s)"
  by (simp add: main_loop_done_def report_done_def Let_def)

lemma notified_single:
  assumes "notified cs x w" "length cs \<le> 1" "y \<noteq> x"
  shows "x \<notin> set (wake w y cs)"
  using assms by (cases cs) (auto simp: notified_def wake_def split: option.splits nat.splits)

lemma report_inv:
  assumes inv: "pool_inv n m s" and n: "n < 2 ^ 64" and i: "i < length (threads s)" "threads s ! i = Executing t"
    and w: "notified (callers s) SleepingCaller w"
  shows "pool_inv n m (report_done i t w s)" "i < length (threads (report_done i t w s))"
    "threads (report_done i t w s) ! i = Awake"
proof -
  have upd: "in_flight (threads s) = add_mset t (in_flight ((threads s)[i := Awake]))"
    using in_flight_update [OF i(1), of Awake] i(2) by simp
  have av: "add64 (available s) 1 = available s + 1"
    using inv n upd by (simp add: pool_inv_def)
  let ?F = "in_flight ((threads s)[i := Awake])"
  have base: "length (threads s) = n" "total s = n" "length (callers s) = m" "map snd (started s) @ tasks s = submitted s"
      "\<not> complete s" "mset (finished s) + add_mset t ?F = mset (map snd (started s))"
    using inv upd by (simp_all add: pool_inv_def)
  have size: "available s + 1 + size ?F = n" using inv upd by (simp add: pool_inv_def)
  then have F: "?F = {#} \<longleftrightarrow> available s + 1 = n" by (subst size_eq_0_iff_empty [symmetric]) linarith
  have ex: "pool_running s \<longrightarrow> Exited \<notin> set ((threads s)[i := Awake])"
    using inv set_update_subset_insert [of "threads s" i Awake] by (force simp: pool_inv_def)
  have aw: "\<exists>w \<in> set ((threads s)[i := Awake]). w = Awake \<or> task_of w \<noteq> {#}"
    by (rule bexI [of _ Awake]) (simp_all add: i(1) set_update_memI)
  have cl: "length (wake w AwakeCaller (callers s)) = length (callers s)" by (simp add: wake_def split: option.splits)
  have sl: "m \<le> 1 \<longrightarrow> SleepingCaller \<notin> set (wake w AwakeCaller (callers s))"
    using notified_single [OF w] base(3) by simp
  show "pool_inv n m (report_done i t w s)"
  proof (cases "tasks s = [] \<and> available s + 1 = n")
    case True
    then show ?thesis using base size F ex aw cl sl av by (simp add: report_done_def Let_def pool_inv_def del: mset_map)
  next
    case False
    then show ?thesis using base size F ex aw av by (auto simp add: report_done_def Let_def pool_inv_def simp del: mset_map)
  qed
  show "i < length (threads (report_done i t w s))" "threads (report_done i t w s) ! i = Awake"
    using i(1) by (simp_all add: report_done_def Let_def)
qed

lemma worker_step_inv: "worker_step s t \<Longrightarrow> pool_inv n m s \<Longrightarrow> n < 2 ^ 64 \<Longrightarrow> pool_inv n m t"
proof (induction rule: worker_step.induct)
  case (head i s)
  then show ?case by (intro head_inv)
next
  case (report i s t w)
  then show ?case unfolding main_loop_done_eq by (intro head_inv report_inv)
qed

lemma in_flight_wake: "notified ws Asleep w \<Longrightarrow> in_flight (wake w Awake ws) = in_flight ws"
proof (cases w)
  case (Some j)
  moreover assume "notified ws Asleep w"
  ultimately show ?thesis using in_flight_update [of j ws Awake] by (simp add: notified_def wake_def)
qed (simp add: wake_def)

lemma push_inv:
  assumes inv: "pool_inv n m s" and run: "pool_running s" and w: "notified (threads s) Asleep w"
  shows "pool_inv n m (pool_push t w s)"
proof -
  let ?ws = "wake w Awake (threads s)"
  have len: "length ?ws = length (threads s)" by (simp add: wake_def split: option.splits)
  have ex: "Exited \<notin> set ?ws"
    using inv run set_update_subset_insert [of "threads s" _ Awake]
    by (fastforce simp: pool_inv_def wake_def split: option.splits)
  have some: "\<exists>v \<in> set ?ws. v = Awake \<or> task_of v \<noteq> {#}" if n: "0 < n"
  proof (cases w)
    case None
    have "threads s \<noteq> []" using n inv by (auto simp: pool_inv_def)
    then have v: "hd (threads s) \<in> set (threads s)" by simp
    moreover have "hd (threads s) \<noteq> Asleep" "hd (threads s) \<noteq> Exited"
      using v w None inv run by (auto simp: notified_def pool_inv_def)
    ultimately show ?thesis using live_worker None by (auto simp: wake_def)
  next
    case (Some j)
    then show ?thesis using w by (auto simp: notified_def wake_def intro!: bexI [of _ Awake] set_update_memI)
  qed
  show ?thesis
    using inv len ex some in_flight_wake [OF w] by (simp add: pool_push_def pool_inv_def flip: append_assoc)
qed

lemma in_flight_stop: "in_flight (map (\<lambda>w. case w of Asleep \<Rightarrow> Awake | _ \<Rightarrow> w) ws) = in_flight ws"
proof (induction ws)
  case (Cons w ws)
  then show ?case by (cases w) (simp_all add: in_flight_def)
qed simp

lemma spurious_inv:
  assumes inv: "pool_inv n m s" and i: "i < length (threads s)" "threads s ! i = Asleep"
  shows "pool_inv n m (s\<lparr>threads := (threads s)[i := Awake]\<rparr>)"
proof -
  have "in_flight ((threads s)[i := Awake]) = in_flight (threads s)"
    using in_flight_update [OF i(1), of Awake] i(2) by simp
  moreover have "Awake \<in> set ((threads s)[i := Awake])" using i(1) by (simp add: set_update_memI)
  moreover have "Exited \<notin> set ((threads s)[i := Awake])" if "Exited \<notin> set (threads s)"
    using that set_update_subset_insert [of "threads s" i Awake] by force
  ultimately show ?thesis using inv by (auto simp: pool_inv_def)
qed

lemma caller_inv:
  assumes inv: "pool_inv n m s" and x: "complete s \<Longrightarrow> x \<noteq> SleepingCaller"
  shows "pool_inv n m (s\<lparr>callers := (callers s)[c := x]\<rparr>)"
proof -
  have "SleepingCaller \<notin> set ((callers s)[c := x])" if "complete s" "SleepingCaller \<notin> set (callers s)"
    using that x set_update_subset_insert [of "callers s" c x] by force
  then show ?thesis using inv by (simp add: pool_inv_def)
qed

lemma pool_step_inv: "pool_step s t \<Longrightarrow> pool_inv n m s \<Longrightarrow> n < 2 ^ 64 \<Longrightarrow> pool_inv n m t"
proof (induction rule: pool_step.induct)
  case (worker s t)
  then show ?case by (rule worker_step_inv)
next
  case (run s w f)
  then show ?case by (simp add: pool_run_def push_inv)
next
  case (run_id s w f)
  then show ?case by (simp add: runTaskWithID_def push_inv)
next
  case (wait c s)
  then show ?case unfolding waitWorkComplete_def by (intro caller_inv) auto
next
  case (spurious_worker i s)
  then show ?case by (intro spurious_inv)
next
  case (spurious_caller c s)
  then show ?case by (intro caller_inv) auto
next
  case (destroy s)
  then show ?case by (simp add: delete_ThreadPool_def pool_inv_def in_flight_stop)
qed

lemma reachable_inv: "pool_reachable n m s \<Longrightarrow> n < 2 ^ 64 \<Longrightarrow> pool_inv n m s"
  unfolding pool_reachable_def
  by (induction rule: rtranclp_induct) (simp_all add: pool_inv_new pool_step_inv)

section \<open>Progress of the workers\<close>

fun effort :: "'f worker_state \<Rightarrow> nat" where
  "effort Awake = 1"
| "effort (Executing _) = 2"
| "effort _ = 0"

definition remaining_work :: "'f ThreadPool \<Rightarrow> nat" where
  "remaining_work s = 3 * length (tasks s) + sum_list (map effort (threads s))"

lemma effort_update:
  "i < length ws \<Longrightarrow> sum_list (map effort (ws[i := w])) + effort (ws ! i) = sum_list (map effort ws) + effort w"
proof (induction ws arbitrary: i)
  case (Cons a ws)
  then show ?case by (cases i) simp_all
qed simp

lemma head_decreases:
  assumes "pool_running s" "i < length (threads s)" "threads s ! i = Awake"
  shows "remaining_work (main_loop_head i s) < remaining_work s" "pool_running (main_loop_head i s)"
  using assms effort_update [OF assms(2), of Asleep] effort_update [OF assms(2), of "Executing (hd (tasks s))"]
  by (cases "tasks s"; simp add: main_loop_head_def remaining_work_def)+

lemma worker_step_decreases:
  "worker_step s t \<Longrightarrow> pool_running s \<Longrightarrow> remaining_work t < remaining_work s \<and> pool_running t"
proof (induction rule: worker_step.induct)
  case (head i s)
  then show ?case by (simp add: head_decreases)
next
  case (report i s t w)
  let ?s = "report_done i t w s"
  have r: "pool_running ?s" "i < length (threads ?s)" "threads ?s ! i = Awake"
    using report by (simp_all add: report_done_def Let_def)
  have "remaining_work ?s < remaining_work s"
    using effort_update [OF report(1), of Awake] report(2) by (simp add: report_done_def remaining_work_def Let_def)
  then show ?case unfolding main_loop_done_eq using head_decreases [OF r] by simp
qed

lemma notified_ex: "\<exists>w. notified ws x w"
proof (cases "x \<in> set ws")
  case True
  then obtain j where "j < length ws" "ws ! j = x" by (auto simp: in_set_conv_nth)
  then show ?thesis by (intro exI [of _ "Some j"]) (simp add: notified_def)
qed (intro exI [of _ None], simp add: notified_def)

lemma worker_step_enabled:
  assumes "pool_inv n m s" "pool_running s" "0 < n" "\<not> complete s"
  shows "\<exists>t. worker_step s t"
proof -
  have "\<exists>w \<in> set (threads s). w = Awake \<or> task_of w \<noteq> {#}"
    using assms by (cases "tasks s = []") (auto simp: pool_inv_def in_flight_empty)
  then obtain i where i: "i < length (threads s)" "threads s ! i = Awake \<or> task_of (threads s ! i) \<noteq> {#}"
    by (auto simp: in_set_conv_nth)
  obtain w where w: "notified (callers s) SleepingCaller w"
    using notified_ex [of "callers s" SleepingCaller] by blast
  show ?thesis
  proof (cases "threads s ! i")
    case Awake
    then show ?thesis using worker_step.head [OF i(1)] by blast
  next
    case (Executing t)
    then show ?thesis using worker_step.report [OF i(1) _ w] by blast
  qed (use i in auto)
qed

lemma worker_steps:
  assumes "(worker_step ^^ k) s t" "pool_inv n m s" "n < 2 ^ 64" "pool_running s"
  shows "pool_inv n m t \<and> pool_running t \<and> k + remaining_work t \<le> remaining_work s"
  using assms(1)
proof (induction k arbitrary: t)
  case 0
  then show ?case using assms by simp
next
  case (Suc k)
  then obtain u where u: "(worker_step ^^ k) s u" "worker_step u t" by auto
  then have ih: "pool_inv n m u" "pool_running u" "k + remaining_work u \<le> remaining_work s" using Suc.IH by simp_all
  then show ?case using worker_step_inv [OF u(2) ih(1) assms(3)] worker_step_decreases [OF u(2) ih(2)] by simp
qed

lemma in_flight_count: "size (in_flight ws) = length (filter is_executing ws)"
proof (induction ws)
  case (Cons w ws)
  then show ?case by (cases w) (simp_all add: in_flight_def)
qed (simp add: in_flight_def)

section \<open>Properties\<close>

text \<open>
  Property C5. In every reachable state of a pool of \<open>n\<close> threads, however its callers and its workers interleave and
  wherever spurious wake-ups strike: the tasks started so far followed by the tasks in the queue are exactly the tasks
  submitted, in the order of submission, so that no task is lost, started twice or overtaken; \<open>complete_\<close>, which
  lets \<open>waitWorkComplete\<close> return, holds exactly when every submitted task has finished; and \<open>numAvailable()\<close> is
  the number of threads that are not running a task.
\<close>

theorem thread_pool_tasks:
  assumes "pool_reachable n m s" "n < 2 ^ 64"
  shows "map snd (started s) @ tasks s = submitted s \<and>
    (complete s \<longleftrightarrow> mset (finished s) = mset (submitted s)) \<and>
    mset (finished s) \<subseteq># mset (map snd (started s)) \<and>
    numAvailable s = length (filter (\<lambda>w. \<not> is_executing w) (threads s))"
proof (intro conjI)
  have inv: "map snd (started s) @ tasks s = submitted s"
    "complete s \<longleftrightarrow> tasks s = [] \<and> in_flight (threads s) = {#}"
    "mset (finished s) + in_flight (threads s) = mset (map snd (started s))"
    "available s + size (in_flight (threads s)) = length (threads s)"
    using reachable_inv [OF assms] by (simp_all add: pool_inv_def)
  show "map snd (started s) @ tasks s = submitted s" by (rule inv(1))
  have "mset (finished s) + (in_flight (threads s) + mset (tasks s)) = mset (submitted s)"
    unfolding inv(1) [symmetric] mset_append inv(3) [symmetric] by simp
  then show "complete s \<longleftrightarrow> mset (finished s) = mset (submitted s)" unfolding inv(2) by (metis add_cancel_left_right mset_zero_iff union_eq_empty)
  show "mset (finished s) \<subseteq># mset (map snd (started s))" unfolding inv(3) [symmetric] by simp
  show "numAvailable s = length (filter (\<lambda>w. \<not> is_executing w) (threads s))"
    using inv(4) sum_length_filter_compl [of is_executing "threads s"]
    by (simp add: numAvailable_def in_flight_count)
qed

definition demo_pool :: "nat ThreadPool" where
  "demo_pool = main_loop_done 0 (NoId 7) None (main_loop_head 0 (pool_run 7 None (new_ThreadPool 1 1)))"

lemma demo_reachable: "pool_reachable 1 1 demo_pool"
proof -
  let ?s0 = "new_ThreadPool 1 1 :: nat ThreadPool"
  let ?s1 = "pool_run 7 None ?s0" let ?s2 = "main_loop_head 0 ?s1"
  note d = new_ThreadPool_def pool_run_def pool_push_def wake_def notified_def main_loop_head_def
  have "pool_step ?s0 ?s1" by (rule pool_step.run) (simp_all add: d)
  moreover have "pool_step ?s1 ?s2" by (rule pool_step.worker, rule worker_step.head) (simp_all add: d)
  moreover have "pool_step ?s2 demo_pool"
    unfolding demo_pool_def by (rule pool_step.worker, rule worker_step.report) (simp_all add: d)
  ultimately show ?thesis unfolding pool_reachable_def by (meson converse_rtranclp_into_rtranclp rtranclp.rtrancl_refl)
qed

theorem thread_pool_tasks_witness:
  "mset (finished demo_pool) = mset (submitted demo_pool) \<and> numAvailable demo_pool = 1"
proof -
  have e: "complete demo_pool" "filter (\<lambda>w. \<not> is_executing w) (threads demo_pool) = [Asleep]"
    by (simp_all add: demo_pool_def new_ThreadPool_def pool_run_def pool_push_def wake_def main_loop_head_def
        main_loop_done_def sub64_def add64_def)
  show ?thesis
    using thread_pool_tasks [OF demo_reachable] e by simp
qed

text \<open>
  Property C14. Progress: as long as the destructor has not stopped a pool with at least one thread, the workers, taking
  steps in any order and with no new task arriving, can take no more than \<open>remaining_work\<close> steps, and they are not
  stuck before every task has finished: a worker can take a step unless \<open>complete_\<close> holds, so no wake-up of a worker
  is lost. When at most one thread calls \<open>waitWorkComplete\<close>, it is not left asleep once \<open>complete_\<close> holds.
\<close>

theorem thread_pool_progress:
  assumes "pool_reachable n m s" "n < 2 ^ 64" "0 < n" "pool_running s" "(worker_step ^^ k) s t"
  shows "k \<le> remaining_work s \<and> (complete t \<or> (\<exists>u. worker_step t u)) \<and>
    (m \<le> 1 \<and> complete t \<longrightarrow> SleepingCaller \<notin> set (callers t))"
proof (intro conjI)
  have t: "pool_inv n m t" "pool_running t" "k + remaining_work t \<le> remaining_work s"
    using worker_steps [OF assms(5) reachable_inv [OF assms(1,2)] assms(2,4)] by simp_all
  show "k \<le> remaining_work s" using t(3) by simp
  show "complete t \<or> (\<exists>u. worker_step t u)" using worker_step_enabled [OF t(1,2) assms(3)] by blast
  show "m \<le> 1 \<and> complete t \<longrightarrow> SleepingCaller \<notin> set (callers t)" using t(1) by (simp add: pool_inv_def)
qed

theorem thread_pool_progress_witness:
  "SleepingCaller \<notin> set (callers demo_pool) \<and> remaining_work demo_pool = 0"
proof -
  have e: "complete demo_pool" "pool_running demo_pool" "remaining_work demo_pool = 0" "(worker_step ^^ 0) demo_pool demo_pool"
    by (simp_all add: demo_pool_def new_ThreadPool_def pool_run_def pool_push_def wake_def main_loop_head_def
        main_loop_done_def sub64_def add64_def remaining_work_def)
  show ?thesis using thread_pool_progress [OF demo_reachable _ _ e(2,4)] e(1,3) by simp
qed

text \<open>
  With two callers waiting, the single \<open>completed_.notify_one()\<close> wakes only one: the other one is still asleep when all
  work is done and every worker is asleep.
\<close>

lemma second_waiter_sleeps:
  "\<exists>s :: nat ThreadPool. pool_reachable 1 2 s \<and> complete s \<and> threads s = [Asleep] \<and> callers s = [AwakeCaller, SleepingCaller]"
proof -
  let ?s0 = "new_ThreadPool 1 2 :: nat ThreadPool"
  let ?s1 = "pool_run 7 None ?s0" let ?s2 = "waitWorkComplete 0 ?s1" let ?s3 = "waitWorkComplete 1 ?s2"
  let ?s4 = "main_loop_head 0 ?s3" let ?s5 = "main_loop_done 0 (NoId 7) (Some 0) ?s4"
  note d = new_ThreadPool_def pool_run_def pool_push_def wake_def notified_def main_loop_head_def waitWorkComplete_def
    numeral_2_eq_2
  have "pool_step ?s0 ?s1" by (rule pool_step.run) (simp_all add: d)
  moreover have "pool_step ?s1 ?s2" by (rule pool_step.wait) (simp_all add: d)
  moreover have "pool_step ?s2 ?s3" by (rule pool_step.wait) (simp_all add: d)
  moreover have "pool_step ?s3 ?s4" by (rule pool_step.worker, rule worker_step.head) (simp_all add: d)
  moreover have "pool_step ?s4 ?s5" by (rule pool_step.worker, rule worker_step.report) (simp_all add: d)
  ultimately have "pool_reachable 1 2 ?s5"
    unfolding pool_reachable_def by (meson converse_rtranclp_into_rtranclp rtranclp.rtrancl_refl)
  moreover have "complete ?s5 \<and> threads ?s5 = [Asleep] \<and> callers ?s5 = [AwakeCaller, SleepingCaller]"
    by (simp add: d main_loop_done_def sub64_def add64_def)
  ultimately show ?thesis by blast
qed

text \<open>
  \<open>setNumThreads\<close> stores the new number also when it reports that the pool has started, so only the first such call
  reports it.
\<close>

lemma setNumThreads_reports_once:
  "fst (setNumThreads 4 (snd (global_work_queue new_work_queue)))
     = Inl (RuntimeError ''Error: cannot set num threads after pool has started'')"
  "fst (setNumThreads 4 (snd (setNumThreads 4 (snd (global_work_queue new_work_queue))))) = Inr ()"
  by (simp_all add: setNumThreads_def global_work_queue_def new_work_queue_def)

end
