(* ===== verification/Autograd.thy ===== *)
theory Autograd
  imports State_Exn Backends Shapes Scalar_Types "HOL-Library.AList"
begin

text \<open>
  The autograd engine (torch/csrc/autograd/engine.cpp, input_buffer.cpp): one call of \<open>Engine::execute\<close> from a
  thread that is not a worker, with one worker thread for each ready queue. A function of the graph is its number in
  the list of nodes; what a function computes is an argument, as are the operations on tensors. A step of the model
  is what a worker does while it holds a mutex or reads or writes an atomic, or the evaluation of one function: it pops
  a task, looks whether there was an error, evaluates the task and hands the gradients on, and counts it as done. Calls of \<open>execute\<close> from inside a function, the release of saved
  variables and the profiling of anomalies beyond the check for NaN are not modelled.
\<close>

section \<open>Variables and functions\<close>

record 'v var_ops =
  v_add :: "'v \<Rightarrow> 'v \<Rightarrow> 'v"
  v_sum_to :: "'v \<Rightarrow> int list \<Rightarrow> 'v"
  v_sizes :: "'v \<Rightarrow> int list"
  v_backend :: "'v \<Rightarrow> Backend"
  v_scalar_type :: "'v \<Rightarrow> ScalarType"
  v_device :: "'v \<Rightarrow> Device"
  v_has_nan :: "'v \<Rightarrow> bool"

text \<open>A list of variables; an undefined variable is \<open>None\<close>. An edge is the function it points to and an input of it.\<close>

type_synonym 'v vars = "'v option list"

type_synonym edge = "(nat \<times> nat) option"

record InputMetadata =
  meta_type :: "(Backend \<times> ScalarType) option"
  meta_shape :: "int list"
  meta_device :: Device

record 'v fn_node =
  fn_edges :: "edge list"
  fn_metadata :: "InputMetadata list"
  fn_seq :: nat
  fn_apply :: "'v vars \<Rightarrow> 'v vars result"
  fn_pre_hooks :: "('v vars \<Rightarrow> 'v vars result) list"
  fn_post_hooks :: "('v vars \<Rightarrow> 'v vars \<Rightarrow> 'v vars result) list"

type_synonym 'v graph = "'v fn_node list"

definition next_edges :: "'v graph \<Rightarrow> nat \<Rightarrow> edge list" where
  "next_edges G f = (if f < length G then fn_edges (G ! f) else [])"

definition fn_num_inputs :: "'v graph \<Rightarrow> nat \<Rightarrow> nat" where
  "fn_num_inputs G f = (if f < length G then length (fn_metadata (G ! f)) else 0)"

definition sequence_nr :: "'v graph \<Rightarrow> nat \<Rightarrow> nat" where
  "sequence_nr G f = (if f < length G then fn_seq (G ! f) else 0)"

definition GraphRoot :: "nat \<Rightarrow> edge list \<Rightarrow> 'v vars \<Rightarrow> 'v fn_node" where
  "GraphRoot seq functions inputs = \<lparr>fn_edges = functions, fn_metadata = [], fn_seq = seq, fn_apply = (\<lambda>_. Inr inputs),
     fn_pre_hooks = [], fn_post_hooks = []\<rparr>"

section \<open>Input buffers\<close>

definition v_is_sparse :: "'v var_ops \<Rightarrow> 'v \<Rightarrow> bool" where
  "v_is_sparse ops v \<longleftrightarrow> layout_from_backend (v_backend ops v) = Sparse"

text \<open>The in-place additions are used only on tensors nobody else refers to, so they are additions.\<close>

definition accumulate_var :: "'v var_ops \<Rightarrow> 'v option \<Rightarrow> 'v option \<Rightarrow> 'v option" where
  "accumulate_var ops old var = (case var of None \<Rightarrow> old | Some v \<Rightarrow> (case old of None \<Rightarrow> Some v
     | Some u \<Rightarrow> Some (if v_is_sparse ops u then v_add ops v u else v_add ops u v)))"

definition InputBuffer_add :: "'v var_ops \<Rightarrow> nat \<Rightarrow> 'v option \<Rightarrow> 'v vars \<Rightarrow> 'v vars result" where
  "InputBuffer_add ops pos var buf = rbind (AT_CHECK (pos < length buf) ''ASSERT FAILED'')
     (\<lambda>_. Inr (buf[pos := accumulate_var ops (buf ! pos) var]))"

fun InputBuffer_device :: "'v var_ops \<Rightarrow> 'v vars \<Rightarrow> Device" where
  "InputBuffer_device ops [] = \<lparr>dev_type = DeviceType.CPU, dev_index = -1\<rparr>"
| "InputBuffer_device ops (v # vs) = (case v of
     Some x \<Rightarrow> if dev_type (v_device ops x) \<noteq> DeviceType.CPU then v_device ops x else InputBuffer_device ops vs
   | None \<Rightarrow> InputBuffer_device ops vs)"

section \<open>Calling a function\<close>

definition is_compatible_type :: "Backend \<times> ScalarType \<Rightarrow> Backend \<times> ScalarType \<Rightarrow> bool result" where
  "is_compatible_type expected actual = (if expected = actual then Inr True
     else if layout_from_backend (fst actual) \<noteq> Sparse then Inr False
     else rbind (toDense (fst actual)) (\<lambda>b. Inr (expected = (b, snd actual))))"

definition validate_output :: "'v var_ops \<Rightarrow> InputMetadata \<Rightarrow> 'v \<Rightarrow> 'v result" where
  "validate_output ops m g =
     rbind (if v_sizes ops g = meta_shape m then Inr g
            else rbind (AT_CHECK (is_expandable_to (meta_shape m) (v_sizes ops g)) ''invalid gradient: shape'')
              (\<lambda>_. Inr (v_sum_to ops g (meta_shape m)))) (\<lambda>g'.
     rbind (case meta_type m of None \<Rightarrow> Inl (C10Error ''ASSERT FAILED'')
            | Some type \<Rightarrow> is_compatible_type type (v_backend ops g', v_scalar_type ops g')) (\<lambda>c.
     rbind (AT_CHECK c ''invalid gradient: type'') (\<lambda>_.
     rbind (AT_CHECK (v_device ops g' = meta_device m) ''invalid gradient: device'') (\<lambda>_. Inr g'))))"

fun validate_loop :: "'v var_ops \<Rightarrow> 'v graph \<Rightarrow> edge list \<Rightarrow> 'v vars \<Rightarrow> 'v vars result" where
  "validate_loop ops G (e # es) (g # gs) =
     rbind (case e of None \<Rightarrow> Inr g
       | Some (f, nr) \<Rightarrow> if nr < fn_num_inputs G f
           then (case g of None \<Rightarrow> Inr None
             | Some v \<Rightarrow> rbind (validate_output ops (fn_metadata (G ! f) ! nr) v) (\<lambda>v. Inr (Some v)))
           else Inl UndefinedBehaviour) (\<lambda>g'.
     rbind (validate_loop ops G es gs) (\<lambda>gs'. Inr (g' # gs')))"
| "validate_loop ops G _ gs = Inr gs"

definition validate_outputs :: "'v var_ops \<Rightarrow> 'v graph \<Rightarrow> edge list \<Rightarrow> 'v vars \<Rightarrow> 'v vars result" where
  "validate_outputs ops G edges grads =
     rbind (AT_CHECK (length grads = length edges) ''invalid number of gradients'') (\<lambda>_. validate_loop ops G edges grads)"

fun call_pre_hooks :: "('v vars \<Rightarrow> 'v vars result) list \<Rightarrow> 'v vars \<Rightarrow> 'v vars result" where
  "call_pre_hooks [] inputs = Inr inputs"
| "call_pre_hooks (hook # hooks) inputs = rbind (hook inputs) (call_pre_hooks hooks)"

fun call_post_hooks :: "('v vars \<Rightarrow> 'v vars \<Rightarrow> 'v vars result) list \<Rightarrow> 'v vars \<Rightarrow> 'v vars \<Rightarrow> 'v vars result" where
  "call_post_hooks [] outputs inputs = Inr outputs"
| "call_post_hooks (hook # hooks) outputs inputs = rbind (hook outputs inputs) (\<lambda>outputs. call_post_hooks hooks outputs inputs)"

definition call_function :: "'v var_ops \<Rightarrow> 'v graph \<Rightarrow> nat \<Rightarrow> 'v vars \<Rightarrow> 'v vars result" where
  "call_function ops G f buf = (if f < length G
     then let fn = G ! f in
       rbind (call_pre_hooks (fn_pre_hooks fn) buf) (\<lambda>inputs.
       rbind (fn_apply fn inputs) (\<lambda>outputs.
       rbind (validate_outputs ops G (fn_edges fn) outputs) (\<lambda>outputs.
         if fn_post_hooks fn \<noteq> [] then call_post_hooks (fn_post_hooks fn) outputs inputs else Inr outputs)))
     else Inl UndefinedBehaviour)"

section \<open>State\<close>

record 'v FunctionTask =
  task_fn :: nat
  task_inputs :: "'v vars"

record ExecInfo =
  needed :: bool
  captures :: "(nat \<times> nat) list option"

definition should_execute :: "ExecInfo \<Rightarrow> bool" where
  "should_execute e \<longleftrightarrow> needed e \<or> captures e \<noteq> None"

record 'v GraphTask =
  has_error :: bool
  exception :: "exn option"
  outstanding_tasks :: nat
  not_ready :: "nat \<rightharpoonup> 'v vars"
  dependencies :: "nat \<rightharpoonup> int"
  exec_info :: "(nat \<times> ExecInfo) list"
  captured_vars :: "'v vars"

definition new_GraphTask :: "'v GraphTask" where
  "new_GraphTask = \<lparr>has_error = False, exception = None, outstanding_tasks = 0, not_ready = Map.empty,
     dependencies = Map.empty, exec_info = [], captured_vars = []\<rparr>"

datatype 'v engine_worker = Popping | Popped "'v FunctionTask" | Evaluating "'v FunctionTask" | Counting

text \<open>\<open>evaluated\<close> records the functions called, with their inputs and outputs; nothing reads it.\<close>

record 'v Engine = "'v GraphTask" +
  ready_queues :: "'v FunctionTask list list"
  workers :: "'v engine_worker list"
  evaluated :: "(nat \<times> 'v vars \<times> 'v vars) list"

type_synonym ('v, 'a) emon = "('v Engine, 'a) mon"

definition start_threads :: "DeviceIndex list \<Rightarrow> nat" where
  "start_threads counts = nat (sint (fold (\<lambda>c n. if sint n < sint c then c else n) counts 0)) + 1"

definition ready_queue :: "Device \<Rightarrow> nat \<Rightarrow> nat result" where
  "ready_queue device n = (let k = (if dev_type device = DeviceType.CPU then 0 else sint (dev_index device) + 1)
     in if 0 \<le> k \<and> nat k < n then Inr (nat k) else Inl OutOfRange)"

definition ReadyQueue_push :: "nat \<Rightarrow> 'v FunctionTask \<Rightarrow> ('v, unit) emon" where
  "ReadyQueue_push q item = modify (\<lambda>s. s\<lparr>outstanding_tasks := outstanding_tasks s + 1,
     ready_queues := (ready_queues s)[q := ready_queues s ! q @ [item]]\<rparr>)"

section \<open>Evaluating a function\<close>

definition push_ready :: "'v var_ops \<Rightarrow> nat \<Rightarrow> 'v vars \<Rightarrow> ('v, unit) emon" where
  "push_ready ops f buf = bindm (gets (length \<circ> ready_queues)) (\<lambda>n.
     bindm (lift_result (ready_queue (InputBuffer_device ops buf) n)) (\<lambda>q.
       ReadyQueue_push q \<lparr>task_fn = f, task_inputs = buf\<rparr>))"

definition propagate_edge :: "'v var_ops \<Rightarrow> 'v graph \<Rightarrow> nat \<times> nat \<Rightarrow> 'v option \<Rightarrow> ('v, unit) emon" where
  "propagate_edge ops G next output = (let f = fst next in
     bindm (gets dependencies) (\<lambda>deps. case deps f of
       None \<Rightarrow> throw (RuntimeError ''dependency not found'')
     | Some k \<Rightarrow> let k = int32_of (k - 1); is_ready = (k = 0) in
       seqm (modify (\<lambda>s. s\<lparr>dependencies := (dependencies s)(f := if is_ready then None else Some k)\<rparr>))
       (bindm (gets not_ready) (\<lambda>nr. case nr f of
          None \<Rightarrow> bindm (gets exec_info) (\<lambda>ei.
            if ei \<noteq> [] \<and> (case map_of ei f of None \<Rightarrow> True | Some info \<Rightarrow> \<not> should_execute info) then ret ()
            else bindm (lift_result (InputBuffer_add ops (snd next) output (replicate (fn_num_inputs G f) None))) (\<lambda>buf.
              if is_ready then push_ready ops f buf
              else modify (\<lambda>s. s\<lparr>not_ready := (not_ready s)(f \<mapsto> buf)\<rparr>)))
        | Some old \<Rightarrow> bindm (lift_result (InputBuffer_add ops (snd next) output old)) (\<lambda>buf.
            seqm (modify (\<lambda>s. s\<lparr>not_ready := (not_ready s)(f \<mapsto> buf)\<rparr>))
            (if is_ready then seqm (push_ready ops f buf) (modify (\<lambda>s. s\<lparr>not_ready := (not_ready s)(f := None)\<rparr>))
             else ret ()))))))"

fun propagate :: "'v var_ops \<Rightarrow> 'v graph \<Rightarrow> edge list \<Rightarrow> 'v vars \<Rightarrow> ('v, unit) emon" where
  "propagate ops G es [] = ret ()"
| "propagate ops G [] (v # vs) = throw UndefinedBehaviour"
| "propagate ops G (None # es) (v # vs) = propagate ops G es vs"
| "propagate ops G (Some e # es) (v # vs) = seqm (propagate_edge ops G e v) (propagate ops G es vs)"

fun capture_vars :: "(nat \<times> nat) list \<Rightarrow> 'v vars \<Rightarrow> ('v, unit) emon" where
  "capture_vars [] inputs = ret ()"
| "capture_vars ((i, out_idx) # cs) inputs = bindm (gets captured_vars) (\<lambda>cv.
     if i < length inputs \<and> out_idx < length cv
     then seqm (modify (\<lambda>s. s\<lparr>captured_vars := (captured_vars s)[out_idx := inputs ! i]\<rparr>)) (capture_vars cs inputs)
     else throw UndefinedBehaviour)"

definition instrument :: "'v FunctionTask \<Rightarrow> ('v, bool) emon" where
  "instrument task = bindm (gets exec_info) (\<lambda>ei. if ei = [] then ret True
     else case map_of ei (task_fn task) of None \<Rightarrow> throw OutOfRange
     | Some info \<Rightarrow> seqm (case captures info of None \<Rightarrow> ret () | Some cs \<Rightarrow> capture_vars cs (task_inputs task))
         (ret (needed info)))"

definition anomaly_check :: "bool \<Rightarrow> 'v var_ops \<Rightarrow> 'v vars \<Rightarrow> unit result" where
  "anomaly_check anomaly ops outputs =
     (if anomaly \<and> list_ex (\<lambda>v. case v of None \<Rightarrow> False | Some x \<Rightarrow> v_has_nan ops x) outputs
      then Inl (RuntimeError ''returned nan values'') else Inr ())"

definition evaluate_function :: "bool \<Rightarrow> 'v var_ops \<Rightarrow> 'v graph \<Rightarrow> 'v FunctionTask \<Rightarrow> ('v, unit) emon" where
  "evaluate_function anomaly ops G task = bindm (instrument task) (\<lambda>go. if \<not> go then ret () else
     bindm (lift_result (call_function ops G (task_fn task) (task_inputs task))) (\<lambda>outputs.
     seqm (modify (\<lambda>s. s\<lparr>evaluated := evaluated s @ [(task_fn task, task_inputs task, outputs)]\<rparr>))
     (if outputs = [] then ret ()
      else seqm (lift_result (anomaly_check anomaly ops outputs))
        (propagate ops G (next_edges G (task_fn task)) outputs))))"

definition thread_on_exception :: "exn \<Rightarrow> 'v Engine \<Rightarrow> 'v Engine" where
  "thread_on_exception e s = (if has_error s then s else s\<lparr>exception := Some e, has_error := True\<rparr>)"

section \<open>The workers\<close>

text \<open>\<open>std::priority_queue\<close> hands out an item with the largest sequence number; among equal ones it may choose any.\<close>

definition on_top :: "'v graph \<Rightarrow> 'v FunctionTask list \<Rightarrow> nat \<Rightarrow> bool" where
  "on_top G q i \<longleftrightarrow> i < length q \<and>
     list_all (\<lambda>t. sequence_nr G (task_fn t) \<le> sequence_nr G (task_fn (q ! i))) q"

definition ReadyQueue_pop :: "nat \<Rightarrow> nat \<Rightarrow> 'v Engine \<Rightarrow> 'v Engine" where
  "ReadyQueue_pop w i s = (let q = ready_queues s ! w in
     s\<lparr>ready_queues := (ready_queues s)[w := take i q @ drop (Suc i) q],
       workers := (workers s)[w := Popped (q ! i)]\<rparr>)"

definition worker_check :: "nat \<Rightarrow> 'v FunctionTask \<Rightarrow> 'v Engine \<Rightarrow> 'v Engine" where
  "worker_check w task s = s\<lparr>workers := (workers s)[w := if has_error s then Counting else Evaluating task]\<rparr>"

definition worker_evaluate :: "bool \<Rightarrow> 'v var_ops \<Rightarrow> 'v graph \<Rightarrow> nat \<Rightarrow> 'v FunctionTask \<Rightarrow> 'v Engine \<Rightarrow> 'v Engine" where
  "worker_evaluate anomaly ops G w task s = (case evaluate_function anomaly ops G task s of
     (Inr _, t) \<Rightarrow> t\<lparr>workers := (workers t)[w := Counting]\<rparr>
   | (Inl e, t) \<Rightarrow> (thread_on_exception e t)\<lparr>workers := (workers t)[w := Counting]\<rparr>)"

definition worker_count :: "nat \<Rightarrow> 'v Engine \<Rightarrow> 'v Engine" where
  "worker_count w s = s\<lparr>outstanding_tasks := outstanding_tasks s - 1, workers := (workers s)[w := Popping]\<rparr>"

inductive thread_main_step :: "bool \<Rightarrow> 'v var_ops \<Rightarrow> 'v graph \<Rightarrow> 'v Engine \<Rightarrow> 'v Engine \<Rightarrow> bool"
  for anomaly ops G where
  pop: "w < length (workers s) \<Longrightarrow> workers s ! w = Popping \<Longrightarrow> on_top G (ready_queues s ! w) i \<Longrightarrow>
    thread_main_step anomaly ops G s (ReadyQueue_pop w i s)"
| check: "w < length (workers s) \<Longrightarrow> workers s ! w = Popped task \<Longrightarrow>
    thread_main_step anomaly ops G s (worker_check w task s)"
| evaluate: "w < length (workers s) \<Longrightarrow> workers s ! w = Evaluating task \<Longrightarrow>
    thread_main_step anomaly ops G s (worker_evaluate anomaly ops G w task s)"
| count: "w < length (workers s) \<Longrightarrow> workers s ! w = Counting \<Longrightarrow>
    thread_main_step anomaly ops G s (worker_count w s)"

section \<open>Preparing a run\<close>

text \<open>The vector \<open>queue\<close> is used as a stack; the head of the list is its back. The counts are of type \<open>int\<close>, and wrap.\<close>

fun visit_edges :: "edge list \<Rightarrow> nat list \<times> nat set \<times> (nat \<rightharpoonup> int) \<Rightarrow> nat list \<times> nat set \<times> (nat \<rightharpoonup> int)" where
  "visit_edges [] st = st"
| "visit_edges (None # es) st = visit_edges es st"
| "visit_edges (Some (f, _) # es) (queue, seen, deps) =
     visit_edges es (if f \<in> seen then queue else f # queue, insert f seen,
       deps(f \<mapsto> int32_of ((case deps f of None \<Rightarrow> 0 | Some k \<Rightarrow> k) + 1)))"

partial_function (option) dependency_loop :: "'v graph \<Rightarrow> nat list \<times> nat set \<times> (nat \<rightharpoonup> int) \<Rightarrow> (nat \<rightharpoonup> int) option" where
  "dependency_loop G st = (case st of
     ([], _, deps) \<Rightarrow> Some deps
   | (fn # queue, seen, deps) \<Rightarrow> dependency_loop G (visit_edges (next_edges G fn) (queue, seen, deps)))"

definition compute_dependencies :: "'v graph \<Rightarrow> nat \<Rightarrow> (nat \<rightharpoonup> int) option" where
  "compute_dependencies G root = dependency_loop G ([root], {}, Map.empty)"

text \<open>
  \<open>exec_info\<close> is an association list in the order of insertion; reading a missing key with \<open>[]\<close> inserts an entry with
  the default values. The edges in \<open>outputs\<close> are valid, as the callers of \<open>execute\<close> make sure.
\<close>

definition info_of :: "(nat \<times> ExecInfo) list \<Rightarrow> nat \<Rightarrow> ExecInfo" where
  "info_of ei f = (case map_of ei f of None \<Rightarrow> \<lparr>needed = False, captures = None\<rparr> | Some i \<Rightarrow> i)"

fun add_captures :: "(nat \<times> nat) list \<Rightarrow> nat \<Rightarrow> (nat \<times> ExecInfo) list \<Rightarrow> (nat \<times> ExecInfo) list" where
  "add_captures [] output_idx ei = ei"
| "add_captures ((f, nr) # outputs) output_idx ei = (let info = info_of ei f in
     add_captures outputs (output_idx + 1) (AList.update f (info\<lparr>captures :=
       Some ((case captures info of None \<Rightarrow> [] | Some cs \<Rightarrow> cs) @ [(nr, output_idx)])\<rparr>) ei))"

function get_next_fn :: "edge list \<Rightarrow> nat \<Rightarrow> nat option \<times> nat" where
  "get_next_fn next k = (if k < length next
     then (case next ! k of Some (f, _) \<Rightarrow> (Some f, k + 1) | None \<Rightarrow> get_next_fn next (k + 1)) else (None, k))"
  by pat_completeness auto
termination by (relation "measure (\<lambda>(next, k). length next - k)") auto

declare get_next_fn.simps [simp del]

definition any_needed :: "edge list \<Rightarrow> (nat \<times> ExecInfo) list \<Rightarrow> bool" where
  "any_needed es ei \<longleftrightarrow> list_ex (\<lambda>e. case e of None \<Rightarrow> False
     | Some (f, _) \<Rightarrow> (case map_of ei f of None \<Rightarrow> False | Some info \<Rightarrow> should_execute info)) es"

partial_function (option) needed_loop ::
  "'v graph \<Rightarrow> (nat \<times> nat) list \<times> nat set \<times> (nat \<times> ExecInfo) list \<Rightarrow> (nat set \<times> (nat \<times> ExecInfo) list) option" where
  "needed_loop G st = (case st of
     ([], seen, ei) \<Rightarrow> Some (seen, ei)
   | ((fn, k) # stack, seen, ei) \<Rightarrow> (case get_next_fn (next_edges G fn) k of
       (Some g, k') \<Rightarrow> needed_loop G (if g \<in> seen then ((fn, k') # stack, seen, ei)
         else ((g, 0) # (fn, k') # stack, insert g seen, ei))
     | (None, _) \<Rightarrow> needed_loop G (stack, seen,
         AList.update fn ((info_of ei fn)\<lparr>needed := any_needed (next_edges G fn) ei\<rparr>) ei)))"

fun needed_roots :: "'v graph \<Rightarrow> edge list \<Rightarrow> nat set \<times> (nat \<times> ExecInfo) list \<Rightarrow> (nat \<times> ExecInfo) list result option" where
  "needed_roots G [] (seen, ei) = Some (Inr ei)"
| "needed_roots G (None # es) (seen, ei) = Some (Inl UndefinedBehaviour)"
| "needed_roots G (Some (f, _) # es) (seen, ei) = (if f \<in> seen then needed_roots G es (seen, ei)
     else case needed_loop G ([(f, 0)], seen, ei) of None \<Rightarrow> None | Some st \<Rightarrow> needed_roots G es st)"

definition init_to_execute :: "'v graph \<Rightarrow> nat \<Rightarrow> (nat \<times> nat) list \<Rightarrow> (nat \<times> ExecInfo) list result option" where
  "init_to_execute G root outputs = needed_roots G (next_edges G root)
     ({}, add_captures outputs 0 [(root, \<lparr>needed = True, captures = None\<rparr>)])"

definition new_Engine :: "nat \<Rightarrow> 'v GraphTask \<Rightarrow> 'v Engine" where
  "new_Engine threads task = GraphTask.extend task \<lparr>ready_queues = replicate threads [],
     workers = replicate threads Popping, evaluated = []\<rparr>"

text \<open>
  \<open>Engine::execute\<close> up to the wait, and after it; \<open>seq\<close> is the next sequence number of the calling thread.
  \<open>None\<close> stands for a preparation that does not end.
\<close>

definition execute_start ::
  "'v var_ops \<Rightarrow> 'v graph \<Rightarrow> nat \<Rightarrow> nat \<Rightarrow> edge list \<Rightarrow> 'v vars \<Rightarrow> (nat \<times> nat) list \<Rightarrow> ('v graph \<times> 'v Engine) result option" where
  "execute_start ops G threads seq roots inputs outputs = (case validate_outputs ops G roots inputs of
     Inl e \<Rightarrow> Some (Inl e)
   | Inr grads \<Rightarrow> let root = length G; G = G @ [GraphRoot seq roots grads] in
     (case compute_dependencies G root of None \<Rightarrow> None | Some deps \<Rightarrow>
     (case (if outputs = [] then Some (Inr []) else init_to_execute G root outputs) of
        None \<Rightarrow> None
      | Some (Inl e) \<Rightarrow> Some (Inl e)
      | Some (Inr ei) \<Rightarrow> Some (Inr (G, snd (ReadyQueue_push 0 \<lparr>task_fn = root, task_inputs = []\<rparr>
          (new_Engine threads (new_GraphTask\<lparr>dependencies := deps, exec_info := ei,
             captured_vars := replicate (length outputs) None\<rparr>))))))))"

definition execute_finish :: "'v graph \<Rightarrow> 'v Engine \<Rightarrow> 'v vars result" where
  "execute_finish G s = (if has_error s then Inl (case exception s of Some e \<Rightarrow> e | None \<Rightarrow> UndefinedBehaviour)
     else if list_ex (\<lambda>f. not_ready s f \<noteq> None) [0..<length G]
     then Inl (RuntimeError ''could not compute gradients for some functions'')
     else Inr (captured_vars s))"

end
