(* ===== verification/Autograd_Routing.thy ===== *)
theory Autograd_Routing
  imports Autograd "HOL-Library.Multiset"
begin

text \<open>
  Two halves of the correctness of a backward pass that do not depend on the workers: the dependency counts are the
  numbers of incoming edges in the reachable part of the graph, and handing on the outputs of a call keeps, for each
  function, the count of the gradients it still waits for and the sum of those that have arrived.
\<close>

section \<open>Edges and reachable functions\<close>

fun points_to :: "nat \<Rightarrow> edge \<Rightarrow> bool" where
  "points_to f None = False"
| "points_to f (Some (g, _)) = (g = f)"

definition edge_count :: "edge list \<Rightarrow> nat \<Rightarrow> nat" where
  "edge_count es f = length (filter (points_to f) es)"

definition targets :: "edge list \<Rightarrow> nat set" where
  "targets es = {f. \<exists>nr. Some (f, nr) \<in> set es}"

definition succs :: "'v graph \<Rightarrow> (nat \<times> nat) set" where
  "succs G = {(f, g). g \<in> targets (next_edges G f)}"

definition reach :: "'v graph \<Rightarrow> nat \<Rightarrow> nat set" where
  "reach G root = (succs G)\<^sup>* `` {root}"

definition in_degree :: "'v graph \<Rightarrow> nat \<Rightarrow> nat \<Rightarrow> nat" where
  "in_degree G root f = (\<Sum>g \<in> reach G root. edge_count (next_edges G g) f)"

definition graph_ok :: "'v graph \<Rightarrow> nat \<Rightarrow> bool" where
  "graph_ok G root \<longleftrightarrow> root < length G \<and> (\<forall>f. \<forall>g \<in> targets (next_edges G f). g < length G \<and> g \<noteq> root)"

lemma targets_simps [simp]:
  "targets [] = {}" "targets (None # es) = targets es" "targets (Some (f, nr) # es) = insert f (targets es)"
  by (auto simp: targets_def)

lemma edge_count_simps [simp]:
  "edge_count [] f = 0" "edge_count (None # es) f = edge_count es f"
  "edge_count (Some (g, nr) # es) f = (if g = f then Suc (edge_count es f) else edge_count es f)"
  by (simp_all add: edge_count_def)

lemma edge_cases: obtains "(e :: edge) = None" | f nr where "e = Some (f, nr)"
  by (cases e) auto

lemma edge_count_pos: "0 < edge_count es f \<longleftrightarrow> f \<in> targets es"
proof (induction es)
  case (Cons e es)
  then show ?case by (cases e rule: edge_cases) auto
qed simp

lemma reach_root [simp]: "root \<in> reach G root"
  by (simp add: reach_def)

lemma reach_step: "f \<in> reach G root \<Longrightarrow> g \<in> targets (next_edges G f) \<Longrightarrow> g \<in> reach G root"
  by (auto simp: reach_def succs_def intro: rtrancl_into_rtrancl)

lemma reach_bound: "graph_ok G root \<Longrightarrow> reach G root \<subseteq> {..<length G}"
proof
  fix f assume ok: "graph_ok G root" and "f \<in> reach G root"
  then have "(root, f) \<in> (succs G)\<^sup>*" by (simp add: reach_def)
  then show "f \<in> {..<length G}"
    by (induction rule: rtrancl_induct) (use ok in \<open>auto simp: graph_ok_def succs_def\<close>)
qed

lemma finite_reach: "graph_ok G root \<Longrightarrow> finite (reach G root)"
  using reach_bound finite_subset by blast

lemma reach_closed:
  assumes "root \<in> P" "\<And>f. f \<in> P \<Longrightarrow> targets (next_edges G f) \<subseteq> P"
  shows "reach G root \<subseteq> P"
proof
  fix f assume "f \<in> reach G root"
  then have "(root, f) \<in> (succs G)\<^sup>*" by (simp add: reach_def)
  then show "f \<in> P" by (induction rule: rtrancl_induct) (use assms in \<open>auto simp: succs_def\<close>)
qed

section \<open>The dependency counts\<close>

definition dep_of :: "nat \<Rightarrow> int option" where
  "dep_of c = (if c = 0 then None else Some (int c))"

lemma visit_edges_run:
  "\<exists>new deps'. visit_edges es (queue, seen, deps) = (new @ queue, seen \<union> targets es, deps') \<and>
     set new = targets es - seen \<and> distinct new \<and>
     (\<forall>c. deps = dep_of \<circ> c \<longrightarrow> (\<forall>f. c f + edge_count es f < 2 ^ 31) \<longrightarrow>
        deps' = dep_of \<circ> (\<lambda>f. c f + edge_count es f))"
proof (induction es arbitrary: queue seen deps)
  case Nil
  then show ?case by simp
next
  case (Cons e es)
  show ?case
  proof (cases e rule: edge_cases)
    case 1
    then show ?thesis using Cons [of queue seen deps] by simp
  next
    case (2 g nr)
    let ?q = "if g \<in> seen then queue else g # queue"
    let ?d = "deps(g \<mapsto> int32_of ((case deps g of None \<Rightarrow> 0 | Some k \<Rightarrow> k) + 1))"
    obtain new deps' where v: "visit_edges es (?q, insert g seen, ?d) = (new @ ?q, insert g seen \<union> targets es, deps')"
      and n: "set new = targets es - insert g seen" "distinct new"
      and d: "\<And>c. ?d = dep_of \<circ> c \<Longrightarrow> (\<And>f. c f + edge_count es f < 2 ^ 31) \<Longrightarrow>
        deps' = dep_of \<circ> (\<lambda>f. c f + edge_count es f)"
      using Cons [of ?q "insert g seen" ?d] by blast
    have "deps' = dep_of \<circ> (\<lambda>f. c f + edge_count (e # es) f)"
      if c: "deps = dep_of \<circ> c" and small: "\<forall>f. c f + edge_count (e # es) f < 2 ^ 31" for c
    proof -
      have "int32_of (1 + int (c g)) = 1 + int (c g)" using small [rule_format, of g] 2 by (intro int32_of_id) auto
      then have "?d = dep_of \<circ> c(g := Suc (c g))" unfolding c by (auto simp: dep_of_def fun_eq_iff add.commute)
      moreover have "(c(g := Suc (c g))) f + edge_count es f < 2 ^ 31" for f
        using small [rule_format, of f] 2 by (simp split: if_splits)
      ultimately show ?thesis using d [of "c(g := Suc (c g))"] 2 by (simp add: fun_eq_iff)
    qed
    then have dd: "\<forall>c. deps = dep_of \<circ> c \<longrightarrow> (\<forall>f. c f + edge_count (e # es) f < 2 ^ 31) \<longrightarrow>
        deps' = dep_of \<circ> (\<lambda>f. c f + edge_count (e # es) f)" by blast
    show ?thesis
    proof (intro exI conjI)
      show "visit_edges (e # es) (queue, seen, deps)
          = ((new @ (if g \<in> seen then [] else [g])) @ queue, seen \<union> targets (e # es), deps')"
        using v 2 by auto
      show "set (new @ (if g \<in> seen then [] else [g])) = targets (e # es) - seen" using n 2 by auto
      show "distinct (new @ (if g \<in> seen then [] else [g]))" using n by auto
      show "\<forall>c. deps = dep_of \<circ> c \<longrightarrow> (\<forall>f. c f + edge_count (e # es) f < 2 ^ 31) \<longrightarrow>
        deps' = dep_of \<circ> (\<lambda>f. c f + edge_count (e # es) f)" by (rule dd)
    qed
  qed
qed

lemma dependency_loop_run:
  assumes ok: "graph_ok G root" and small: "\<And>f. in_degree G root f < 2 ^ 31" and P: "P \<subseteq> reach G root" "P \<inter> set queue = {}" "distinct queue"
    and seen: "insert root seen = P \<union> set queue" "root \<notin> seen" "seen = \<Union> ((\<lambda>f. targets (next_edges G f)) ` P)"
    and deps: "deps = dep_of \<circ> (\<lambda>f. \<Sum>g \<in> P. edge_count (next_edges G g) f)"
  shows "dependency_loop G (queue, seen, deps) = Some (dep_of \<circ> in_degree G root)"
  using assms(3-)
proof (induction "card (reach G root - P)" arbitrary: P queue seen deps rule: less_induct)
  case less
  have fin: "finite P" using less.prems(1) finite_reach [OF ok] finite_subset by blast
  have sub: "P \<union> set queue \<subseteq> reach G root"
  proof -
    have "seen \<subseteq> reach G root" unfolding less.prems(6) using less.prems(1) reach_step by fast
    then have "insert root seen \<subseteq> reach G root" by simp
    then show ?thesis unfolding less.prems(4) .
  qed
  show ?case
  proof (cases queue)
    case Nil
    have "reach G root \<subseteq> P"
    proof (rule reach_closed)
      show "root \<in> P" using less.prems(4) Nil by auto
      show "targets (next_edges G f) \<subseteq> P" if "f \<in> P" for f
        using less.prems(4,6) Nil that by auto
    qed
    then have "P = reach G root" using less.prems(1) by blast
    then have "deps = dep_of \<circ> in_degree G root" unfolding less.prems(7) in_degree_def by simp
    then show ?thesis using Nil dependency_loop.simps [of G "([], seen, deps)"] by simp
  next
    case (Cons fn rest)
    obtain new deps' where v: "visit_edges (next_edges G fn) (rest, seen, deps) = (new @ rest, seen \<union> targets (next_edges G fn), deps')"
      and n: "set new = targets (next_edges G fn) - seen" "distinct new"
      and d: "\<And>c. deps = dep_of \<circ> c \<Longrightarrow> \<forall>f. c f + edge_count (next_edges G fn) f < 2 ^ 31 \<Longrightarrow>
        deps' = dep_of \<circ> (\<lambda>f. c f + edge_count (next_edges G fn) f)"
      using visit_edges_run [of "next_edges G fn" rest seen deps] by blast
    let ?P = "insert fn P" and ?q = "new @ rest" and ?seen = "seen \<union> targets (next_edges G fn)"
    have fn: "fn \<notin> P" "fn \<in> reach G root" "fn \<notin> set rest" using less.prems(2,3) sub Cons by auto
    have nroot: "root \<notin> targets (next_edges G fn)" using ok by (auto simp: graph_ok_def)
    have old: "set new \<inter> (P \<union> set queue) = {}" using n(1) less.prems(4) nroot by auto
    have step: "dependency_loop G (queue, seen, deps) = dependency_loop G (?q, ?seen, deps')"
      using Cons v dependency_loop.simps [of G "(queue, seen, deps)"] by simp
    have "card (reach G root - ?P) < card (reach G root - P)"
      by (rule psubset_card_mono) (use fn finite_reach [OF ok] in auto)
    moreover have "?P \<subseteq> reach G root" using less.prems(1) fn(2) by simp
    moreover have "?P \<inter> set ?q = {}" using less.prems(2) fn old Cons by auto
    moreover have "distinct ?q" using n(2) less.prems(3) old Cons by auto
    moreover have "insert root ?seen = ?P \<union> set ?q" using less.prems(4) n(1) Cons by auto
    moreover have "root \<notin> ?seen" using less.prems(5) nroot by simp
    moreover have "?seen = \<Union> ((\<lambda>f. targets (next_edges G f)) ` ?P)" using less.prems(6) by auto
    moreover have "(\<Sum>g \<in> P. edge_count (next_edges G g) f) + edge_count (next_edges G fn) f < 2 ^ 31" for f
    proof -
      have "(\<Sum>g \<in> P. edge_count (next_edges G g) f) + edge_count (next_edges G fn) f = (\<Sum>g \<in> ?P. edge_count (next_edges G g) f)"
        using fin fn(1) by simp
      also have "\<dots> \<le> in_degree G root f"
        unfolding in_degree_def using fn(2) less.prems(1) by (intro sum_mono2 finite_reach [OF ok]) auto
      finally show ?thesis using small [of f] by simp
    qed
    then have "deps' = dep_of \<circ> (\<lambda>f. \<Sum>g \<in> ?P. edge_count (next_edges G g) f)"
      using d [OF less.prems(7)] fin fn(1) by (simp add: add.commute)
    ultimately show ?thesis unfolding step by (rule less.hyps)
  qed
qed

theorem compute_dependencies_in_degree:
  assumes "graph_ok G root" "\<And>f. in_degree G root f < 2 ^ 31"
  shows "compute_dependencies G root = Some (dep_of \<circ> in_degree G root)"
  unfolding compute_dependencies_def
  by (rule dependency_loop_run [OF assms, where P = "{}"]) (auto simp: dep_of_def)

section \<open>Routing gradients\<close>

text \<open>A message is a function, one of its inputs and a gradient for it; \<open>messages\<close> are those a call sends.\<close>

type_synonym 'v msg = "nat \<times> nat \<times> 'v option"

fun messages :: "edge list \<Rightarrow> 'v vars \<Rightarrow> 'v msg list" where
  "messages (None # es) (v # vs) = messages es vs"
| "messages (Some (f, nr) # es) (v # vs) = (f, nr, v) # messages es vs"
| "messages _ _ = []"

definition arrived :: "'v msg list \<Rightarrow> nat \<Rightarrow> nat" where
  "arrived A f = length (filter (\<lambda>m. fst m = f) A)"

definition add_msg :: "'v var_ops \<Rightarrow> nat \<Rightarrow> 'v vars \<Rightarrow> 'v msg \<Rightarrow> 'v vars" where
  "add_msg ops f buf m = (case m of (g, nr, v) \<Rightarrow> if g = f then buf[nr := accumulate_var ops (buf ! nr) v] else buf)"

definition received :: "'v var_ops \<Rightarrow> 'v graph \<Rightarrow> 'v msg list \<Rightarrow> nat \<Rightarrow> 'v vars" where
  "received ops G A f = foldl (add_msg ops f) (replicate (fn_num_inputs G f) None) A"

lemma arrived_simps [simp]:
  "arrived [] f = 0" "arrived (A @ B) f = arrived A f + arrived B f"
  "arrived ((g, nr, v) # A) f = (if g = f then Suc (arrived A f) else arrived A f)"
  by (simp_all add: arrived_def)

lemma received_snoc: "received ops G (A @ [m]) f = add_msg ops f (received ops G A f) m"
  by (simp add: received_def)

lemma received_none: "arrived A f = 0 \<Longrightarrow> received ops G A f = replicate (fn_num_inputs G f) None"
proof (induction A rule: rev_induct)
  case (snoc m A)
  then show ?case by (cases m) (auto simp: received_snoc add_msg_def split: if_splits)
qed (simp add: received_def)

lemma received_other: "g \<noteq> f \<Longrightarrow> received ops G (A @ [(g, nr, v)]) f = received ops G A f"
  by (simp add: received_snoc add_msg_def)

lemma arrived_messages: "length vs = length es \<Longrightarrow> arrived (messages es vs) f = edge_count es f"
  by (induction es vs rule: messages.induct) auto

definition routing :: "(nat \<Rightarrow> nat) \<Rightarrow> 'v var_ops \<Rightarrow> 'v graph \<Rightarrow> 'v msg list \<Rightarrow> 'v Engine \<Rightarrow> bool" where
  "routing T ops G A s \<longleftrightarrow> (\<forall>f. arrived A f \<le> T f \<and> dependencies s f = dep_of (T f - arrived A f) \<and>
     not_ready s f = (if 0 < arrived A f \<and> arrived A f < T f then Some (received ops G A f) else None))"

definition queued :: "'v Engine \<Rightarrow> 'v FunctionTask multiset" where
  "queued s = mset (concat (ready_queues s))"

text \<open>What the propagation of gradients leaves alone, and how it keeps the count of outstanding tasks.\<close>

definition frame :: "'v Engine \<Rightarrow> 'v Engine \<Rightarrow> bool" where
  "frame s t \<longleftrightarrow> workers t = workers s \<and> has_error t = has_error s \<and> exception t = exception s \<and>
     exec_info t = exec_info s \<and> captured_vars t = captured_vars s \<and> evaluated t = evaluated s \<and> length (ready_queues t) = length (ready_queues s) \<and>
     outstanding_tasks t + size (queued s) = outstanding_tasks s + size (queued t) \<and>
     (finite (dom (dependencies s)) \<longrightarrow> finite (dom (dependencies t)) \<and>
       5 * card (dom (dependencies t)) + 4 * size (queued t) \<le> 5 * card (dom (dependencies s)) + 4 * size (queued s))"

lemma frame_refl [simp]: "frame s s"
  by (simp add: frame_def)

lemma frame_trans: "frame s t \<Longrightarrow> frame t u \<Longrightarrow> frame s u"
  unfolding frame_def by (elim conjE, intro conjI) (simp_all, linarith?)

lemma mset_concat_snoc:
  "q < length Q \<Longrightarrow> mset (concat (Q[q := Q ! q @ [x]])) = add_mset x (mset (concat Q))"
proof (induction Q arbitrary: q)
  case (Cons a Q)
  then show ?case by (cases q) simp_all
qed simp

lemma push_ready_run:
  shows "push_ready ops f buf s = (Inr (), t) \<Longrightarrow> \<exists>q < length (ready_queues s).
      t = s\<lparr>outstanding_tasks := outstanding_tasks s + 1,
        ready_queues := (ready_queues s)[q := ready_queues s ! q @ [\<lparr>task_fn = f, task_inputs = buf\<rparr>]]\<rparr>"
    and "push_ready ops f buf s = (Inl e, t) \<Longrightarrow> t = s"
  by (cases "ready_queue (InputBuffer_device ops buf) (length (ready_queues s))";
      auto simp: push_ready_def bindm_def ReadyQueue_push_def ready_queue_def Let_def split: if_splits)+

lemma push_ready_queued:
  assumes "push_ready ops f buf s = (Inr (), t)"
  shows "queued t = add_mset \<lparr>task_fn = f, task_inputs = buf\<rparr> (queued s)" "outstanding_tasks t = outstanding_tasks s + 1"
    "dependencies t = dependencies s" "not_ready t = not_ready s" "workers t = workers s" "has_error t = has_error s"
    "exception t = exception s" "exec_info t = exec_info s" "evaluated t = evaluated s"
    "length (ready_queues t) = length (ready_queues s)" "captured_vars t = captured_vars s"
  using push_ready_run(1) [OF assms] by (auto simp: queued_def mset_concat_snoc)

lemma card_dom_upd:
  assumes "finite (dom m)" "m f = Some k"
  shows "finite (dom (m(f := x)))" "card (dom (m(f := x))) = (if x = None then card (dom m) - 1 else card (dom m))"
    "0 < card (dom m)"
proof -
  have f: "f \<in> dom m" using assms(2) by auto
  show "finite (dom (m(f := x)))" using assms(1) by simp
  show "card (dom (m(f := x))) = (if x = None then card (dom m) - 1 else card (dom m))"
    using assms(1) f by (simp add: card_insert_if insert_absorb)
  show "0 < card (dom m)" using assms(1) f by (auto simp: card_gt_0_iff)
qed

text \<open>The state after the dependency of \<open>f\<close> on one more edge is settled, \<open>k\<close> edges having been open.\<close>

definition settle :: "nat \<Rightarrow> int \<Rightarrow> 'v Engine \<Rightarrow> 'v Engine" where
  "settle f k s = s\<lparr>dependencies := (dependencies s)(f := if int32_of (k - 1) = 0 then None else Some (int32_of (k - 1)))\<rparr>"

lemma settle_simps [simp]:
  "workers (settle f k s) = workers s" "has_error (settle f k s) = has_error s" "exception (settle f k s) = exception s"
  "exec_info (settle f k s) = exec_info s" "evaluated (settle f k s) = evaluated s" "not_ready (settle f k s) = not_ready s"
  "ready_queues (settle f k s) = ready_queues s" "outstanding_tasks (settle f k s) = outstanding_tasks s"
  "queued (settle f k s) = queued s"
  by (simp_all add: settle_def queued_def)

lemma queued_upd [simp]:
  "queued (s\<lparr>not_ready := m\<rparr>) = queued s" "queued (s\<lparr>dependencies := d\<rparr>) = queued s"
  "queued (s\<lparr>captured_vars := c\<rparr>) = queued s" "queued (s\<lparr>evaluated := l\<rparr>) = queued s"
  "queued (s\<lparr>workers := ws\<rparr>) = queued s" "queued (s\<lparr>outstanding_tasks := n\<rparr>) = queued s"
  by (simp_all add: queued_def)

lemma settle_frame: "dependencies s f = Some k \<Longrightarrow> frame s (settle f k s)"
  using card_dom_upd(1,2) [of "dependencies s" f k "if int32_of (k - 1) = 0 then None else Some (int32_of (k - 1))"]
  by (auto simp: frame_def settle_def)

lemma settle_push_frame:
  assumes "dependencies s f = Some k" "int32_of (k - 1) = 0"
    and "push_ready ops f buf ((settle f k s)\<lparr>not_ready := m\<rparr>) = (Inr (), t)"
  shows "frame s t" "frame s (t\<lparr>not_ready := m'\<rparr>)"
proof -
  note p = push_ready_queued [OF assms(3)]
  have "frame s t"
    using p card_dom_upd(1,2) [of "dependencies s" f k None] card_dom_upd(3) [of "dependencies s" f k] assms(1,2)
    by (auto simp: frame_def settle_def)
  then show "frame s t" "frame s (t\<lparr>not_ready := m'\<rparr>)" by (simp_all add: frame_def)
qed

lemma propagate_edge_eq:
  "propagate_edge ops G (f, nr) v s = (case dependencies s f of
     None \<Rightarrow> (Inl (RuntimeError ''dependency not found''), s)
   | Some k \<Rightarrow> (case not_ready s f of
       None \<Rightarrow> if exec_info s \<noteq> [] \<and> (case map_of (exec_info s) f of None \<Rightarrow> True | Some info \<Rightarrow> \<not> should_execute info)
         then (Inr (), settle f k s)
         else (case InputBuffer_add ops nr v (replicate (fn_num_inputs G f) None) of
           Inl e \<Rightarrow> (Inl e, settle f k s)
         | Inr buf \<Rightarrow> if int32_of (k - 1) = 0 then push_ready ops f buf (settle f k s)
             else (Inr (), (settle f k s)\<lparr>not_ready := (not_ready s)(f \<mapsto> buf)\<rparr>))
     | Some old \<Rightarrow> (case InputBuffer_add ops nr v old of
           Inl e \<Rightarrow> (Inl e, settle f k s)
         | Inr buf \<Rightarrow> if int32_of (k - 1) = 0
             then (case push_ready ops f buf ((settle f k s)\<lparr>not_ready := (not_ready s)(f \<mapsto> buf)\<rparr>) of
                 (Inl e, t) \<Rightarrow> (Inl e, t)
               | (Inr _, t) \<Rightarrow> (Inr (), t\<lparr>not_ready := (not_ready t)(f := None)\<rparr>))
             else (Inr (), (settle f k s)\<lparr>not_ready := (not_ready s)(f \<mapsto> buf)\<rparr>))))"
  by (simp add: propagate_edge_def Let_def bindm_def seqm_def settle_def lift_result_def split: option.splits sum.splits prod.splits)

lemma propagate_edge_frame:
  assumes "propagate_edge ops G e v s = (r, t)"
  shows "frame s t"
proof -
  obtain f nr where e: "e = (f, nr)" by fastforce
  show ?thesis
  proof (cases "dependencies s f")
    case None
    then show ?thesis using assms by (simp add: e propagate_edge_eq)
  next
    case (Some k)
    note fr = settle_frame [OF Some]
    have nr: "frame s ((settle f k s)\<lparr>not_ready := m\<rparr>)" for m using fr by (simp add: frame_def)
    have push: "frame s t" if "push_ready ops f buf ((settle f k s)\<lparr>not_ready := m\<rparr>) = (r, t)" "int32_of (k - 1) = 0" for buf m r t
    proof (cases r)
      case (Inl e)
      then show ?thesis using push_ready_run(2) [of ops f buf "(settle f k s)\<lparr>not_ready := m\<rparr>" e t] that(1) nr by simp
    next
      case (Inr x)
      then show ?thesis using settle_push_frame(1) [OF Some that(2), of ops buf m t] that(1) by simp
    qed
    have same: "(settle f k s)\<lparr>not_ready := not_ready s\<rparr> = settle f k s" by (simp add: settle_def)
    show ?thesis
    proof (cases "not_ready s f")
      case nr0: None
      then show ?thesis
        using assms Some fr nr push [where m = "not_ready s"]
        by (auto simp: e propagate_edge_eq same split: if_splits sum.splits)
    next
      case nr1: (Some old)
      show ?thesis
      proof (cases "InputBuffer_add ops nr v old")
        case (Inl x)
        then show ?thesis using assms Some nr1 fr by (simp add: e propagate_edge_eq)
      next
        case (Inr buf)
        let ?u = "(settle f k s)\<lparr>not_ready := (not_ready s)(f \<mapsto> buf)\<rparr>"
        show ?thesis
        proof (cases "int32_of (k - 1) = 0")
          case True
          obtain r' t' where p: "push_ready ops f buf ?u = (r', t')" by fastforce
          have "t = t' \<or> t = t'\<lparr>not_ready := (not_ready t')(f := None)\<rparr>"
            using assms Some nr1 Inr True p by (auto simp: e propagate_edge_eq split: sum.splits)
          moreover have "frame s t'" by (rule push [OF p True])
          ultimately show ?thesis by (auto simp: frame_def)
        next
          case False
          then have "t = ?u" using assms Some nr1 Inr by (auto simp: e propagate_edge_eq)
          then show ?thesis using nr by simp
        qed
      qed
    qed
  qed
qed

lemma propagate_frame: "propagate ops G es vs s = (r, t) \<Longrightarrow> frame s t"
proof (induction ops G es vs arbitrary: s rule: propagate.induct)
  case (4 ops G e es v vs)
  obtain r1 s1 where s1: "propagate_edge ops G e v s = (r1, s1)" by fastforce
  then have fr: "frame s s1" by (rule propagate_edge_frame)
  show ?case
  proof (cases r1)
    case (Inl x)
    then show ?thesis using 4 s1 fr by simp
  next
    case (Inr x)
    then show ?thesis using 4 s1 frame_trans [OF fr] by simp
  qed
qed simp_all

text \<open>A gradient that is handed on without an error advances the routing by one message.\<close>

lemma InputBuffer_add_run: "InputBuffer_add ops nr v buf = Inr buf' \<Longrightarrow> buf' = buf[nr := accumulate_var ops (buf ! nr) v]"
  by (auto simp: InputBuffer_add_def result_simps)

lemma routing_advance:
  assumes "routing T ops G A s" "arrived A f < T f" "dependencies t = (dependencies s)(f := dep_of (T f - Suc (arrived A f)))"
    and "not_ready t = (not_ready s)(f := if Suc (arrived A f) < T f then Some (received ops G (A @ [(f, nr, v)]) f) else None)"
  shows "routing T ops G (A @ [(f, nr, v)]) t"
  unfolding routing_def
proof
  fix g
  note r = assms(1) [unfolded routing_def, rule_format, of g]
  show "arrived (A @ [(f, nr, v)]) g \<le> T g \<and> dependencies t g = dep_of (T g - arrived (A @ [(f, nr, v)]) g) \<and>
     not_ready t g = (if 0 < arrived (A @ [(f, nr, v)]) g \<and> arrived (A @ [(f, nr, v)]) g < T g
       then Some (received ops G (A @ [(f, nr, v)]) g) else None)"
  proof (cases "g = f")
    case True
    then show ?thesis using assms(2-4) by simp
  next
    case False
    then show ?thesis using r assms(3,4) received_other [of f g ops G A nr v] by simp
  qed
qed

lemma propagate_edge_ok:
  assumes rt: "routing T ops G A s" and small: "T f < 2 ^ 31" and ei: "exec_info s = []" and p: "propagate_edge ops G (f, nr) v s = (Inr (), t)"
  shows "arrived A f < T f" "routing T ops G (A @ [(f, nr, v)]) t"
    "queued t = (if Suc (arrived A f) = T f
       then add_mset \<lparr>task_fn = f, task_inputs = received ops G (A @ [(f, nr, v)]) f\<rparr> (queued s) else queued s)"
proof -
  let ?c = "arrived A f" and ?A = "A @ [(f, nr, v)]"
  have deps: "dependencies s f = dep_of (T f - ?c)"
    and nr: "not_ready s f = (if 0 < ?c \<and> ?c < T f then Some (received ops G A f) else None)"
    using rt by (auto simp: routing_def)
  have "dependencies s f \<noteq> None" using p by (cases "dependencies s f") (simp_all add: propagate_edge_eq)
  then show lt: "?c < T f" using deps by (auto simp: dep_of_def split: if_splits)
  define k where "k = int (T f - ?c)"
  have k1: "int32_of (k - 1) = k - 1" using lt small by (intro int32_of_id) (auto simp: k_def)
  have d: "dependencies s f = Some k" using deps lt by (simp add: dep_of_def k_def)
  define old where "old = received ops G A f"
  obtain buf where buf: "InputBuffer_add ops nr v old = Inr buf"
    using p d nr lt ei received_none [of A f ops G]
    by (cases "InputBuffer_add ops nr v old"; cases "?c = 0") (auto simp: propagate_edge_eq old_def)
  then have b: "buf = received ops G ?A f"
    using InputBuffer_add_run [OF buf] by (simp add: received_snoc add_msg_def old_def)
  have nr': "(case not_ready s f of None \<Rightarrow> replicate (fn_num_inputs G f) None | Some o' \<Rightarrow> o') = old"
    using nr lt received_none [of A f ops G] by (cases "?c = 0") (auto simp: old_def)
  have dsettle: "dependencies (settle f k s) = (dependencies s)(f := dep_of (T f - Suc ?c))"
    using lt k1 by (auto simp: settle_def dep_of_def fun_eq_iff k_def)
  have same: "(settle f k s)\<lparr>not_ready := not_ready s\<rparr> = settle f k s" by (simp add: settle_def)
  have "routing T ops G ?A t \<and> queued t = (if Suc ?c = T f then add_mset \<lparr>task_fn = f, task_inputs = buf\<rparr> (queued s) else queued s)"
  proof (cases "Suc ?c = T f")
    case False
    then have k: "int32_of (k - 1) \<noteq> 0" unfolding k1 using lt by (simp add: k_def)
    then have "t = (settle f k s)\<lparr>not_ready := (not_ready s)(f \<mapsto> buf)\<rparr>"
      using p d buf ei nr' by (cases "not_ready s f") (auto simp: propagate_edge_eq)
    then show ?thesis using False lt b dsettle by (auto intro!: routing_advance [OF rt lt])
  next
    case True
    then have k: "int32_of (k - 1) = 0" unfolding k1 by (simp add: k_def)
    obtain u m where u: "push_ready ops f buf ((settle f k s)\<lparr>not_ready := m\<rparr>) = (Inr (), u)"
      and t: "dependencies t = dependencies u" "queued t = queued u" "not_ready t = (not_ready s)(f := None)"
    proof (cases "not_ready s f")
      case None
      then have "push_ready ops f buf ((settle f k s)\<lparr>not_ready := not_ready s\<rparr>) = (Inr (), t)"
        unfolding same using p d buf ei nr' k by (simp add: propagate_edge_eq)
      moreover from push_ready_queued(4) [OF this] have "not_ready t = (not_ready s)(f := None)"
        using None by (simp add: fun_upd_idem)
      ultimately show thesis using that [of "not_ready s" t] by blast
    next
      case (Some old')
      let ?u = "(settle f k s)\<lparr>not_ready := (not_ready s)(f \<mapsto> buf)\<rparr>"
      obtain r u where u: "push_ready ops f buf ?u = (r, u)" by fastforce
      then have "r = Inr () \<and> t = u\<lparr>not_ready := (not_ready u)(f := None)\<rparr>"
        using p d buf ei nr' k Some by (cases r) (auto simp: propagate_edge_eq)
      then show thesis using u that [of "(not_ready s)(f \<mapsto> buf)" u] push_ready_queued(4) [of ops f buf ?u u] by simp
    qed
    note q = push_ready_queued [OF u]
    have "routing T ops G ?A t"
      using True lt t q(3) dsettle by (intro routing_advance [OF rt lt]) (simp_all add: settle_def)
    then show ?thesis using True t(2) q(1) by simp
  qed
  then show "routing T ops G ?A t"
    "queued t = (if Suc ?c = T f then add_mset \<lparr>task_fn = f, task_inputs = received ops G ?A f\<rparr> (queued s) else queued s)"
    by (simp_all add: b)
qed

text \<open>The functions that have all their gradients, and the tasks that a list of messages makes ready.\<close>

definition complete_fns :: "(nat \<Rightarrow> nat) \<Rightarrow> 'v msg list \<Rightarrow> nat set" where
  "complete_fns T A = {f. 0 < T f \<and> arrived A f = T f}"

definition ready_tasks :: "(nat \<Rightarrow> nat) \<Rightarrow> 'v var_ops \<Rightarrow> 'v graph \<Rightarrow> 'v msg list \<Rightarrow> nat set \<Rightarrow> 'v FunctionTask multiset" where
  "ready_tasks T ops G A F = image_mset (\<lambda>f. \<lparr>task_fn = f, task_inputs = received ops G A f\<rparr>) (mset_set F)"

lemma complete_fns_snoc:
  assumes "arrived A f < T f"
  shows "complete_fns T (A @ [(f, nr, v)]) = (if Suc (arrived A f) = T f then insert f (complete_fns T A) else complete_fns T A)"
    and "f \<notin> complete_fns T A"
  using assms by (auto simp: complete_fns_def)

lemma finite_complete_fns: "finite (complete_fns T A)"
proof (rule finite_subset)
  show "complete_fns T A \<subseteq> fst ` set A"
  proof
    fix f assume "f \<in> complete_fns T A"
    then have "filter (\<lambda>m. fst m = f) A \<noteq> []" by (auto simp: complete_fns_def arrived_def)
    then show "f \<in> fst ` set A" by (auto simp: filter_empty_conv)
  qed
qed simp

lemma ready_tasks_snoc:
  assumes lt: "arrived A f < T f" and fin: "finite F" and F: "f \<notin> F"
  shows "ready_tasks T ops G (A @ [(f, nr, v)]) F = ready_tasks T ops G A F"
  unfolding ready_tasks_def
proof (rule image_mset_cong)
  fix g assume "g \<in># mset_set F"
  then have "f \<noteq> g" using fin F by auto
  then show "\<lparr>task_fn = g, task_inputs = received ops G (A @ [(f, nr, v)]) g\<rparr> = \<lparr>task_fn = g, task_inputs = received ops G A g\<rparr>"
    by (simp add: received_other)
qed

lemma propagate_ok:
  assumes "routing T ops G A s" "\<And>f. T f < 2 ^ 31" "exec_info s = []" "propagate ops G es vs s = (Inr (), t)"
    and "queued s + rest = first + ready_tasks T ops G A (complete_fns T A)"
  shows "routing T ops G (A @ messages es vs) t \<and>
    queued t + rest = first + ready_tasks T ops G (A @ messages es vs) (complete_fns T (A @ messages es vs))"
  using assms
proof (induction ops G es vs arbitrary: s A rule: propagate.induct)
  case (4 ops G e es v vs)
  obtain f nr where e: "e = (f, nr)" by fastforce
  obtain r1 s1 where s1: "propagate_edge ops G (f, nr) v s = (r1, s1)" by fastforce
  have r1: "r1 = Inr ()" using 4(5) s1 e by (cases r1) simp_all
  then have p: "propagate ops G es vs s1 = (Inr (), t)" using 4(5) s1 e by simp
  note k = propagate_edge_ok [OF 4(2,3,4) s1 [unfolded r1]]
  let ?A = "A @ [(f, nr, v)]"
  have ei: "exec_info s1 = []" using propagate_edge_frame [OF s1] 4(4) by (simp add: frame_def)
  note cf = complete_fns_snoc(1) [of A f T nr v, OF k(1)] complete_fns_snoc(2) [of A f T, OF k(1)]
  note rs = ready_tasks_snoc [of A f T "complete_fns T A" ops G nr v, OF k(1) finite_complete_fns cf(2)]
  have "queued s1 + rest = first + ready_tasks T ops G ?A (complete_fns T ?A)"
  proof (cases "Suc (arrived A f) = T f")
    case True
    then have "ready_tasks T ops G ?A (complete_fns T ?A)
        = add_mset \<lparr>task_fn = f, task_inputs = received ops G ?A f\<rparr> (ready_tasks T ops G ?A (complete_fns T A))"
      using cf finite_complete_fns [of T A] by (simp add: ready_tasks_def)
    then show ?thesis using True k(3) 4(6) rs by simp
  next
    case False
    then show ?thesis using k(3) 4(6) rs cf(1) by simp
  qed
  from 4(1) [OF k(2) 4(3) ei p this] show ?case using e by simp
qed simp_all

end
