(* ===== verification/Autograd_Runs.thy ===== *)
theory Autograd_Runs
  imports Autograd_Routing
begin

text \<open>
  Runs of the autograd engine: whatever the order in which the workers proceed, a run ends, and the first failure is
  what \<open>execute\<close> throws. In a run without requested outputs each reachable function is called once, after all functions
  that send it gradients and with all of them accumulated, unless a function fails.
\<close>

section \<open>The state of a run\<close>

type_synonym 'v call_log = "(nat \<times> 'v vars \<times> 'v vars) list"

definition sent :: "'v graph \<Rightarrow> 'v call_log \<Rightarrow> 'v msg list" where
  "sent G E = concat (map (\<lambda>(f, ins, outs). messages (next_edges G f) outs) E)"

fun task_in :: "'v engine_worker \<Rightarrow> 'v FunctionTask multiset" where
  "task_in (Popped t) = {#t#}"
| "task_in (Evaluating t) = {#t#}"
| "task_in _ = {#}"

fun busy :: "'v engine_worker \<Rightarrow> nat" where
  "busy Popping = 0"
| "busy _ = 1"

fun stage :: "'v engine_worker \<Rightarrow> nat" where
  "stage Popping = 0"
| "stage (Popped t) = 3"
| "stage (Evaluating t) = 2"
| "stage Counting = 1"

definition evaluating :: "'v Engine \<Rightarrow> 'v FunctionTask multiset" where
  "evaluating s = sum_list (map task_in (workers s))"

definition run_inv :: "'v Engine \<Rightarrow> bool" where
  "run_inv s \<longleftrightarrow> length (workers s) = length (ready_queues s) \<and>
     outstanding_tasks s = size (queued s) + sum_list (map busy (workers s)) \<and>
     finite (dom (dependencies s)) \<and> (has_error s \<longleftrightarrow> exception s \<noteq> None)"

definition called :: "'v call_log \<Rightarrow> 'v FunctionTask multiset" where
  "called E = mset (map (\<lambda>(f, ins, outs). \<lparr>task_fn = f, task_inputs = ins\<rparr>) E)"

text \<open>
  Every call in the log is of a function that had all its gradients then, its inputs are those gradients summed in the
  order of arrival, and its outputs are what the function returns for them.
\<close>

definition log_ok :: "'v var_ops \<Rightarrow> 'v graph \<Rightarrow> nat \<Rightarrow> 'v call_log \<Rightarrow> bool" where
  "log_ok ops G root E \<longleftrightarrow> (\<forall>E1 f ins outs E2. E = E1 @ (f, ins, outs) # E2 \<longrightarrow>
     (f = root \<or> f \<in> complete_fns (in_degree G root) (sent G E1)) \<and> ins = received ops G (sent G E1) f \<and>
     call_function ops G f ins = Inr outs)"

definition data_inv :: "'v var_ops \<Rightarrow> 'v graph \<Rightarrow> nat \<Rightarrow> 'v Engine \<Rightarrow> bool" where
  "data_inv ops G root s \<longleftrightarrow> (let T = in_degree G root; A = sent G (evaluated s) in
     routing T ops G A s \<and> log_ok ops G root (evaluated s) \<and>
     queued s + (evaluating s + called (evaluated s))
       = add_mset \<lparr>task_fn = root, task_inputs = []\<rparr> (ready_tasks T ops G A (complete_fns T A)) \<and>
     (\<forall>f. T f < 2 ^ 31) \<and> exec_info s = [] \<and> captured_vars s = [])"

definition run_weight :: "'v Engine \<Rightarrow> nat" where
  "run_weight s = 5 * card (dom (dependencies s)) + 4 * size (queued s) + sum_list (map stage (workers s))"

lemma sum_list_map_update:
  fixes h :: "'a \<Rightarrow> 'b :: comm_monoid_add"
  shows "w < length ws \<Longrightarrow> sum_list (map h (ws[w := x])) + h (ws ! w) = sum_list (map h ws) + h x"
proof (induction ws arbitrary: w)
  case (Cons a ws)
  then show ?case by (cases w) (simp_all add: ac_simps)
qed simp

lemma mset_concat_remove:
  assumes "w < length Q" "i < length (Q ! w)"
  shows "mset (concat Q) = add_mset (Q ! w ! i) (mset (concat (Q[w := take i (Q ! w) @ drop (Suc i) (Q ! w)])))"
  using assms
proof (induction Q arbitrary: w)
  case (Cons a Q)
  then show ?case
  proof (cases w)
    case 0
    have "mset a = mset (take i a @ a ! i # drop (Suc i) a)"
      using Cons.prems 0 id_take_nth_drop [of i a] by simp
    then show ?thesis using 0 by simp
  next
    case (Suc k)
    then show ?thesis using Cons by simp
  qed
qed simp

lemma sent_snoc [simp]: "sent G (E @ [(f, ins, outs)]) = sent G E @ messages (next_edges G f) outs"
  by (simp add: sent_def)

lemma called_snoc [simp]: "called (E @ [(f, ins, outs)]) = add_mset \<lparr>task_fn = f, task_inputs = ins\<rparr> (called E)"
  by (simp add: called_def)

lemma log_ok_Nil [simp]: "log_ok ops G root []"
  by (simp add: log_ok_def)

lemma log_ok_snoc:
  assumes "log_ok ops G root E" "f = root \<or> f \<in> complete_fns (in_degree G root) (sent G E)"
    "ins = received ops G (sent G E) f" "call_function ops G f ins = Inr outs"
  shows "log_ok ops G root (E @ [(f, ins, outs)])"
  unfolding log_ok_def
proof (intro allI impI)
  fix E1 g xs ys E2 assume eq: "E @ [(f, ins, outs)] = E1 @ (g, xs, ys) # E2"
  show "(g = root \<or> g \<in> complete_fns (in_degree G root) (sent G E1)) \<and> xs = received ops G (sent G E1) g \<and>
     call_function ops G g xs = Inr ys"
  proof (cases E2 rule: rev_cases)
    case Nil
    then show ?thesis using eq assms(2-4) by auto
  next
    case (snoc E2' x)
    then have "E = E1 @ (g, xs, ys) # E2'" using eq by simp
    then show ?thesis using assms(1) unfolding log_ok_def by blast
  qed
qed

section \<open>The steps of a worker\<close>

lemma evaluate_function_cases:
  assumes "exec_info s = []" "evaluate_function anomaly ops G task s = (r, t)"
  obtains e where "r = Inl e" "t = s"
  | outs s1 e where "call_function ops G (task_fn task) (task_inputs task) = Inr outs"
      "s1 = s\<lparr>evaluated := evaluated s @ [(task_fn task, task_inputs task, outs)]\<rparr>" "r = Inl e" "t = s1"
  | outs s1 where "call_function ops G (task_fn task) (task_inputs task) = Inr outs"
      "s1 = s\<lparr>evaluated := evaluated s @ [(task_fn task, task_inputs task, outs)]\<rparr>"
      "propagate ops G (next_edges G (task_fn task)) outs s1 = (r, t)"
proof (cases "call_function ops G (task_fn task) (task_inputs task)")
  case (Inl e)
  then show thesis using assms that(1) by (auto simp: evaluate_function_def instrument_def bindm_def)
next
  case (Inr outs)
  let ?s = "s\<lparr>evaluated := evaluated s @ [(task_fn task, task_inputs task, outs)]\<rparr>"
  have ev: "evaluate_function anomaly ops G task s = (if outs = [] then (Inr (), ?s)
      else (case anomaly_check anomaly ops outs of Inl e \<Rightarrow> (Inl e, ?s)
        | Inr _ \<Rightarrow> propagate ops G (next_edges G (task_fn task)) outs ?s))"
    using assms(1) Inr by (simp add: evaluate_function_def instrument_def bindm_def seqm_def lift_result_def split: sum.splits)
  show thesis
  proof (cases "outs = []")
    case True
    then show thesis using ev assms(2) that(3) [OF Inr refl] by simp
  next
    case False
    then show thesis using ev assms(2) that(2) [OF Inr refl] that(3) [OF Inr refl]
      by (cases "anomaly_check anomaly ops outs") simp_all
  qed
qed

text \<open>In general the captures are stored first, and a function that is not needed is not called.\<close>

lemma capture_vars_run: "capture_vars cs inputs s = (r, t) \<Longrightarrow> \<exists>cv. t = s\<lparr>captured_vars := cv\<rparr>"
proof (induction cs arbitrary: s)
  case Nil
  then have "t = s\<lparr>captured_vars := captured_vars s\<rparr>" by simp
  then show ?case ..
next
  case (Cons c cs)
  obtain i out_idx where c: "c = (i, out_idx)" by fastforce
  show ?case
  proof (cases "i < length inputs \<and> out_idx < length (captured_vars s)")
    case True
    then have "capture_vars cs inputs (s\<lparr>captured_vars := (captured_vars s)[out_idx := inputs ! i]\<rparr>) = (r, t)"
      using Cons.prems c by (simp add: bindm_def seqm_def)
    from Cons.IH [OF this] show ?thesis by auto
  next
    case False
    then have "t = s\<lparr>captured_vars := captured_vars s\<rparr>" using Cons.prems c by (auto simp: bindm_def)
    then show ?thesis ..
  qed
qed

lemma instrument_run: "instrument task s = (r, t) \<Longrightarrow> \<exists>cv. t = s\<lparr>captured_vars := cv\<rparr>"
proof (cases "exec_info s = [] \<or> map_of (exec_info s) (task_fn task) = None")
  case True
  moreover assume "instrument task s = (r, t)"
  ultimately have "t = s\<lparr>captured_vars := captured_vars s\<rparr>" by (cases "exec_info s = []") (auto simp: instrument_def bindm_def)
  then show ?thesis ..
next
  case False
  then obtain info where info: "exec_info s \<noteq> []" "map_of (exec_info s) (task_fn task) = Some info" by auto
  assume i: "instrument task s = (r, t)"
  show ?thesis
  proof (cases "captures info")
    case None
    then have "t = s\<lparr>captured_vars := captured_vars s\<rparr>" using i info by (auto simp: instrument_def bindm_def seqm_def)
    then show ?thesis ..
  next
    case (Some cs)
    obtain r' t' where c: "capture_vars cs (task_inputs task) s = (r', t')" by fastforce
    then have "t = t'" using i info Some by (cases r') (auto simp: instrument_def bindm_def seqm_def)
    then show ?thesis using capture_vars_run [OF c] by simp
  qed
qed

lemma evaluate_function_frame:
  assumes "evaluate_function anomaly ops G task s = (r, t)"
  shows "frame s (t\<lparr>evaluated := evaluated s, captured_vars := captured_vars s\<rparr>)"
proof -
  obtain r0 s0 where i: "instrument task s = (r0, s0)" by fastforce
  obtain cv where s0: "s0 = s\<lparr>captured_vars := cv\<rparr>" using instrument_run [OF i] by blast
  show ?thesis
  proof (cases "r0 = Inr True")
    case False
    then have "t = s0" using assms i by (cases r0) (auto simp: evaluate_function_def bindm_def split: if_splits)
    then show ?thesis using s0 by (simp add: frame_def queued_def)
  next
    case True
    have rest: "bindm (lift_result (call_function ops G (task_fn task) (task_inputs task))) (\<lambda>outputs.
        seqm (modify (\<lambda>s. s\<lparr>evaluated := evaluated s @ [(task_fn task, task_inputs task, outputs)]\<rparr>))
        (if outputs = [] then ret () else seqm (lift_result (anomaly_check anomaly ops outputs))
          (propagate ops G (next_edges G (task_fn task)) outputs))) s0 = (r, t)"
      using assms i True by (simp add: evaluate_function_def bindm_def)
    show ?thesis
    proof (cases "call_function ops G (task_fn task) (task_inputs task)")
      case (Inl e)
      then have "t = s0" using rest by (simp add: bindm_def)
      then show ?thesis using s0 by (simp add: frame_def queued_def)
    next
      case (Inr outs)
      let ?s1 = "s0\<lparr>evaluated := evaluated s0 @ [(task_fn task, task_inputs task, outs)]\<rparr>"
      have "t = ?s1 \<or> propagate ops G (next_edges G (task_fn task)) outs ?s1 = (r, t)"
        using rest Inr by (cases "outs = []"; cases "anomaly_check anomaly ops outs")
          (simp_all add: bindm_def seqm_def lift_result_def)
      then have "frame ?s1 t" using propagate_frame by (metis frame_refl)
      then show ?thesis using s0 by (simp add: frame_def queued_def)
    qed
  qed
qed


lemma size_sum_task_in: "size (sum_list (map task_in ws)) \<le> sum_list (map busy ws)"
proof (induction ws)
  case (Cons w ws)
  then show ?case by (cases w) simp_all
qed simp

text \<open>A worker in one state and then in another, seen by the counters.\<close>

lemma workers_update:
  assumes "w < length (workers s)"
  shows "evaluating (s\<lparr>workers := (workers s)[w := x]\<rparr>) + task_in (workers s ! w) = evaluating s + task_in x"
    and "sum_list (map busy ((workers s)[w := x])) + busy (workers s ! w) = sum_list (map busy (workers s)) + busy x"
    and "sum_list (map stage ((workers s)[w := x])) + stage (workers s ! w) = sum_list (map stage (workers s)) + stage x"
  using sum_list_map_update [OF assms] by (simp_all add: evaluating_def)

lemma pop_queued:
  assumes "w < length (ready_queues s)" "on_top G (ready_queues s ! w) i"
  shows "queued s = add_mset (ready_queues s ! w ! i) (queued (ReadyQueue_pop w i s))"
  using mset_concat_remove [of w "ready_queues s" i] assms by (simp add: queued_def ReadyQueue_pop_def on_top_def Let_def)

lemma pop_step:
  assumes inv: "run_inv s" and w: "w < length (workers s)" "workers s ! w = Popping" "on_top G (ready_queues s ! w) i"
  shows "run_inv (ReadyQueue_pop w i s)" "run_weight (ReadyQueue_pop w i s) < run_weight s"
proof -
  let ?t = "ReadyQueue_pop w i s" and ?x = "Popped (ready_queues s ! w ! i)"
  have q: "queued s = add_mset (ready_queues s ! w ! i) (queued ?t)"
    using inv w by (intro pop_queued) (simp_all add: run_inv_def)
  have ev: "sum_list (map stage (workers ?t)) = sum_list (map stage (workers s)) + 3"
    using workers_update(3) [OF w(1), of ?x] w(2) by (simp add: ReadyQueue_pop_def Let_def)
  have b: "sum_list (map busy (workers ?t)) = sum_list (map busy (workers s)) + 1"
    using workers_update(2) [OF w(1), of ?x] w(2) by (simp add: ReadyQueue_pop_def Let_def)
  have fields: "length (workers ?t) = length (workers s)" "length (ready_queues ?t) = length (ready_queues s)"
    "outstanding_tasks ?t = outstanding_tasks s" "dependencies ?t = dependencies s"
    "has_error ?t = has_error s" "exception ?t = exception s"
    by (simp_all add: ReadyQueue_pop_def Let_def)
  show "run_inv ?t" using inv q b by (simp add: run_inv_def fields)
  show "run_weight ?t < run_weight s" unfolding run_weight_def fields using q b ev by simp
qed

lemma check_step:
  assumes inv: "run_inv s" and w: "w < length (workers s)" "workers s ! w = Popped task"
  shows "run_inv (worker_check w task s)" "run_weight (worker_check w task s) < run_weight s"
proof -
  let ?x = "if has_error s then Counting else Evaluating task"
  have "sum_list (map busy ((workers s)[w := ?x])) = sum_list (map busy (workers s))"
    using workers_update(2) [OF w(1), of ?x] w(2) by (simp split: if_splits)
  then show "run_inv (worker_check w task s)" using inv by (simp add: run_inv_def worker_check_def queued_def)
  show "run_weight (worker_check w task s) < run_weight s"
    using workers_update(3) [OF w(1), of ?x] w(2) by (simp add: run_weight_def worker_check_def queued_def split: if_splits)
qed

lemma evaluate_step:
  assumes inv: "run_inv s" and w: "w < length (workers s)" "workers s ! w = Evaluating task"
  shows "run_inv (worker_evaluate anomaly ops G w task s)"
    "run_weight (worker_evaluate anomaly ops G w task s) < run_weight s"
proof -
  let ?t = "worker_evaluate anomaly ops G w task s"
  obtain r u where u: "evaluate_function anomaly ops G task s = (r, u)" by fastforce
  have fr: "frame s (u\<lparr>evaluated := evaluated s, captured_vars := captured_vars s\<rparr>)" by (rule evaluate_function_frame [OF u])
  have t: "workers ?t = (workers s)[w := Counting]" "queued ?t = queued u" "outstanding_tasks ?t = outstanding_tasks u"
    "dependencies ?t = dependencies u"
    "length (ready_queues ?t) = length (ready_queues u)"
    using fr u by (cases r; simp add: worker_evaluate_def thread_on_exception_def frame_def queued_def)+
  have ex: "has_error ?t \<longleftrightarrow> exception ?t \<noteq> None"
    using fr u inv by (cases r) (simp_all add: worker_evaluate_def thread_on_exception_def frame_def run_inv_def)
  have ev: "sum_list (map stage (workers s)) = sum_list (map stage (workers ?t)) + 1"
    using workers_update(3) [OF w(1), of Counting] w(2) t(1) by simp
  have b: "sum_list (map busy (workers ?t)) = sum_list (map busy (workers s))"
    using workers_update(2) [OF w(1), of Counting] w(2) t(1) by simp
  show "run_inv ?t" using inv fr b t ex by (simp add: run_inv_def frame_def queued_def)
  show "run_weight ?t < run_weight s"
    using fr inv b ev t unfolding run_weight_def by (simp add: frame_def queued_def run_inv_def)
qed

lemma count_step:
  assumes inv: "run_inv s" and w: "w < length (workers s)" "workers s ! w = Counting"
  shows "run_inv (worker_count w s)" "run_weight (worker_count w s) < run_weight s"
proof -
  have b: "sum_list (map busy (workers s)) = sum_list (map busy ((workers s)[w := Popping])) + 1"
    using workers_update(2) [OF w(1), of Popping] w(2) by simp
  have ev: "sum_list (map stage (workers s)) = sum_list (map stage ((workers s)[w := Popping])) + 1"
    using workers_update(3) [OF w(1), of Popping] w(2) by simp
  show "run_inv (worker_count w s)" using inv b by (simp add: run_inv_def worker_count_def queued_def)
  show "run_weight (worker_count w s) < run_weight s"
    unfolding run_weight_def using ev by (simp add: worker_count_def queued_def)
qed

lemma step_inv: "thread_main_step anomaly ops G s t \<Longrightarrow> run_inv s \<Longrightarrow> run_inv t \<and> run_weight t < run_weight s"
  by (induction rule: thread_main_step.induct) (simp_all add: pop_step check_step evaluate_step count_step)


text \<open>A run can go on as long as there are outstanding tasks.\<close>

lemma concat_nonempty: "concat Q \<noteq> [] \<Longrightarrow> \<exists>w < length Q. Q ! w \<noteq> []"
  by (metis concat_eq_Nil_conv in_set_conv_nth)

lemma on_top_exists:
  assumes "q \<noteq> []"
  shows "\<exists>i. on_top G q i"
proof -
  let ?m = "Max ((\<lambda>t. sequence_nr G (task_fn t)) ` set q)"
  have "?m \<in> (\<lambda>t. sequence_nr G (task_fn t)) ` set q" using assms by (intro Max_in) auto
  then obtain i where i: "i < length q" "sequence_nr G (task_fn (q ! i)) = ?m" by (auto simp: in_set_conv_nth)
  then have "on_top G q i" by (auto simp: on_top_def list_all_iff)
  then show ?thesis ..
qed

lemma step_enabled:
  assumes inv: "run_inv s" and "0 < outstanding_tasks s"
  shows "\<exists>t. thread_main_step anomaly ops G s t"
proof (cases "\<exists>w < length (workers s). workers s ! w \<noteq> Popping")
  case True
  then obtain w where w: "w < length (workers s)" "workers s ! w \<noteq> Popping" by blast
  then show ?thesis
    by (cases "workers s ! w") (auto intro: thread_main_step.intros)
next
  case False
  then have "map busy (workers s) = replicate (length (workers s)) 0" by (intro nth_equalityI) auto
  then have "sum_list (map busy (workers s)) = 0" by (metis sum_list_0 map_replicate_const)
  then have "size (queued s) \<noteq> 0" using assms unfolding run_inv_def by linarith
  then have "concat (ready_queues s) \<noteq> []" by (auto simp: queued_def)
  then obtain w where w: "w < length (ready_queues s)" "ready_queues s ! w \<noteq> []" using concat_nonempty by blast
  then obtain i where "on_top G (ready_queues s ! w) i" using on_top_exists by blast
  moreover have "w < length (workers s)" "workers s ! w = Popping" using w(1) False inv by (auto simp: run_inv_def)
  ultimately show ?thesis using thread_main_step.pop by blast
qed

section \<open>The data of a run without errors\<close>

lemma data_pop:
  assumes inv: "run_inv s" "data_inv ops G root s"
    and w: "w < length (workers s)" "workers s ! w = Popping" "on_top G (ready_queues s ! w) i"
  shows "data_inv ops G root (ReadyQueue_pop w i s)"
proof -
  let ?t = "ReadyQueue_pop w i s" and ?x = "Popped (ready_queues s ! w ! i)"
  have q: "queued s = add_mset (ready_queues s ! w ! i) (queued ?t)"
    using inv w by (intro pop_queued) (simp_all add: run_inv_def)
  have ev: "evaluating ?t = add_mset (ready_queues s ! w ! i) (evaluating s)"
    using workers_update(1) [OF w(1), of ?x] w(2) by (simp add: evaluating_def ReadyQueue_pop_def Let_def)
  have "evaluated ?t = evaluated s" "dependencies ?t = dependencies s" "not_ready ?t = not_ready s"
    "exec_info ?t = exec_info s" "captured_vars ?t = captured_vars s"
    by (simp_all add: ReadyQueue_pop_def Let_def)
  then show ?thesis using inv(2) q ev by (simp add: data_inv_def routing_def Let_def)
qed

lemma data_check:
  assumes "data_inv ops G root s" "\<not> has_error s" "w < length (workers s)" "workers s ! w = Popped task"
  shows "data_inv ops G root (worker_check w task s)"
proof -
  have "evaluating (worker_check w task s) = evaluating s"
    using workers_update(1) [OF assms(3), of "Evaluating task"] assms(2,4) by (simp add: evaluating_def worker_check_def)
  then show ?thesis using assms(1) by (simp add: data_inv_def worker_check_def routing_def Let_def queued_def)
qed

lemma in_degree_root:
  assumes "graph_ok G root"
  shows "in_degree G root root = 0"
proof -
  have "edge_count (next_edges G g) root = 0" for g
    using edge_count_pos [of "next_edges G g" root] assms by (auto simp: graph_ok_def)
  then show ?thesis by (simp add: in_degree_def)
qed

lemma data_evaluate:
  assumes ok: "graph_ok G root" "fn_num_inputs G root = 0" and inv: "run_inv s" "data_inv ops G root s" "\<not> has_error s"
    and w: "w < length (workers s)" "workers s ! w = Evaluating task"
    and ne: "\<not> has_error (worker_evaluate anomaly ops G w task s)"
  shows "data_inv ops G root (worker_evaluate anomaly ops G w task s)"
proof -
  let ?T = "in_degree G root" and ?A = "sent G (evaluated s)" and ?root = "\<lparr>task_fn = root, task_inputs = []\<rparr>"
  let ?f = "task_fn task" and ?ins = "task_inputs task"
  obtain r u where u: "evaluate_function anomaly ops G task s = (r, u)" by fastforce
  have "r = Inr ()" using ne u by (cases r) (simp_all add: worker_evaluate_def thread_on_exception_def split: if_splits)
  with u have u: "evaluate_function anomaly ops G task s = (Inr (), u)" by simp
  have ei: "exec_info s = []" and cv: "captured_vars s = []" and small: "?T f < 2 ^ 31" for f
    using inv(2) by (simp_all add: data_inv_def Let_def)
  obtain outs s1 where call: "call_function ops G ?f ?ins = Inr outs"
    and s1: "s1 = s\<lparr>evaluated := evaluated s @ [(?f, ?ins, outs)]\<rparr>"
    and p: "propagate ops G (next_edges G ?f) outs s1 = (Inr (), u)"
    using ei u by (cases rule: evaluate_function_cases) simp_all
  have rt: "routing ?T ops G ?A s" and log: "log_ok ops G root (evaluated s)"
    and tasks: "queued s + (evaluating s + called (evaluated s)) = add_mset ?root (ready_tasks ?T ops G ?A (complete_fns ?T ?A))"
    using inv(2) by (simp_all add: data_inv_def Let_def)
  let ?t = "worker_evaluate anomaly ops G w task s"
  have t: "?t = u\<lparr>workers := (workers u)[w := Counting]\<rparr>" using u by (simp add: worker_evaluate_def)
  have fr: "frame s1 u" by (rule propagate_frame [OF p])
  have wu: "workers u = workers s" "evaluated u = evaluated s1" "exec_info u = []" "captured_vars u = []" using fr s1 ei cv by (simp_all add: frame_def)
  have ev: "evaluating s = add_mset task (evaluating ?t)"
    using workers_update(1) [OF w(1), of Counting] w(2) t wu by (simp add: evaluating_def)
  have mem: "task \<in># add_mset ?root (ready_tasks ?T ops G ?A (complete_fns ?T ?A))"
    unfolding tasks [symmetric] ev by simp
  have rroot: "arrived ?A root = 0" using rt in_degree_root [OF ok(1)] unfolding routing_def by (metis le_zero_eq)
  have fins: "(?f = root \<or> ?f \<in> complete_fns ?T ?A) \<and> ?ins = received ops G ?A ?f"
  proof (cases "task = ?root")
    case True
    then show ?thesis using received_none [OF rroot, of ops G] ok(2) by simp
  next
    case False
    then have "task \<in># ready_tasks ?T ops G ?A (complete_fns ?T ?A)" using mem by simp
    then show ?thesis by (auto simp: ready_tasks_def finite_complete_fns)
  qed
  have log': "log_ok ops G root (evaluated ?t)"
    using log_ok_snoc [OF log, of ?f ?ins outs] fins call t wu s1 by simp
  let ?rest = "evaluating s + called (evaluated s)" and ?A' = "?A @ messages (next_edges G ?f) outs"
  have "routing ?T ops G ?A s1" "exec_info s1 = []" "queued s1 = queued s"
    using rt ei s1 by (simp_all add: routing_def queued_def)
  then have done_: "routing ?T ops G ?A' u \<and> queued u + ?rest = {#?root#} + ready_tasks ?T ops G ?A' (complete_fns ?T ?A')"
    using propagate_ok [of ?T ops G ?A s1 "next_edges G ?f" outs u ?rest "{#?root#}", OF _ small] p tasks by simp
  have "evaluated ?t = evaluated s @ [(?f, ?ins, outs)]" using t wu s1 by simp
  then have A': "sent G (evaluated ?t) = ?A'" and c: "called (evaluated ?t) = add_mset task (called (evaluated s))"
    by simp_all
  have "routing ?T ops G ?A' ?t" "queued ?t = queued u" "exec_info ?t = []" "captured_vars ?t = []"
    using done_ t wu by (simp_all add: routing_def queued_def)
  moreover have "?rest = evaluating ?t + called (evaluated ?t)" unfolding ev c by simp
  ultimately show ?thesis using done_ log' small unfolding data_inv_def Let_def A' by simp
qed

lemma data_count:
  assumes "data_inv ops G root s" "w < length (workers s)" "workers s ! w = Counting"
  shows "data_inv ops G root (worker_count w s)"
proof -
  have "evaluating (worker_count w s) = evaluating s"
    using workers_update(1) [OF assms(2), of Popping] assms(3) by (simp add: evaluating_def worker_count_def)
  then show ?thesis using assms(1) by (simp add: data_inv_def worker_count_def routing_def Let_def queued_def)
qed


lemma step_error:
  assumes "thread_main_step anomaly ops G s t" "has_error s"
  shows "has_error t \<and> exception t = exception s"
  using assms
proof (induction rule: thread_main_step.induct)
  case (evaluate w s task)
  obtain r u where u: "evaluate_function anomaly ops G task s = (r, u)" by fastforce
  have "frame s (u\<lparr>evaluated := evaluated s, captured_vars := captured_vars s\<rparr>)" by (rule evaluate_function_frame [OF u])
  then show ?case using u evaluate by (cases r) (simp_all add: worker_evaluate_def thread_on_exception_def frame_def)
qed (simp_all add: ReadyQueue_pop_def worker_check_def worker_count_def Let_def)

lemma step_data:
  assumes "thread_main_step anomaly ops G s t" "graph_ok G root" "fn_num_inputs G root = 0" "run_inv s"
    "\<not> has_error s \<Longrightarrow> data_inv ops G root s" "\<not> has_error t"
  shows "data_inv ops G root t"
proof -
  have ne: "\<not> has_error s" using step_error [OF assms(1)] assms(6) by blast
  note d = assms(5) [OF ne]
  from assms(1) show ?thesis
  proof (cases rule: thread_main_step.cases)
    case (pop w i)
    then show ?thesis using data_pop [OF assms(4) d] by simp
  next
    case (check w task)
    then show ?thesis using data_check [OF d ne] by simp
  next
    case (evaluate w task)
    then show ?thesis using data_evaluate [OF assms(2-4) d ne] assms(6) by simp
  next
    case (count w)
    then show ?thesis using data_count [OF d] by simp
  qed
qed

definition engine_runs :: "bool \<Rightarrow> 'v var_ops \<Rightarrow> 'v graph \<Rightarrow> 'v Engine \<Rightarrow> 'v Engine \<Rightarrow> bool" where
  "engine_runs anomaly ops G = (thread_main_step anomaly ops G)\<^sup>*\<^sup>*"

lemma engine_runs_run_inv: "engine_runs anomaly ops G s t \<Longrightarrow> run_inv s \<Longrightarrow> run_inv t"
  unfolding engine_runs_def by (induction rule: rtranclp_induct) (simp_all add: step_inv)

lemma engine_runs_inv:
  assumes "engine_runs anomaly ops G s t" "graph_ok G root" "fn_num_inputs G root = 0" "run_inv s" "data_inv ops G root s"
  shows "run_inv t \<and> (\<not> has_error t \<longrightarrow> data_inv ops G root t)"
  using assms(1) unfolding engine_runs_def
proof (induction rule: rtranclp_induct)
  case base
  then show ?case using assms(4,5) by simp
next
  case (step t u)
  then have "run_inv t" by simp
  then show ?case using step_inv [OF step(2)] step_data [OF step(2) assms(2,3)] step(3) by blast
qed

lemma engine_runs_to_end:
  assumes "run_inv s"
  shows "\<exists>t. engine_runs anomaly ops G s t \<and> outstanding_tasks t = 0"
  using assms
proof (induction "run_weight s" arbitrary: s rule: less_induct)
  case less
  show ?case
  proof (cases "outstanding_tasks s = 0")
    case True
    then show ?thesis by (auto simp: engine_runs_def)
  next
    case False
    then obtain u where u: "thread_main_step anomaly ops G s u" using step_enabled [OF less.prems] by blast
    then obtain t where "engine_runs anomaly ops G u t" "outstanding_tasks t = 0"
      using less.hyps [of u] step_inv [OF u less.prems] by blast
    then show ?thesis using u unfolding engine_runs_def by (blast intro: converse_rtranclp_into_rtranclp)
  qed
qed

lemma engine_run_length: "(thread_main_step anomaly ops G ^^ n) s t \<Longrightarrow> run_inv s \<Longrightarrow> run_inv t \<and> n + run_weight t \<le> run_weight s"
proof (induction n arbitrary: t)
  case (Suc n)
  then obtain u where "(thread_main_step anomaly ops G ^^ n) s u" "thread_main_step anomaly ops G u t" by auto
  then show ?case using Suc step_inv [of anomaly ops G u t] by fastforce
qed simp

section \<open>The state at the end\<close>

definition hooks_keep :: "'v graph \<Rightarrow> bool" where
  "hooks_keep G \<longleftrightarrow> (\<forall>fn \<in> set G. \<forall>hook \<in> set (fn_post_hooks fn). \<forall>outs ins vs. hook outs ins = Inr vs \<longrightarrow> length vs = length outs)"

lemma validate_loop_length: "validate_loop ops G es gs = Inr gs' \<Longrightarrow> length gs' = length gs"
proof (induction ops G es gs arbitrary: gs' rule: validate_loop.induct)
  case (1 ops G e es g gs)
  then show ?case by (auto simp: result_simps )
qed simp_all


lemma call_post_hooks_length:
  "(\<And>h outs vs. h \<in> set hs \<Longrightarrow> h outs ins = Inr vs \<Longrightarrow> length vs = length outs) \<Longrightarrow>
   call_post_hooks hs outs ins = Inr vs \<Longrightarrow> length vs = length outs"
proof (induction hs arbitrary: outs)
  case (Cons h hs)
  then obtain us where "h outs ins = Inr us" "call_post_hooks hs us ins = Inr vs" by (auto simp: rbind_eq_Inr)
  then show ?case using Cons.IH [of us] Cons.prems(1) by (metis list.set_intros)
qed simp

lemma call_function_length:
  assumes "hooks_keep G" "call_function ops G f ins = Inr outs"
  shows "length outs = length (next_edges G f)"
proof -
  have f: "f < length G" using assms(2) by (simp add: call_function_def split: if_splits)
  then have keep: "length us = length vs" if "call_post_hooks (fn_post_hooks (G ! f)) vs xs = Inr us" for us vs xs
    using call_post_hooks_length [OF _ that] assms(1) nth_mem [OF f] unfolding hooks_keep_def by blast
  obtain vs us xs where v: "validate_outputs ops G (fn_edges (G ! f)) vs = Inr us"
    and "outs = us \<or> call_post_hooks (fn_post_hooks (G ! f)) us xs = Inr outs"
    using assms(2) f by (auto simp: call_function_def Let_def rbind_eq_Inr split: if_splits)
  then have "length outs = length us" using keep by blast
  then show ?thesis using f v by (auto simp: validate_outputs_def rbind_eq_Inr next_edges_def dest: validate_loop_length)
qed

lemma arrived_sent:
  assumes "hooks_keep G" "log_ok ops G root E"
  shows "arrived (sent G E) g = (\<Sum>f \<leftarrow> map fst E. edge_count (next_edges G f) g)"
  using assms(2)
proof (induction E rule: rev_induct)
  case (snoc x E)
  obtain f ins outs where x: "x = (f, ins, outs)" by (cases x)
  have "log_ok ops G root E" using snoc.prems unfolding log_ok_def by (metis append.assoc append_Cons)
  moreover have "call_function ops G f ins = Inr outs" using snoc.prems unfolding log_ok_def x by blast
  ultimately show ?case
    using snoc.IH call_function_length [OF assms(1)] by (simp add: x arrived_messages)
qed (simp add: sent_def)

lemma mset_eq_mset_set: "mset xs = mset_set A \<Longrightarrow> finite A \<Longrightarrow> distinct xs \<and> set xs = A"
  by (metis finite_set_mset_mset_set set_mset_mset distinct_count_atmost_1 count_mset_set(1,3) )

lemma root_incomplete: "graph_ok G root \<Longrightarrow> root \<notin> complete_fns (in_degree G root) A"
  by (simp add: complete_fns_def in_degree_root)

lemma in_degree_reach:
  assumes "0 < in_degree G root f"
  shows "\<exists>g \<in> reach G root. f \<in> targets (next_edges G g)" and "f \<in> reach G root"
proof -
  show "\<exists>g \<in> reach G root. f \<in> targets (next_edges G g)"
    using assms unfolding in_degree_def by (metis edge_count_pos gr0I less_irrefl sum.neutral)
  then show "f \<in> reach G root" using reach_step by blast
qed

lemma complete_reach: "complete_fns (in_degree G root) A \<subseteq> reach G root"
  using in_degree_reach(2) by (auto simp: complete_fns_def)

text \<open>The functions called, and those with a task that waits or runs, are the root and the complete ones, each once.\<close>

lemma data_inv_fns:
  assumes ok: "graph_ok G root" and inv: "data_inv ops G root s"
  defines "C \<equiv> insert root (complete_fns (in_degree G root) (sent G (evaluated s)))"
  shows "image_mset task_fn (queued s + evaluating s) + mset (map fst (evaluated s)) = mset_set C"
proof -
  have "image_mset task_fn (queued s + (evaluating s + called (evaluated s))) = mset_set C"
    using inv root_incomplete [OF ok, of "sent G (evaluated s)"] unfolding data_inv_def Let_def C_def
    by (simp add: ready_tasks_def finite_complete_fns mset_set.insert image_mset.compositionality comp_def)
  moreover have "image_mset task_fn (called (evaluated s)) = mset (map fst (evaluated s))"
    unfolding called_def mset_map [symmetric] map_map by (rule arg_cong [where f = mset], rule map_cong) auto
  ultimately show ?thesis by (simp add: add.assoc)
qed


lemma data_inv_distinct:
  assumes ok: "graph_ok G root" and inv: "data_inv ops G root s"
  shows "distinct (map fst (evaluated s))" "fst ` set (evaluated s) \<subseteq> reach G root"
proof -
  let ?C = "insert root (complete_fns (in_degree G root) (sent G (evaluated s)))"
  have sub: "mset (map fst (evaluated s)) \<subseteq># mset_set ?C"
    using data_inv_fns [OF ok inv] by (metis mset_subset_eq_add_right)
  have "count (mset_set ?C) f \<le> 1" for f by (simp add: count_mset_set')
  then have "count (mset (map fst (evaluated s))) f \<le> 1" for f
    using sub by (meson mset_subset_eq_count order_trans)
  then show "distinct (map fst (evaluated s))"
    by (metis (no_types) count_eq_zero_iff distinct_count_atmost_1 le_Suc_eq le_zero_eq One_nat_def set_mset_mset)
  have "fst ` set (evaluated s) \<subseteq> ?C"
    using set_mset_mono [OF sub] by (simp add: finite_complete_fns)
  then show "fst ` set (evaluated s) \<subseteq> reach G root" using complete_reach [of G root "sent G (evaluated s)"] by auto
qed

lemma prefix_arrived:
  assumes keep: "hooks_keep G" and ok: "graph_ok G root" and inv: "data_inv ops G root s"
    and E: "evaluated s = E1 @ E2"
  shows "arrived (sent G E1) f = (\<Sum>g \<in> fst ` set E1. edge_count (next_edges G g) f)"
proof -
  have "log_ok ops G root E1"
    using inv unfolding data_inv_def Let_def log_ok_def E by (metis append.assoc append_Cons)
  moreover have "distinct (map fst E1)" using data_inv_distinct(1) [OF ok inv] by (simp add: E)
  ultimately show ?thesis using arrived_sent [OF keep, of ops root E1 f] by (simp add: sum_list_distinct_conv_sum_set del: map_map)
qed

text \<open>The functions that send gradients to a function are called before it.\<close>

lemma predecessors_first:
  assumes keep: "hooks_keep G" and ok: "graph_ok G root" and inv: "data_inv ops G root s"
    and E: "evaluated s = E1 @ (f, ins, outs) # E2" and g: "g \<in> reach G root" "f \<in> targets (next_edges G g)"
  shows "g \<in> fst ` set E1"
proof (rule ccontr)
  assume out: "g \<notin> fst ` set E1"
  have "f \<noteq> root" using ok g(2) by (auto simp: graph_ok_def)
  then have "f \<in> complete_fns (in_degree G root) (sent G E1)"
    using inv E unfolding data_inv_def Let_def log_ok_def by blast
  then have "in_degree G root f = (\<Sum>h \<in> fst ` set E1. edge_count (next_edges G h) f)"
    using prefix_arrived [OF keep ok inv E] by (simp add: complete_fns_def)
  also have "\<dots> < (\<Sum>h \<in> insert g (fst ` set E1). edge_count (next_edges G h) f)"
    using out g(2) edge_count_pos by simp
  also have "\<dots> \<le> in_degree G root f"
    unfolding in_degree_def using data_inv_distinct(2) [OF ok inv] g(1) E
    by (intro sum_mono2 finite_reach [OF ok]) auto
  finally show False by simp
qed

lemma succs_wf:
  assumes "graph_ok G root" "acyclic (succs G)"
  shows "wf (succs G)"
proof (rule finite_acyclic_wf [OF finite_subset assms(2)])
  show "succs G \<subseteq> {..<length G} \<times> {..<length G}"
  proof
    fix e assume "e \<in> succs G"
    then obtain f g where e: "e = (f, g)" "g \<in> targets (next_edges G f)" by (auto simp: succs_def)
    then have "f < length G" by (cases "f < length G") (simp_all add: next_edges_def)
    moreover have "g < length G" using assms(1) e(2) unfolding graph_ok_def by blast
    ultimately show "e \<in> {..<length G} \<times> {..<length G}" using e(1) by simp
  qed
qed simp

lemma all_complete:
  assumes keep: "hooks_keep G" and ok: "graph_ok G root" "acyclic (succs G)" and inv: "data_inv ops G root s"
    and idle: "queued s = {#}" "evaluating s = {#}"
  shows "fst ` set (evaluated s) = reach G root" "not_ready s = Map.empty"
proof -
  let ?T = "in_degree G root" and ?A = "sent G (evaluated s)" and ?E = "fst ` set (evaluated s)"
  have eq: "?E = insert root (complete_fns ?T ?A)"
    using data_inv_fns [OF ok(1) inv] idle mset_eq_mset_set [of "map fst (evaluated s)" "insert root (complete_fns ?T ?A)"]
    by (simp add: finite_complete_fns)
  have arr: "arrived ?A f = (\<Sum>g \<in> ?E. edge_count (next_edges G g) f)" for f
    by (rule prefix_arrived [OF keep ok(1) inv, of _ "[]"]) simp
  have "f \<in> reach G root \<longrightarrow> f \<in> ?E" for f
  proof (induction f rule: wf_induct_rule [OF succs_wf [OF ok]])
    case (1 f)
    show ?case
    proof (intro impI, cases "f = root")
      case False
      assume "f \<in> reach G root"
      then obtain g where g: "g \<in> reach G root" "f \<in> targets (next_edges G g)"
        using False unfolding reach_def succs_def by (auto elim: rtranclE)
      have "0 < ?T f" unfolding in_degree_def
        using g edge_count_pos finite_reach [OF ok(1)] by (intro sum_pos2 [of _ g]) auto
      moreover have "arrived ?A f = ?T f"
        unfolding arr in_degree_def
      proof (rule sum.mono_neutral_left)
        show "\<forall>i \<in> reach G root - ?E. edge_count (next_edges G i) f = 0"
          using 1 edge_count_pos by (fastforce simp: succs_def)
      qed (use finite_reach [OF ok(1)] data_inv_distinct(2) [OF ok(1) inv] in auto)
      ultimately show "f \<in> ?E" unfolding eq by (simp add: complete_fns_def)
    qed (simp add: eq)
  qed
  then show all: "?E = reach G root" using data_inv_distinct(2) [OF ok(1) inv] by blast
  show "not_ready s = Map.empty"
  proof
    fix f
    have "arrived ?A f = ?T f" if T: "0 < ?T f"
    proof -
      have "f \<in> insert root (complete_fns ?T ?A)" using in_degree_reach(2) [OF T] unfolding all [symmetric] eq .
      then show ?thesis using T in_degree_root [OF ok(1)] by (auto simp: complete_fns_def)
    qed
    moreover have "not_ready s f = (if 0 < arrived ?A f \<and> arrived ?A f < ?T f then Some (received ops G ?A f) else None)"
      using inv unfolding data_inv_def Let_def routing_def by blast
    ultimately show "not_ready s f = None" by auto
  qed
qed


section \<open>Runs of \<open>execute\<close>\<close>

definition graph_closed :: "'v graph \<Rightarrow> edge list \<Rightarrow> bool" where
  "graph_closed G roots \<longleftrightarrow> targets roots \<subseteq> {..<length G} \<and> (\<forall>fn \<in> set G. targets (fn_edges fn) \<subseteq> {..<length G}) \<and>
     length roots + (\<Sum>fn \<leftarrow> G. length (fn_edges fn)) < 2 ^ 31"

lemma edge_count_le: "edge_count es f \<le> length es"
  by (simp add: edge_count_def)

lemma next_edges_root:
  "next_edges (G @ [GraphRoot seq roots grads]) f = (if f = length G then roots else next_edges G f)"
  by (auto simp: next_edges_def nth_append GraphRoot_def)

lemma graph_closed_next: "graph_closed G roots \<Longrightarrow> targets (next_edges G f) \<subseteq> {..<length G}"
  unfolding graph_closed_def next_edges_def using nth_mem [of f G] by auto

lemma graph_root_ok: "graph_closed G roots \<Longrightarrow> graph_ok (G @ [GraphRoot seq roots grads]) (length G)"
proof -
  assume ok: "graph_closed G roots"
  have "g < length G" if "g \<in> targets (next_edges (G @ [GraphRoot seq roots grads]) f)" for f g
    using that ok graph_closed_next [OF ok, of f] by (auto simp: next_edges_root graph_closed_def split: if_splits)
  then show ?thesis unfolding graph_ok_def by fastforce
qed

text \<open>The counts of incoming edges stay below the number of edges, so that they do not wrap.\<close>

lemma in_degree_small:
  assumes "graph_closed G roots"
  shows "in_degree (G @ [GraphRoot seq roots grads]) (length G) f < 2 ^ 31"
proof -
  let ?G = "G @ [GraphRoot seq roots grads]"
  have "in_degree ?G (length G) f \<le> (\<Sum>g \<in> reach ?G (length G). length (next_edges ?G g))"
    unfolding in_degree_def by (rule sum_mono) (rule edge_count_le)
  also have "\<dots> \<le> (\<Sum>g < length ?G. length (next_edges ?G g))"
    using reach_bound [OF graph_root_ok [OF assms]] by (intro sum_mono2) auto
  also have "\<dots> = length roots + (\<Sum>g < length G. length (next_edges G g))" by (simp add: next_edges_root)
  also have "(\<Sum>g < length G. length (next_edges G g)) = (\<Sum>fn \<leftarrow> G. length (fn_edges fn))"
    by (simp add: sum_list_sum_nth next_edges_def atLeast0LessThan)
  finally show ?thesis using assms by (simp add: graph_closed_def)
qed

lemma fn_num_inputs_root: "fn_num_inputs (G @ [GraphRoot seq roots grads]) (length G) = 0"
  by (simp add: fn_num_inputs_def GraphRoot_def)

lemma hooks_keep_root: "hooks_keep G \<Longrightarrow> hooks_keep (G @ [GraphRoot seq roots grads])"
  by (simp add: hooks_keep_def GraphRoot_def)

lemma graph_root_acyclic:
  assumes "graph_closed G roots" "acyclic (succs G)"
  shows "acyclic (succs (G @ [GraphRoot seq roots grads]))"
proof (rule acyclicI, intro allI notI)
  let ?G = "G @ [GraphRoot seq roots grads]"
  have into: "y \<noteq> length G" if "(x, y) \<in> (succs ?G)\<^sup>+" for x y
    using that graph_root_ok [OF assms(1)] by (cases rule: tranclE) (auto simp: succs_def graph_ok_def)
  have inner: "(x, y) \<in> (succs ?G)\<^sup>+ \<Longrightarrow> x \<noteq> length G \<Longrightarrow> (x, y) \<in> (succs G)\<^sup>+" for x y
  proof (induction rule: trancl_induct)
    case (base y)
    then show ?case by (auto simp: succs_def next_edges_root)
  next
    case (step y z)
    then have "(y, z) \<in> succs G" using into [of x y] by (auto simp: succs_def next_edges_root)
    then show ?case using step by (meson trancl.trancl_into_trancl)
  qed
  fix x assume "(x, x) \<in> (succs ?G)\<^sup>+"
  then show False using into [of x x] inner [of x x] assms(2) by (auto simp: acyclic_def)
qed

lemma in_degree_finite:
  assumes "graph_ok G root"
  shows "finite (dom (dep_of \<circ> in_degree G root))" "card (dom (dep_of \<circ> in_degree G root)) < length G"
proof -
  have "dom (dep_of \<circ> in_degree G root) \<subseteq> reach G root - {root}"
    using in_degree_reach(2) [of G root] in_degree_root [OF assms] by (auto simp: dep_of_def split: if_splits)
  then have sub: "dom (dep_of \<circ> in_degree G root) \<subset> {..<length G}"
    using reach_bound [OF assms] assms by (auto simp: graph_ok_def)
  then show "finite (dom (dep_of \<circ> in_degree G root))" using finite_subset by blast
  show "card (dom (dep_of \<circ> in_degree G root)) < length G" using psubset_card_mono [OF _ sub] by simp
qed

lemma complete_fns_Nil: "complete_fns T [] = {}"
  by (auto simp: complete_fns_def)

lemma execute_start_run:
  assumes start: "execute_start ops G threads seq roots inputs outputs = Some (Inr (G', s))" and "0 < threads" "graph_closed G roots"
  obtains grads where "validate_outputs ops G roots inputs = Inr grads" "G' = G @ [GraphRoot seq roots grads]"
    "graph_ok G' (length G)" "fn_num_inputs G' (length G) = 0" "run_inv s"
    "outputs = [] \<Longrightarrow> data_inv ops G' (length G) s" "\<not> has_error s" "run_weight s < 5 * length G' + 4"
proof -
  obtain grads where v: "validate_outputs ops G roots inputs = Inr grads"
    using start by (cases "validate_outputs ops G roots inputs") (simp_all add: execute_start_def)
  let ?G = "G @ [GraphRoot seq roots grads]" and ?root = "\<lparr>task_fn = length G, task_inputs = []\<rparr>"
  have ok: "graph_ok ?G (length G)" using assms(3) by (rule graph_root_ok)
  have small: "in_degree ?G (length G) f < 2 ^ 31" for f using assms(3) by (rule in_degree_small)
  let ?deps = "dep_of \<circ> in_degree ?G (length G)"
  note deps = compute_dependencies_in_degree [OF ok small]
  obtain ei where ei: "(if outputs = [] then Some (Inr []) else init_to_execute ?G (length G) outputs) = Some (Inr ei)"
    using start v deps by (auto simp: execute_start_def Let_def split: option.splits sum.splits)
  let ?task = "new_GraphTask\<lparr>dependencies := ?deps, exec_info := ei, captured_vars := replicate (length outputs) None\<rparr>"
  have G': "?G = G'" using start v deps ei by (simp add: execute_start_def Let_def)
  have s: "snd (ReadyQueue_push 0 ?root (new_Engine threads ?task)) = s"
    using start v deps ei by (simp add: execute_start_def Let_def G' [symmetric])
  have q: "queued s = {#?root#}"
    unfolding s [symmetric] queued_def using assms(2) mset_concat_snoc [of 0 "replicate threads []" ?root]
    by (simp add: ReadyQueue_push_def new_Engine_def GraphTask.defs modify_def)
  have none: "sum_list (replicate n {#}) = {#}" for n by (induction n) simp_all
  have ev: "evaluating s = {#}" and b: "sum_list (map busy (workers s)) = 0"
    and st: "sum_list (map stage (workers s)) = 0"
    unfolding s [symmetric] by (simp_all add: evaluating_def ReadyQueue_push_def new_Engine_def GraphTask.defs modify_def sum_list_replicate none)
  have fields: "dependencies s = ?deps" "not_ready s = Map.empty" "outstanding_tasks s = 1" "exec_info s = ei"
    "captured_vars s = replicate (length outputs) None" "\<not> has_error s" "exception s = None" "evaluated s = []"
    "length (workers s) = length (ready_queues s)"
    unfolding s [symmetric] by (simp_all add: ReadyQueue_push_def new_Engine_def new_GraphTask_def GraphTask.defs modify_def)
  note fin = in_degree_finite [OF ok]
  have "run_inv s" unfolding run_inv_def using q b fin fields by simp
  moreover have "data_inv ops ?G (length G) s" if "outputs = []"
    using that ei small unfolding data_inv_def Let_def fields q ev
    by (simp add: routing_def fields sent_def called_def ready_tasks_def complete_fns_Nil)
  moreover have "run_weight s < 5 * length ?G + 4" unfolding run_weight_def fields q st using fin(2) by simp
  ultimately show thesis using that [OF v G' [symmetric]] ok fields(6) fn_num_inputs_root [of G seq roots grads] unfolding G' by blast
qed


lemma idle_state:
  assumes "run_inv t" "outstanding_tasks t = 0"
  shows "queued t = {#}" "evaluating t = {#}"
proof -
  have "size (queued t) = 0" "sum_list (map busy (workers t)) = 0" using assms by (simp_all add: run_inv_def)
  then show "queued t = {#}" "evaluating t = {#}"
    using size_sum_task_in [of "workers t"] by (simp_all add: evaluating_def del: sum_list_eq_0_iff)
qed


text \<open>The preparation of a run ends.\<close>

lemma execute_start_returns:
  assumes "graph_closed G roots" "validate_outputs ops G roots inputs = Inr grads"
  shows "\<exists>s. execute_start ops G threads seq roots inputs [] = Some (Inr (G @ [GraphRoot seq roots grads], s))"
  using compute_dependencies_in_degree [OF graph_root_ok [OF assms(1)] in_degree_small [OF assms(1)]] assms(2) by (simp add: execute_start_def Let_def)

end
