(* ===== verification/Autograd_Needed.thy ===== *)
theory Autograd_Needed
  imports Autograd_Routing
begin

text \<open>
  The functions a call of \<open>grad\<close> executes: the traversal of \<open>init_to_execute\<close> ends, and marks as needed exactly the
  functions from which a requested output can be reached. The comment in the code gives a recursive definition that the
  loop with its explicit stack unrolls.
\<close>

section \<open>Captures\<close>

lemma info_of_update: "info_of (AList.update f i ei) g = (if g = f then i else info_of ei g)"
  by (simp add: info_of_def update_conv')

definition captures_of :: "(nat \<times> nat) list \<Rightarrow> nat \<Rightarrow> nat \<Rightarrow> (nat \<times> nat) list" where
  "captures_of outputs n f = map (\<lambda>(i, g, nr). (nr, i)) (filter (\<lambda>(i, g, nr). g = f) (enumerate n outputs))"

definition add_caps :: "(nat \<times> nat) list option \<Rightarrow> (nat \<times> nat) list \<Rightarrow> (nat \<times> nat) list option" where
  "add_caps old cs = (if cs = [] then old else Some ((case old of None \<Rightarrow> [] | Some c \<Rightarrow> c) @ cs))"

lemma captures_of_simps [simp]:
  "captures_of [] n f = []"
  "captures_of ((g, nr) # outputs) n f = (if g = f then (nr, n) # captures_of outputs (n + 1) f else captures_of outputs (n + 1) f)"
  by (simp_all add: captures_of_def)

lemma add_captures_info:
  "captures (info_of (add_captures outputs n ei) f) = add_caps (captures (info_of ei f)) (captures_of outputs n f)"
  "needed (info_of (add_captures outputs n ei) f) = needed (info_of ei f)"
  by (induction outputs n ei rule: add_captures.induct)
     (auto simp: Let_def info_of_update add_caps_def split: option.splits)

lemma captures_of_empty: "captures_of outputs n f = [] \<longleftrightarrow> f \<notin> fst ` set outputs"
proof (induction outputs arbitrary: n)
  case (Cons x outputs)
  then show ?case by (cases x) (auto simp: image_iff)
qed simp

section \<open>The traversal\<close>

lemma targets_append: "targets (xs @ ys) = targets xs \<union> targets ys"
  by (auto simp: targets_def)

lemma get_next_fn_None: "get_next_fn es k = (None, k') \<Longrightarrow> targets (drop k es) = {}"
proof (induction es k rule: get_next_fn.induct)
  case (1 es k)
  show ?case
  proof (cases "k < length es")
    case True
    have "es ! k = None" using 1(2) True by (subst (asm) get_next_fn.simps) (auto split: option.splits prod.splits)
    then show ?thesis
      using 1 True get_next_fn.simps [of es k] by (simp flip: Cons_nth_drop_Suc)
  qed simp
qed

lemma get_next_fn_Some:
  "get_next_fn es k = (Some g, k') \<Longrightarrow> k < k' \<and> k' \<le> length es \<and> targets (take k' es) = insert g (targets (take k es))"
proof (induction es k rule: get_next_fn.induct)
  case (1 es k)
  have k: "k < length es" using 1(2) by (subst (asm) get_next_fn.simps) (auto split: if_splits)
  show ?case
  proof (cases "es ! k" rule: edge_cases)
    case 1
    have "targets (take (k + 1) es) = targets (take k es)" using k 1 by (simp add: take_Suc_conv_app_nth targets_def)
    then show ?thesis using "1.IH" [OF k 1] "1.prems" 1 k get_next_fn.simps [of es k] by simp
  next
    case (2 f nr)
    then have "k' = k + 1" "g = f" using "1.prems" k get_next_fn.simps [of es k] by simp_all
    then show ?thesis using 2 k by (auto simp: take_Suc_conv_app_nth targets_def)
  qed
qed

text \<open>A function is wanted if one with captures can be reached from it over at least one edge.\<close>

definition wanted :: "'v graph \<Rightarrow> nat set \<Rightarrow> nat \<Rightarrow> bool" where
  "wanted G C f \<longleftrightarrow> (\<exists>g \<in> C. (f, g) \<in> (succs G)\<^sup>+)"

lemma wanted_step: "wanted G C f \<longleftrightarrow> (\<exists>g \<in> targets (next_edges G f). wanted G C g \<or> g \<in> C)"
proof -
  have "(f, g) \<in> (succs G)\<^sup>+ \<longleftrightarrow> (\<exists>h \<in> targets (next_edges G f). (h, g) \<in> (succs G)\<^sup>+ \<or> h = g)" for g
    by (subst trancl_unfold_left) (auto simp: succs_def rtrancl_eq_or_trancl)
  then show ?thesis unfolding wanted_def by blast
qed

fun stack_path :: "'v graph \<Rightarrow> (nat \<times> nat) list \<Rightarrow> bool" where
  "stack_path G ((g, i) # (f, k) # st) \<longleftrightarrow> (f, g) \<in> succs G \<and> stack_path G ((f, k) # st)"
| "stack_path G st \<longleftrightarrow> True"

lemma stack_path_tl: "stack_path G (x # st) \<Longrightarrow> stack_path G st"
  by (cases x; cases st) auto

lemma stack_path_reaches: "stack_path G ((f, k) # st) \<Longrightarrow> g \<in> fst ` set st \<Longrightarrow> (g, f) \<in> (succs G)\<^sup>+"
proof (induction st arbitrary: f k)
  case (Cons x st)
  obtain h i where x: "x = (h, i)" by (cases x)
  have e: "(h, f) \<in> succs G" "stack_path G ((h, i) # st)" using Cons.prems(1) x by simp_all
  show ?case
  proof (cases "g = h")
    case True
    then show ?thesis using e by blast
  next
    case False
    then have "(g, h) \<in> (succs G)\<^sup>+" using Cons.IH [OF e(2)] Cons.prems(2) x by auto
    then show ?thesis using e(1) by (rule trancl_into_trancl)
  qed
qed simp

definition need_inv :: "'v graph \<Rightarrow> (nat \<times> ExecInfo) list \<Rightarrow> nat set \<Rightarrow> (nat \<times> nat) list \<Rightarrow> nat set \<Rightarrow> (nat \<times> ExecInfo) list \<Rightarrow> bool" where
  "need_inv G ei0 D st seen ei \<longleftrightarrow> seen \<subseteq> D \<union> fst ` set st \<and> stack_path G st \<and>
     (\<forall>(f, k) \<in> set st. targets (take k (next_edges G f)) \<subseteq> seen) \<and>
     (\<forall>f \<in> D. targets (next_edges G f) \<subseteq> D \<and> map_of ei f \<noteq> None \<and>
        (needed (info_of ei f) \<longleftrightarrow> wanted G {g. captures (info_of ei0 g) \<noteq> None} f)) \<and>
     (\<forall>f. captures (info_of ei f) = captures (info_of ei0 f))"

lemma any_needed_iff: "any_needed es ei \<longleftrightarrow> (\<exists>g \<in> targets es. should_execute (info_of ei g))"
proof (induction es)
  case (Cons e es)
  then show ?case
    by (cases e rule: edge_cases) (auto simp: any_needed_def info_of_def should_execute_def split: option.splits)
qed (simp add: any_needed_def)

lemma need_inv_finish:
  assumes inv: "need_inv G ei0 D ((fn, k) # st) seen ei" and acyc: "acyclic (succs G)"
    and all: "targets (drop k (next_edges G fn)) = {}"
  shows "need_inv G ei0 (insert fn D) st seen
    (AList.update fn ((info_of ei fn)\<lparr>needed := any_needed (next_edges G fn) ei\<rparr>) ei)"
proof -
  let ?C = "{g. captures (info_of ei0 g) \<noteq> None}" and ?ei = "AList.update fn ((info_of ei fn)\<lparr>needed := any_needed (next_edges G fn) ei\<rparr>) ei"
  have "targets (next_edges G fn) = targets (take k (next_edges G fn)) \<union> targets (drop k (next_edges G fn))"
    by (metis append_take_drop_id targets_append)
  then have seen: "targets (next_edges G fn) \<subseteq> seen" using inv all by (auto simp: need_inv_def)
  have D: "targets (next_edges G fn) \<subseteq> D"
  proof
    fix g assume g: "g \<in> targets (next_edges G fn)"
    then have e: "(fn, g) \<in> succs G" by (simp add: succs_def)
    have "g \<notin> fst ` set st" and "g \<noteq> fn"
      using stack_path_reaches [of G fn k st g] inv e acyc unfolding need_inv_def acyclic_def
      by (metis trancl_into_trancl2, metis r_into_trancl')
    then show "g \<in> D" using g seen inv by (auto simp: need_inv_def)
  qed
  have "should_execute (info_of ei g) \<longleftrightarrow> wanted G ?C g \<or> g \<in> ?C" if "g \<in> D" for g
    using inv that by (auto simp: need_inv_def should_execute_def)
  then have "any_needed (next_edges G fn) ei \<longleftrightarrow> wanted G ?C fn"
    unfolding any_needed_iff wanted_step [of G ?C fn] using D by blast
  moreover have "stack_path G st" using inv stack_path_tl by (auto simp: need_inv_def)
  ultimately show ?thesis
    using inv D unfolding need_inv_def by (auto simp: info_of_update update_conv')
qed


definition frame_weight :: "'v graph \<Rightarrow> nat \<times> nat \<Rightarrow> nat" where
  "frame_weight G x = Suc (length (next_edges G (fst x)) - snd x)"

lemma needed_loop_run:
  assumes acyc: "acyclic (succs G)" and closed: "\<And>f. targets (next_edges G f) \<subseteq> {..<n}"
    and "need_inv G ei0 D st seen ei"
  shows "\<exists>D' seen' ei'. needed_loop G (st, seen, ei) = Some (seen', ei') \<and> need_inv G ei0 D' [] seen' ei' \<and>
    D \<union> fst ` set st \<subseteq> D'"
  using assms(3)
proof (induction "(card ({..<n} - seen), sum_list (map (frame_weight G) st))" arbitrary: D st seen ei
    rule: wf_induct_rule [OF wf_lex_prod [OF wf_less_than wf_less_than]])
  case (1 st seen D ei)
  show ?case
  proof (cases st)
    case Nil
    then show ?thesis using 1(2) needed_loop.simps [of G "(st, seen, ei)"] by auto
  next
    case (Cons x rest)
    obtain fn k where x: "x = (fn, k)" by (cases x)
    obtain o' k' where nxt: "get_next_fn (next_edges G fn) k = (o', k')" by fastforce
    note loop = needed_loop.simps [of G "(st, seen, ei)"]
    have inv: "need_inv G ei0 D ((fn, k) # rest) seen ei" using 1(2) Cons x by simp
    show ?thesis
    proof (cases o')
      case None
      let ?ei = "AList.update fn ((info_of ei fn)\<lparr>needed := any_needed (next_edges G fn) ei\<rparr>) ei"
      have step: "needed_loop G (st, seen, ei) = needed_loop G (rest, seen, ?ei)" using loop Cons x nxt None by simp
      have fin: "need_inv G ei0 (insert fn D) rest seen ?ei"
        using need_inv_finish [OF inv acyc] get_next_fn_None [of "next_edges G fn" k k'] nxt None by simp
      have "((card ({..<n} - seen), sum_list (map (frame_weight G) rest)), (card ({..<n} - seen), sum_list (map (frame_weight G) st)))
          \<in> less_than <*lex*> less_than" using Cons by (simp add: frame_weight_def)
      from 1(1) [OF this fin] show ?thesis unfolding step using Cons x by auto
    next
      case (Some g)
      note g = get_next_fn_Some [OF nxt [unfolded Some]]
      then have gt: "g \<in> targets (next_edges G fn)"
        by (metis Un_iff append_take_drop_id insertI1 targets_append)
      show ?thesis
      proof (cases "g \<in> seen")
        case True
        have step: "needed_loop G (st, seen, ei) = needed_loop G ((fn, k') # rest, seen, ei)"
          using loop Cons x nxt Some True by simp
        have sp: "stack_path G ((fn, k') # rest)" using inv by (cases rest) (auto simp: need_inv_def)
        have i: "need_inv G ei0 D ((fn, k') # rest) seen ei" using inv g True sp by (auto simp: need_inv_def)
        have "((card ({..<n} - seen), sum_list (map (frame_weight G) ((fn, k') # rest))),
            (card ({..<n} - seen), sum_list (map (frame_weight G) st))) \<in> less_than <*lex*> less_than"
          using Cons x g by (simp add: frame_weight_def) arith
        from 1(1) [OF this i] show ?thesis unfolding step using Cons x by simp
      next
        case False
        let ?st = "(g, 0) # (fn, k') # rest"
        have step: "needed_loop G (st, seen, ei) = needed_loop G (?st, insert g seen, ei)"
          using loop Cons x nxt Some False by simp
        have sp: "stack_path G ?st" using inv gt by (cases rest) (auto simp: need_inv_def succs_def)
        have i: "need_inv G ei0 D ?st (insert g seen) ei" using inv g sp by (auto simp: need_inv_def)
        have "card ({..<n} - insert g seen) < card ({..<n} - seen)"
          using False gt closed [of fn] by (intro psubset_card_mono) auto
        then have "((card ({..<n} - insert g seen), sum_list (map (frame_weight G) ?st)),
            (card ({..<n} - seen), sum_list (map (frame_weight G) st))) \<in> less_than <*lex*> less_than" by simp
        from 1(1) [OF this i] show ?thesis unfolding step using Cons x by auto
      qed
    qed
  qed
qed

lemma needed_roots_run:
  assumes acyc: "acyclic (succs G)" and closed: "\<And>f. targets (next_edges G f) \<subseteq> {..<n}"
    and "need_inv G ei0 D [] seen ei" "None \<notin> set es"
  shows "\<exists>D' seen' ei'. needed_roots G es (seen, ei) = Some (Inr ei') \<and> need_inv G ei0 D' [] seen' ei' \<and> D \<union> targets es \<subseteq> D'"
  using assms(3,4)
proof (induction es arbitrary: D seen ei)
  case Nil
  then show ?case by auto
next
  case (Cons e es)
  then obtain f nr where e: "e = Some (f, nr)" by (cases e rule: edge_cases) auto
  show ?case
  proof (cases "f \<in> seen")
    case True
    then have "f \<in> D" using Cons.prems(1) by (auto simp: need_inv_def)
    then show ?thesis using Cons.IH [OF Cons.prems(1)] Cons.prems(2) True e by fastforce
  next
    case False
    have "need_inv G ei0 D [(f, 0)] seen ei" using Cons.prems(1) by (auto simp: need_inv_def)
    from needed_loop_run [OF acyc closed this] obtain D' seen' ei'
      where l: "needed_loop G ([(f, 0)], seen, ei) = Some (seen', ei')" "need_inv G ei0 D' [] seen' ei'" "D \<union> {f} \<subseteq> D'"
      by auto
    show ?thesis using Cons.IH [OF l(2)] Cons.prems(2) False e l(1,3) by fastforce
  qed
qed

end
