(* ===== verification/Autograd_Properties.thy ===== *)
theory Autograd_Properties
  imports Autograd_Runs Autograd_Needed
begin

text \<open>The properties of backward passes, and a small graph on which they are tried.\<close>

section \<open>A graph to try\<close>

text \<open>
  Gradients are integers. The function 2 sends three times its input to 1 and five times its input to 0, and 1 sends
  twice its input to 0, which collects. In \<open>sample_failing\<close> the function 0 fails.
\<close>

definition sample_ops :: "int var_ops" where
  "sample_ops = \<lparr>v_add = (+), v_sum_to = (\<lambda>v _. v), v_sizes = (\<lambda>_. []), v_backend = (\<lambda>_. Backend.CPU),
     v_scalar_type = (\<lambda>_. Float), v_device = (\<lambda>_. \<lparr>dev_type = DeviceType.CPU, dev_index = -1\<rparr>), v_has_nan = (\<lambda>_. False)\<rparr>"

definition sample_meta :: InputMetadata where
  "sample_meta = \<lparr>meta_type = Some (Backend.CPU, Float), meta_shape = [],
     meta_device = \<lparr>dev_type = DeviceType.CPU, dev_index = -1\<rparr>\<rparr>"

definition sample_fn :: "edge list \<Rightarrow> nat \<Rightarrow> (int vars \<Rightarrow> int vars result) \<Rightarrow> int fn_node" where
  "sample_fn edges nr f = \<lparr>fn_edges = edges, fn_metadata = [sample_meta], fn_seq = nr, fn_apply = f,
     fn_pre_hooks = [], fn_post_hooks = []\<rparr>"

definition times :: "int list \<Rightarrow> int vars \<Rightarrow> int vars result" where
  "times ks vs = (case vs of [Some x] \<Rightarrow> Inr (map (\<lambda>k. Some (k * x)) ks) | _ \<Rightarrow> Inl UndefinedBehaviour)"

definition sample_graph :: "int graph" where
  "sample_graph = [sample_fn [] 0 (times []), sample_fn [Some (0, 0)] 1 (times [2]),
     sample_fn [Some (1, 0), Some (0, 0)] 2 (times [3, 5])]"


definition cycle :: "int graph \<Rightarrow> int Engine \<Rightarrow> int Engine" where
  "cycle G s = worker_count 0 (worker_evaluate False sample_ops G 0 (ready_queues s ! 0 ! 0)
     (worker_check 0 (ready_queues s ! 0 ! 0) (ReadyQueue_pop 0 0 s)))"

lemma int32_of_small [simp]: "int32_of 0 = 0" "int32_of 1 = 1" "int32_of 2 = 2"
  by (simp_all add: int32_of_def)

lemma worker_evaluate_workers:
  "workers (worker_evaluate anomaly ops G w task s) = (workers s)[w := Counting]"
proof -
  obtain r u where u: "evaluate_function anomaly ops G task s = (r, u)" by fastforce
  then have "workers u = workers s" using evaluate_function_frame [OF u] by (simp add: frame_def)
  then show ?thesis using u by (cases r) (simp_all add: worker_evaluate_def thread_on_exception_def)
qed

lemma cycle_run:
  assumes "engine_runs False sample_ops G s t" "workers t = [Popping]" "\<not> has_error t" "on_top G (ready_queues t ! 0) 0"
  shows "engine_runs False sample_ops G s (cycle G t)"
proof -
  let ?step = "thread_main_step False sample_ops G"
  let ?p = "ReadyQueue_pop 0 0 t"
  let ?u = "worker_check 0 (ready_queues t ! 0 ! 0) ?p"
  let ?v = "worker_evaluate False sample_ops G 0 (ready_queues t ! 0 ! 0) ?u"
  have pop: "?step t ?p" using assms by (intro thread_main_step.pop) simp_all
  have "workers ?p = [Popped (ready_queues t ! 0 ! 0)]" using assms by (simp add: ReadyQueue_pop_def Let_def)
  then have check: "?step ?p ?u" by (intro thread_main_step.check) simp_all
  have u: "workers ?u = [Evaluating (ready_queues t ! 0 ! 0)]"
    using assms by (simp add: ReadyQueue_pop_def worker_check_def Let_def)
  have eval: "?step ?u ?v" using u by (intro thread_main_step.evaluate) simp_all
  have "workers ?v = [Counting]" using u by (simp add: worker_evaluate_workers)
  then have "?step ?v (cycle G t)" unfolding cycle_def by (intro thread_main_step.count) simp_all
  with assms(1) pop check eval show ?thesis unfolding engine_runs_def by (meson rtranclp.rtrancl_into_rtrancl)
qed

definition sample_full :: "int graph" where
  "sample_full = sample_graph @ [GraphRoot 3 [Some (2, 0)] [Some 1]]"

definition sample_start :: "int Engine" where
  "sample_start = snd (ReadyQueue_push 0 \<lparr>task_fn = 3, task_inputs = []\<rparr>
     (new_Engine 1 (new_GraphTask\<lparr>dependencies := [2 \<mapsto> 1, 1 \<mapsto> 1, 0 \<mapsto> 2]\<rparr>)))"

lemmas sample_defs = sample_full_def sample_graph_def sample_fn_def GraphRoot_def sample_ops_def sample_meta_def times_def

lemma sample_closed: "graph_closed sample_graph [Some (2, 0)]" "hooks_keep sample_graph" "acyclic (succs sample_graph)"
proof -
  show "graph_closed sample_graph [Some (2, 0)]" "hooks_keep sample_graph"
    by (auto simp: graph_closed_def hooks_keep_def sample_graph_def sample_fn_def)
  have "succs sample_graph \<subseteq> less_than\<inverse>"
    by (auto simp: succs_def next_edges_def sample_graph_def sample_fn_def less_Suc_eq nth_Cons split: if_splits nat.splits)
  then show "acyclic (succs sample_graph)"
    by (rule acyclic_subset [rotated]) (simp add: wf_acyclic)
qed

lemma sample_length: "length sample_graph = 3"
  by (simp add: sample_graph_def)

lemma sample_dependencies: "compute_dependencies sample_full 3 = Some [2 \<mapsto> 1, 1 \<mapsto> 1, 0 \<mapsto> 2]"
  unfolding compute_dependencies_def
  by (simp add: sample_full_def sample_graph_def sample_fn_def GraphRoot_def dependency_loop.simps next_edges_def)

lemma sample_started: "execute_start sample_ops sample_graph 1 3 [Some (2, 0)] [Some 1] [] = Some (Inr (sample_full, sample_start))"
proof -
  have v: "validate_outputs sample_ops sample_graph [Some (2, 0)] [Some 1] = Inr [Some 1]"
    by (simp add: validate_outputs_def validate_output_def fn_num_inputs_def is_compatible_type_def sample_defs)
  show ?thesis using sample_dependencies v
    by (simp add: sample_length execute_start_def Let_def sample_full_def sample_start_def new_GraphTask_def)
qed


text \<open>The states between the cycles of the only worker.\<close>

definition sample_state :: "int FunctionTask list \<Rightarrow> (nat \<rightharpoonup> int vars) \<Rightarrow> (nat \<rightharpoonup> int) \<Rightarrow> int call_log \<Rightarrow> int Engine" where
  "sample_state q nr deps E = \<lparr>has_error = False, exception = None, outstanding_tasks = length q, not_ready = nr,
     dependencies = deps, exec_info = [], captured_vars = [], ready_queues = [q], workers = [Popping], evaluated = E\<rparr>"

lemmas cycle_eval = cycle_def sample_state_def ReadyQueue_pop_def worker_check_def worker_count_def worker_evaluate_def
  evaluate_function_def instrument_def call_function_def validate_outputs_def validate_output_def
  is_compatible_type_def anomaly_check_def propagate_edge_eq push_ready_def ReadyQueue_push_def settle_def ready_queue_def
  InputBuffer_add_def accumulate_var_def v_is_sparse_def fn_num_inputs_def next_edges_def bindm_def seqm_def lift_result_def
  gets_def modify_def ret_def Let_def

definition sample_log :: "nat \<Rightarrow> int call_log" where
  "sample_log n = take n [(3, [], [Some 1]), (2, [Some 1], [Some 3, Some 5]), (1, [Some 3], [Some 6]), (0, [Some 11], [])]"

lemma sample_started_state:
  "sample_start = sample_state [\<lparr>task_fn = 3, task_inputs = []\<rparr>] Map.empty [2 \<mapsto> 1, 1 \<mapsto> 1, 0 \<mapsto> 2] (sample_log 0)"
  by (simp add: sample_start_def sample_state_def new_Engine_def new_GraphTask_def GraphTask.defs ReadyQueue_push_def
      modify_def sample_log_def)

lemma sample_cycle_root:
  "cycle sample_full (sample_state [\<lparr>task_fn = 3, task_inputs = []\<rparr>] Map.empty [2 \<mapsto> 1, 1 \<mapsto> 1, 0 \<mapsto> 2] (sample_log 0))
     = sample_state [\<lparr>task_fn = 2, task_inputs = [Some 1]\<rparr>] Map.empty [1 \<mapsto> 1, 0 \<mapsto> 2] (sample_log 1)"
  by (simp add: cycle_eval sample_defs sample_log_def)

lemma sample_cycle_2:
  "cycle sample_full (sample_state [\<lparr>task_fn = 2, task_inputs = [Some 1]\<rparr>] Map.empty [1 \<mapsto> 1, 0 \<mapsto> 2] (sample_log 1))
     = sample_state [\<lparr>task_fn = 1, task_inputs = [Some 3]\<rparr>] [0 \<mapsto> [Some 5]] [0 \<mapsto> 1] (sample_log 2)"
  by (simp add: cycle_eval sample_defs sample_log_def)

lemma sample_cycle_1:
  "cycle sample_full (sample_state [\<lparr>task_fn = 1, task_inputs = [Some 3]\<rparr>] [0 \<mapsto> [Some 5]] [0 \<mapsto> 1] (sample_log 2))
     = sample_state [\<lparr>task_fn = 0, task_inputs = [Some 11]\<rparr>] Map.empty Map.empty (sample_log 3)"
  by (simp add: cycle_eval sample_defs sample_log_def)

lemma sample_cycle_0:
  "cycle sample_full (sample_state [\<lparr>task_fn = 0, task_inputs = [Some 11]\<rparr>] Map.empty Map.empty (sample_log 3))
     = sample_state [] Map.empty Map.empty (sample_log 4)"
  by (simp add: cycle_eval sample_defs sample_log_def)

lemma sample_state_cycle:
  assumes "engine_runs False sample_ops G s (sample_state [t] nr deps E)"
  shows "engine_runs False sample_ops G s (cycle G (sample_state [t] nr deps E))"
  by (rule cycle_run [OF assms]) (simp_all add: sample_state_def on_top_def)

lemma sample_run: "engine_runs False sample_ops sample_full sample_start (sample_state [] Map.empty Map.empty (sample_log 4))"
proof -
  have start: "engine_runs False sample_ops sample_full sample_start sample_start" by (simp add: engine_runs_def)
  note steps = sample_state_cycle [OF start [unfolded sample_started_state], unfolded sample_cycle_root]
  show ?thesis
    using sample_state_cycle [OF sample_state_cycle [OF sample_state_cycle [OF steps, unfolded sample_cycle_2],
        unfolded sample_cycle_1], unfolded sample_cycle_0]
    by (simp add: sample_started_state)
qed







section \<open>Properties\<close>



text \<open>
  Property C2. For a call of \<open>execute\<close> without requested outputs, as \<open>backward\<close> makes it: if the graph is acyclic, its edges
  stay inside it and are fewer than \<open>2 ^ 31\<close>, and the hooks after a function keep the number of its outputs, a run that
  ends without an error has called exactly the functions that can be reached from the root, each once; no function is
  left waiting, and \<open>execute\<close> returns, with no captured variables.
\<close>

theorem backward_calls_each_once:
  assumes start: "execute_start ops G threads seq roots inputs [] = Some (Inr (G', s))" "0 < threads" "graph_closed G roots"
    and graph: "acyclic (succs G)" "hooks_keep G"
    and run: "engine_runs anomaly ops G' s t" "outstanding_tasks t = 0" "\<not> has_error t"
  shows "distinct (map fst (evaluated t)) \<and> set (map fst (evaluated t)) = reach G' (length G) \<and>
    execute_finish G' t = Inr []"
proof (rule execute_start_run [OF start])
  fix grads assume G': "G' = G @ [GraphRoot seq roots grads]"
    and inv: "graph_ok G' (length G)" "fn_num_inputs G' (length G) = 0" "run_inv s" "[] = [] \<Longrightarrow> data_inv ops G' (length G) s"
  note inv = inv(1-3) inv(4) [OF refl]
  have t: "run_inv t" "data_inv ops G' (length G) t" using engine_runs_inv [OF run(1) inv] run(3) by simp_all
  have "hooks_keep G'" "acyclic (succs G')"
    unfolding G' using hooks_keep_root graph_root_acyclic start(3) graph by blast+
  note all = all_complete [OF this(1) inv(1) this(2) t(2) idle_state [OF t(1) run(2)]]
  have "captured_vars t = []" using t(2) by (simp add: data_inv_def Let_def)
  then show ?thesis using data_inv_distinct(1) [OF inv(1) t(2)] all run(3) by (simp add: execute_finish_def list_ex_iff)
qed

theorem backward_calls_each_once_witness:
  "reach sample_full 3 = {3, 2, 1, 0} \<and>
   execute_finish sample_full (sample_state [] Map.empty Map.empty (sample_log 4)) = Inr []"
  using backward_calls_each_once [OF sample_started _ sample_closed(1,3,2) sample_run, unfolded sample_length]
  by (simp add: sample_state_def sample_log_def)

text \<open>
  Property C3. For a call of \<open>execute\<close> without requested outputs on a graph whose edges stay inside it and are fewer than
  \<open>2 ^ 31\<close>, if the hooks after a function keep the number of its outputs: as long as no function has failed, each call was
  made after the calls of all functions that send it gradients, its inputs were the gradients they sent, summed in the
  order of arrival, and its outputs are those of the function with its hooks.
\<close>

theorem backward_calls_in_order:
  assumes start: "execute_start ops G threads seq roots inputs [] = Some (Inr (G', s))" "0 < threads" "graph_closed G roots"
    and hooks: "hooks_keep G" and run: "engine_runs anomaly ops G' s t" "\<not> has_error t"
    and call: "evaluated t = E1 @ (f, ins, outs) # E2"
  shows "{g \<in> reach G' (length G). f \<in> targets (next_edges G' g)} \<subseteq> fst ` set E1 \<and>
    ins = received ops G' (sent G' E1) f \<and> call_function ops G' f ins = Inr outs"
proof (rule execute_start_run [OF start])
  fix grads assume G': "G' = G @ [GraphRoot seq roots grads]"
    and inv: "graph_ok G' (length G)" "fn_num_inputs G' (length G) = 0" "run_inv s" "[] = [] \<Longrightarrow> data_inv ops G' (length G) s"
  note inv = inv(1-3) inv(4) [OF refl]
  have t: "data_inv ops G' (length G) t" using engine_runs_inv [OF run(1) inv] run(2) by simp
  have keep: "hooks_keep G'" unfolding G' using hooks by (rule hooks_keep_root)
  have "log_ok ops G' (length G) (evaluated t)" using t by (simp add: data_inv_def Let_def)
  then have "ins = received ops G' (sent G' E1) f \<and> call_function ops G' f ins = Inr outs"
    unfolding log_ok_def call by blast
  then show ?thesis using predecessors_first [OF keep inv(1) t call] by blast
qed

theorem backward_calls_in_order_witness:
  "{g \<in> reach sample_full 3. 0 \<in> targets (next_edges sample_full g)} \<subseteq> {1, 2, 3} \<and>
   received sample_ops sample_full (sent sample_full (sample_log 3)) 0 = [Some 11]"
  using backward_calls_in_order [OF sample_started _ sample_closed(1,2) sample_run, of "sample_log 3" 0 "[Some 11]" "[]" "[]", unfolded sample_length]
  by (auto simp: sample_state_def sample_log_def)



text \<open>
  Property C18. In an acyclic graph whose root edges are all valid, \<open>init_to_execute\<close> ends, and it has an entry for every
  function that can be reached: the function is needed iff a requested output lies behind one of its edges, and its
  captures are the requested inputs of that function with their positions in the result.
\<close>

theorem init_to_execute_marks_needed:
  assumes ok: "graph_ok G root" "acyclic (succs G)" and roots: "None \<notin> set (next_edges G root)"
  shows "\<exists>ei. init_to_execute G root outputs = Some (Inr ei) \<and> (\<forall>f \<in> reach G root - {root}. \<exists>info.
    map_of ei f = Some info \<and> (needed info \<longleftrightarrow> (\<exists>g \<in> fst ` set outputs. (f, g) \<in> (succs G)\<^sup>+)) \<and>
    captures info = (if f \<in> fst ` set outputs then Some (captures_of outputs 0 f) else None))"
proof -
  let ?ei = "add_captures outputs 0 [(root, \<lparr>needed = True, captures = None\<rparr>)]"
  have caps: "captures (info_of ?ei f) = (if f \<in> fst ` set outputs then Some (captures_of outputs 0 f) else None)" for f
  proof -
    have "captures (info_of [(root, \<lparr>needed = True, captures = None\<rparr>)] f) = None" by (simp add: info_of_def)
    then show ?thesis using captures_of_empty [of outputs 0 f] by (simp add: add_captures_info add_caps_def)
  qed
  have closed: "targets (next_edges G f) \<subseteq> {..<length G}" for f using ok(1) by (auto simp: graph_ok_def)
  have "need_inv G ?ei {} [] {} ?ei" by (simp add: need_inv_def)
  from needed_roots_run [OF ok(2) closed this roots] obtain D seen ei where
    run: "needed_roots G (next_edges G root) ({}, ?ei) = Some (Inr ei)"
    and inv: "need_inv G ?ei D [] seen ei" and D: "targets (next_edges G root) \<subseteq> D" by auto
  have "reach G root \<subseteq> insert root D" using inv D by (intro reach_closed) (auto simp: need_inv_def)
  then have D: "f \<in> D" if "f \<in> reach G root - {root}" for f using that by blast
  have C: "{g. captures (info_of ?ei g) \<noteq> None} = fst ` set outputs" unfolding caps by auto
  have "map_of ei f = Some (info_of ei f) \<and> (needed (info_of ei f) \<longleftrightarrow> wanted G (fst ` set outputs) f) \<and>
      captures (info_of ei f) = captures (info_of ?ei f)" if "f \<in> reach G root - {root}" for f
    using inv D [OF that] unfolding need_inv_def C by (simp add: info_of_def split: option.splits)
  then have "\<exists>info. map_of ei f = Some info \<and> (needed info \<longleftrightarrow> (\<exists>g \<in> fst ` set outputs. (f, g) \<in> (succs G)\<^sup>+)) \<and>
      captures info = (if f \<in> fst ` set outputs then Some (captures_of outputs 0 f) else None)"
    if "f \<in> reach G root - {root}" for f
    using that unfolding wanted_def caps by blast
  then show ?thesis unfolding init_to_execute_def using run by blast
qed


lemma sample_full_graph: "graph_ok sample_full 3" "acyclic (succs sample_full)" "next_edges sample_full 3 = [Some (2, 0)]"
  "(3, 2) \<in> succs sample_full" "(2, 1) \<in> succs sample_full"
proof -
  show "graph_ok sample_full 3" "acyclic (succs sample_full)"
    using graph_root_ok [OF sample_closed(1)] graph_root_acyclic [OF sample_closed(1,3)] unfolding sample_full_def sample_length
    by blast+
  show "next_edges sample_full 3 = [Some (2, 0)]" "(3, 2) \<in> succs sample_full" "(2, 1) \<in> succs sample_full"
    by (simp_all add: succs_def next_edges_def sample_defs)
qed

theorem init_to_execute_marks_needed_witness:
  "\<exists>ei info. init_to_execute sample_full 3 [(1, 0)] = Some (Inr ei) \<and> map_of ei 2 = Some info \<and> needed info \<and> captures info = None"
proof -
  have "2 \<in> reach sample_full 3 - {3}" using sample_full_graph(4) by (auto simp: reach_def)
  moreover have "(2, 1) \<in> (succs sample_full)\<^sup>+" using sample_full_graph(5) by blast
  ultimately show ?thesis
    using init_to_execute_marks_needed [OF sample_full_graph(1,2), of "[(1, 0)]"] sample_full_graph(3) by fastforce
qed

end
