(* ===== verification/Left_Right.thy ===== *)
theory Left_Right
  imports Prelude
begin

text \<open>
  The left-right synchronisation primitive (c10/util/LeftRight.h): two copies of the data, one for the readers and one
  for the writer, and two counters of readers. The indices only take the values 0 and 1: here they are booleans, and
  \<open>^ 1\<close> is negation. A step is one access to an atomic or the end of a call of a function of the user; any number of
  readers run beside one writer, the thread that holds \<open>_writeMutex\<close>, and the destructor. The functions of the writers
  are arbitrary, and the counters are 32-bit integers that wrap around. All accesses are sequentially
  consistent, so the steps interleave.
\<close>

section \<open>State\<close>

text \<open>
  A function for the writer changes the data and returns a result or throws; it is called twice, and \<open>f\<close> and \<open>g\<close> stand
  for the two calls.
\<close>

type_synonym ('a, 'r) write_fun = "'a \<Rightarrow> 'r result \<times> 'a"

text \<open>
  Where a reader is, with the index of its counter: before the increment, before the check for destruction, before the
  load of the data index, in \<open>readFunc\<close> with an instance, and before the decrement. The value that the instance had when
  the reader chose it is recorded with it; nothing reads it.
\<close>

datatype 'a reader = R_idle | R_index bool | R_counted bool | R_checked bool | R_reading bool bool 'a | R_leave bool

datatype ('a, 'r) writer = W_idle
  | W_locked "('a, 'r) write_fun" "('a, 'r) write_fun"
  | W_first "('a, 'r) write_fun" "('a, 'r) write_fun" bool
  | W_switch "('a, 'r) write_fun" "('a, 'r) write_fun" bool
  | W_load "('a, 'r) write_fun" "('a, 'r) write_fun" bool
  | W_wait_A "('a, 'r) write_fun" "('a, 'r) write_fun" bool bool
  | W_counter "('a, 'r) write_fun" "('a, 'r) write_fun" bool bool
  | W_wait_B "('a, 'r) write_fun" "('a, 'r) write_fun" bool bool
  | W_second "('a, 'r) write_fun" "('a, 'r) write_fun" bool

datatype destructor = D_none | D_lock | D_wait_0 | D_wait_1 | D_over

record ('a, 'r) LeftRight =
  foregroundCounterIndex :: bool
  foregroundDataIndex :: bool
  counters :: "bool \<Rightarrow> int"
  lr_data :: "bool \<Rightarrow> 'a"
  inDestruction :: bool
  lr_readers :: "'a reader list"
  lr_writer :: "('a, 'r) writer"
  lr_destructor :: destructor

definition new_LeftRight :: "'a \<Rightarrow> nat \<Rightarrow> ('a, 'r) LeftRight" where
  "new_LeftRight x n = \<lparr>foregroundCounterIndex = False, foregroundDataIndex = False, counters = (\<lambda>_. 0),
     lr_data = (\<lambda>_. x), inDestruction = False, lr_readers = replicate n R_idle, lr_writer = W_idle, lr_destructor = D_none\<rparr>"

section \<open>Reading\<close>

text \<open>The steps of \<open>read\<close>; the first starts a new call.\<close>

fun read_step :: "nat \<Rightarrow> 'a reader \<Rightarrow> ('a, 'r) LeftRight \<Rightarrow> ('a, 'r) LeftRight" where
  "read_step i R_idle s = s\<lparr>lr_readers := (lr_readers s)[i := R_index (foregroundCounterIndex s)]\<rparr>"
| "read_step i (R_index c) s = s\<lparr>counters := (counters s)(c := int32_of (counters s c + 1)), lr_readers := (lr_readers s)[i := R_counted c]\<rparr>"
| "read_step i (R_counted c) s = s\<lparr>lr_readers := (lr_readers s)[i := if inDestruction s then R_leave c else R_checked c]\<rparr>"
| "read_step i (R_checked c) s = s\<lparr>lr_readers := (lr_readers s)[i :=
     R_reading c (foregroundDataIndex s) (lr_data s (foregroundDataIndex s))]\<rparr>"
| "read_step i (R_reading c d v) s = s\<lparr>lr_readers := (lr_readers s)[i := R_leave c]\<rparr>"
| "read_step i (R_leave c) s = s\<lparr>counters := (counters s)(c := int32_of (counters s c - 1)), lr_readers := (lr_readers s)[i := R_idle]\<rparr>"

section \<open>Writing\<close>

text \<open>The end of a call of the function on the background instance, with the recovery when it throws.\<close>

definition callWriteFuncOnBackgroundInstance ::
  "('a, 'r) write_fun \<Rightarrow> bool \<Rightarrow> ('a, 'r) LeftRight \<Rightarrow> 'r result \<times> ('a, 'r) LeftRight" where
  "callWriteFuncOnBackgroundInstance f l s = (case f (lr_data s (\<not> l)) of
     (Inr r, x) \<Rightarrow> (Inr r, s\<lparr>lr_data := (lr_data s)(\<not> l := x)\<rparr>)
   | (Inl e, x) \<Rightarrow> (Inl e, s\<lparr>lr_data := (lr_data s)(\<not> l := lr_data s l)\<rparr>))"

definition waitForBackgroundCounterToBeZero :: "bool \<Rightarrow> ('a, 'r) LeftRight \<Rightarrow> bool" where
  "waitForBackgroundCounterToBeZero c s \<longleftrightarrow> counters s (\<not> c) = 0"

text \<open>\<open>None\<close>: the writer waits, or there is none.\<close>

fun write_step :: "('a, 'r) writer \<Rightarrow> ('a, 'r) LeftRight \<Rightarrow> ('a, 'r) LeftRight option" where
  "write_step W_idle s = None"
| "write_step (W_locked f g) s = Some (s\<lparr>lr_writer :=
     if inDestruction s then W_idle else W_first f g (foregroundDataIndex s)\<rparr>)"
| "write_step (W_first f g l) s = (case callWriteFuncOnBackgroundInstance f l s of
     (Inr r, t) \<Rightarrow> Some (t\<lparr>lr_writer := W_switch f g (\<not> l)\<rparr>)
   | (Inl e, t) \<Rightarrow> Some (t\<lparr>lr_writer := W_idle\<rparr>))"
| "write_step (W_switch f g l) s = Some (s\<lparr>foregroundDataIndex := l, lr_writer := W_load f g l\<rparr>)"
| "write_step (W_load f g l) s = Some (s\<lparr>lr_writer := W_wait_A f g l (foregroundCounterIndex s)\<rparr>)"
| "write_step (W_wait_A f g l c) s =
     (if waitForBackgroundCounterToBeZero c s then Some (s\<lparr>lr_writer := W_counter f g l (\<not> c)\<rparr>) else None)"
| "write_step (W_counter f g l c) s = Some (s\<lparr>foregroundCounterIndex := c, lr_writer := W_wait_B f g l c\<rparr>)"
| "write_step (W_wait_B f g l c) s =
     (if waitForBackgroundCounterToBeZero c s then Some (s\<lparr>lr_writer := W_second f g l\<rparr>) else None)"
| "write_step (W_second f g l) s = Some ((snd (callWriteFuncOnBackgroundInstance g l s))\<lparr>lr_writer := W_idle\<rparr>)"

section \<open>Destruction and interleaving\<close>

text \<open>The lock is free when there is no writer; taking and releasing it is one step.\<close>

fun destroy_step :: "destructor \<Rightarrow> ('a, 'r) LeftRight \<Rightarrow> ('a, 'r) LeftRight option" where
  "destroy_step D_none s = Some (s\<lparr>inDestruction := True, lr_destructor := D_lock\<rparr>)"
| "destroy_step D_lock s = (if lr_writer s = W_idle then Some (s\<lparr>lr_destructor := D_wait_0\<rparr>) else None)"
| "destroy_step D_wait_0 s = (if counters s False = 0 then Some (s\<lparr>lr_destructor := D_wait_1\<rparr>) else None)"
| "destroy_step D_wait_1 s = Some (s\<lparr>lr_destructor := if counters s True = 0 then D_over else D_wait_0\<rparr>)"
| "destroy_step D_over s = None"

text \<open>\<open>lock\<close>: a thread calls \<open>write\<close> with any function and gets the lock.\<close>

inductive lr_step :: "('a, 'r) LeftRight \<Rightarrow> ('a, 'r) LeftRight \<Rightarrow> bool" where
  reader: "i < length (lr_readers s) \<Longrightarrow> lr_step s (read_step i (lr_readers s ! i) s)"
| lock: "lr_writer s = W_idle \<Longrightarrow> lr_step s (s\<lparr>lr_writer := W_locked f g\<rparr>)"
| writer: "write_step (lr_writer s) s = Some t \<Longrightarrow> lr_step s t"
| destructor: "destroy_step (lr_destructor s) s = Some t \<Longrightarrow> lr_step s t"

section \<open>Invariant\<close>

text \<open>
  The two instances agree only if the second call of a function does what the first did, or throws. With \<open>rep\<close> the
  invariant is about runs whose writers are like that, without it about all runs.
\<close>

definition repeatable :: "('a, 'r) write_fun \<Rightarrow> ('a, 'r) write_fun \<Rightarrow> bool" where
  "repeatable f g \<longleftrightarrow> (\<forall>x. g x = f x \<or> (\<exists>e. fst (g x) = Inl e))"

definition writer_repeatable :: "('a, 'r) LeftRight \<Rightarrow> bool" where
  "writer_repeatable s \<longleftrightarrow> (\<forall>f g. lr_writer s = W_locked f g \<longrightarrow> repeatable f g)"

fun holds_counter :: "bool \<Rightarrow> 'a reader \<Rightarrow> bool" where
  "holds_counter c (R_counted k) = (k = c)"
| "holds_counter c (R_checked k) = (k = c)"
| "holds_counter c (R_reading k d v) = (k = c)"
| "holds_counter c (R_leave k) = (k = c)"
| "holds_counter c r = False"

fun reads_instance :: "bool \<Rightarrow> 'a reader \<Rightarrow> bool" where
  "reads_instance d (R_reading c k v) = (k = d)"
| "reads_instance d r = False"

text \<open>A reader that reads or will read.\<close>

fun admitted :: "'a reader \<Rightarrow> bool" where
  "admitted (R_checked c) = True"
| "admitted (R_reading c d v) = True"
| "admitted r = False"

fun value_fixed :: "(bool \<Rightarrow> 'a) \<Rightarrow> 'a reader \<Rightarrow> bool" where
  "value_fixed m (R_reading c d v) = (m d = v)"
| "value_fixed m r = True"

definition no_reader :: "bool \<Rightarrow> ('a, 'r) LeftRight \<Rightarrow> bool" where
  "no_reader d s \<longleftrightarrow> (\<forall>r \<in> set (lr_readers s). \<not> reads_instance d r)"

definition readers_hold :: "bool \<Rightarrow> bool \<Rightarrow> ('a, 'r) LeftRight \<Rightarrow> bool" where
  "readers_hold d c s \<longleftrightarrow> (\<forall>r \<in> set (lr_readers s). reads_instance d r \<longrightarrow> holds_counter c r)"

definition written :: "('a, 'r) write_fun \<Rightarrow> ('a, 'r) write_fun \<Rightarrow> bool \<Rightarrow> ('a, 'r) LeftRight \<Rightarrow> bool" where
  "written f g l s \<longleftrightarrow> repeatable f g \<and> (\<exists>r. f (lr_data s (\<not> l)) = (Inr r, lr_data s l))"

fun writer_inv :: "bool \<Rightarrow> ('a, 'r) writer \<Rightarrow> ('a, 'r) LeftRight \<Rightarrow> bool" where
  "writer_inv rep W_idle s = ((rep \<longrightarrow> lr_data s True = lr_data s False) \<and> no_reader (\<not> foregroundDataIndex s) s)"
| "writer_inv rep (W_locked f g) s = ((rep \<longrightarrow> lr_data s True = lr_data s False \<and> repeatable f g) \<and> no_reader (\<not> foregroundDataIndex s) s)"
| "writer_inv rep (W_first f g l) s = ((rep \<longrightarrow> lr_data s True = lr_data s False \<and> repeatable f g) \<and> no_reader (\<not> l) s \<and> foregroundDataIndex s = l)"
| "writer_inv rep (W_switch f g l) s = ((rep \<longrightarrow> written f g l s) \<and> no_reader l s \<and> foregroundDataIndex s = (\<not> l))"
| "writer_inv rep (W_load f g l) s = ((rep \<longrightarrow> written f g l s) \<and> foregroundDataIndex s = l)"
| "writer_inv rep (W_wait_A f g l c) s = ((rep \<longrightarrow> written f g l s) \<and> foregroundDataIndex s = l)"
| "writer_inv rep (W_counter f g l c) s = ((rep \<longrightarrow> written f g l s) \<and> foregroundDataIndex s = l \<and> readers_hold (\<not> l) (\<not> c) s)"
| "writer_inv rep (W_wait_B f g l c) s = ((rep \<longrightarrow> written f g l s) \<and> foregroundDataIndex s = l \<and> readers_hold (\<not> l) (\<not> c) s)"
| "writer_inv rep (W_second f g l) s = ((rep \<longrightarrow> written f g l s) \<and> foregroundDataIndex s = l \<and> no_reader (\<not> l) s)"

fun destructor_inv :: "destructor \<Rightarrow> ('a, 'r) LeftRight \<Rightarrow> bool" where
  "destructor_inv D_none s = True"
| "destructor_inv D_lock s = inDestruction s"
| "destructor_inv D_wait_0 s = (inDestruction s \<and> (lr_writer s = W_idle \<or> (\<exists>f g. lr_writer s = W_locked f g)))"
| "destructor_inv D_wait_1 s = (inDestruction s \<and> (lr_writer s = W_idle \<or> (\<exists>f g. lr_writer s = W_locked f g)) \<and>
     (\<forall>r \<in> set (lr_readers s). admitted r \<longrightarrow> holds_counter True r))"
| "destructor_inv D_over s = (inDestruction s \<and> (lr_writer s = W_idle \<or> (\<exists>f g. lr_writer s = W_locked f g)) \<and>
     (\<forall>r \<in> set (lr_readers s). \<not> admitted r))"

definition lr_inv :: "bool \<Rightarrow> ('a, 'r) LeftRight \<Rightarrow> bool" where
  "lr_inv rep s \<longleftrightarrow> length (lr_readers s) < 2 ^ 31 \<and> (\<forall>c. counters s c = int (length (filter (holds_counter c) (lr_readers s)))) \<and>
     (\<forall>r \<in> set (lr_readers s). value_fixed (lr_data s) r) \<and> writer_inv rep (lr_writer s) s \<and> destructor_inv (lr_destructor s) s"

lemma lr_inv_new: "n < 2 ^ 31 \<Longrightarrow> lr_inv rep (new_LeftRight x n)"
  by (simp add: lr_inv_def new_LeftRight_def no_reader_def)

lemma length_filter_update:
  assumes "i < length xs"
  shows "int (length (filter P (xs[i := x]))) = int (length (filter P xs)) + (if P x then 1 else 0) - (if P (xs ! i) then 1 else 0)"
  using assms
proof (induction xs arbitrary: i)
  case (Cons a xs)
  show ?case
  proof (cases i)
    case (Suc k)
    then show ?thesis using Cons.IH [of k] Cons.prems by (auto split: if_splits)
  qed simp
qed simp

text \<open>What a step of a reader does to the facts about all readers.\<close>

lemma ball_update: "i < length xs \<Longrightarrow> (\<forall>r \<in> set xs. P r) \<Longrightarrow> P x \<Longrightarrow> \<forall>r \<in> set (xs[i := x]). P r"
  by (metis insert_iff set_update_subset_insert subsetD)


lemma reader_update:
  assumes inv: "lr_inv rep s" and i: "i < length (lr_readers s)"
    and C: "\<And>c. C c = counters s c + (if holds_counter c x then 1 else 0) - (if holds_counter c (lr_readers s ! i) then 1 else 0)"
    and v: "value_fixed (lr_data s) x" and d: "\<And>d. reads_instance d x \<Longrightarrow> d = foregroundDataIndex s"
    and a: "admitted x \<Longrightarrow> \<not> inDestruction s \<or>
      admitted (lr_readers s ! i) \<and> (\<forall>c. holds_counter c (lr_readers s ! i) \<longrightarrow> holds_counter c x)"
  shows "lr_inv rep (s\<lparr>counters := C, lr_readers := (lr_readers s)[i := x]\<rparr>)"
proof -
  define t where "t = s\<lparr>counters := C, lr_readers := (lr_readers s)[i := x]\<rparr>"
  have fields: "lr_data t = lr_data s" "foregroundDataIndex t = foregroundDataIndex s" "inDestruction t = inDestruction s"
    "lr_writer t = lr_writer s" "lr_destructor t = lr_destructor s" "counters t = C" "lr_readers t = (lr_readers s)[i := x]"
    by (simp_all add: t_def)
  note upd = ball_update [OF i]
  have none: "no_reader k t" if "no_reader k s" "k \<noteq> foregroundDataIndex s" for k
    unfolding no_reader_def fields 
    by (rule upd) (use that(1) no_reader_def in blast, use d that(2) in blast)
  have hold: "readers_hold k c t" if "readers_hold k c s" "k \<noteq> foregroundDataIndex s" for k c
    unfolding readers_hold_def fields
    by (rule upd) (use that(1) readers_hold_def in blast, use d that(2) in blast)
  have "writer_inv rep w s \<Longrightarrow> writer_inv rep w t" for w
    by (cases w) (simp_all add: written_def fields none hold)
  moreover have "destructor_inv D s \<Longrightarrow> destructor_inv D t" for D
  proof (cases D)
    case D_wait_1
    assume "destructor_inv D s"
    then show ?thesis
      using D_wait_1 a i fields upd [of "\<lambda>r. admitted r \<longrightarrow> holds_counter True r" x] by auto
  next
    case D_over
    assume "destructor_inv D s"
    then show ?thesis using D_over a i fields upd [of "\<lambda>r. \<not> admitted r" x] by auto
  qed (simp_all add: fields)
  ultimately show ?thesis
    using inv C upd [of "value_fixed (lr_data s)" x] v length_filter_update [OF i] unfolding t_def [symmetric] lr_inv_def fields by simp
qed

lemma counter_exact:
  assumes inv: "lr_inv rep s" and i: "i < length (lr_readers s)"
  shows "\<not> holds_counter c (lr_readers s ! i) \<Longrightarrow> int32_of (counters s c + 1) = counters s c + 1"
    "holds_counter c (lr_readers s ! i) \<Longrightarrow> int32_of (counters s c - 1) = counters s c - 1"
proof -
  have n: "length (lr_readers s) < 2 ^ 31" and c: "counters s c = int (length (filter (holds_counter c) (lr_readers s)))"
    using inv by (simp_all add: lr_inv_def)
  have le: "length (filter (holds_counter c) (lr_readers s)) \<le> length (lr_readers s)" by simp
  {
    assume "\<not> holds_counter c (lr_readers s ! i)"
    then have "length (filter (holds_counter c) (lr_readers s)) < length (lr_readers s)"
      using i by (intro length_filter_less) auto
    then show "int32_of (counters s c + 1) = counters s c + 1" using n c by (intro int32_of_id) auto
  next
    assume "holds_counter c (lr_readers s ! i)"
    then show "int32_of (counters s c - 1) = counters s c - 1"
      using c le_less_trans [OF le n] by (intro int32_of_id) auto
  }
qed

lemma reader_inv:
  assumes inv: "lr_inv rep s" and i: "i < length (lr_readers s)"
  shows "lr_inv rep (read_step i (lr_readers s ! i) s)"
proof (cases "lr_readers s ! i")
  case R_idle
  then show ?thesis using reader_update [OF inv i, of "counters s" "R_index (foregroundCounterIndex s)"] by simp
next
  case (R_index c)
  then show ?thesis using reader_update [OF inv i, of "(counters s)(c := counters s c + 1)" "R_counted c"]
      counter_exact [OF inv i, of c] by simp
next
  case (R_counted c)
  then show ?thesis
    using reader_update [OF inv i, of "counters s" "if inDestruction s then R_leave c else R_checked c"]
    by (cases "inDestruction s") simp_all
next
  case (R_checked c)
  then show ?thesis
    using reader_update [OF inv i, of "counters s" "R_reading c (foregroundDataIndex s) (lr_data s (foregroundDataIndex s))"]
    by simp
next
  case (R_reading c d v)
  then show ?thesis using reader_update [OF inv i, of "counters s" "R_leave c"] by simp
next
  case (R_leave c)
  then show ?thesis using reader_update [OF inv i, of "(counters s)(c := counters s c - 1)" R_idle]
      counter_exact [OF inv i, of c] by simp
qed

text \<open>The writer.\<close>

lemma counter_zero: "lr_inv rep s \<Longrightarrow> counters s c = 0 \<Longrightarrow> r \<in> set (lr_readers s) \<Longrightarrow> \<not> holds_counter c r"
  unfolding lr_inv_def by (metis filter_empty_conv length_0_conv of_nat_eq_0_iff)

lemma reads_holds: "reads_instance d r \<Longrightarrow> holds_counter c r \<or> holds_counter (\<not> c) r"
  by (cases r) auto

lemma wait_A_holds:
  assumes "lr_inv rep s" "waitForBackgroundCounterToBeZero c s"
  shows "readers_hold d c s"
  unfolding readers_hold_def
  using counter_zero [OF assms(1), of "\<not> c"] assms(2) reads_holds by (fastforce simp: waitForBackgroundCounterToBeZero_def)

lemma wait_B_none:
  assumes "lr_inv rep s" "waitForBackgroundCounterToBeZero c s" "readers_hold d (\<not> c) s"
  shows "no_reader d s"
  unfolding no_reader_def
  using counter_zero [OF assms(1), of "\<not> c"] assms(2,3) by (auto simp: waitForBackgroundCounterToBeZero_def readers_hold_def)

lemma value_fixed_update: "\<not> reads_instance d r \<Longrightarrow> value_fixed m r \<Longrightarrow> value_fixed (m(d := x)) r"
  by (cases r) auto

lemma call_inv:
  assumes "no_reader (\<not> l) s" "callWriteFuncOnBackgroundInstance f l s = (r, t)" "\<forall>r \<in> set (lr_readers s). value_fixed (lr_data s) r"
  shows "\<exists>x. t = s\<lparr>lr_data := (lr_data s)(\<not> l := x)\<rparr> \<and> (\<forall>r \<in> set (lr_readers s). value_fixed (lr_data t) r) \<and>
    (case r of Inl e \<Rightarrow> x = lr_data s l | Inr y \<Rightarrow> f (lr_data s (\<not> l)) = (Inr y, x))"
proof -
  have "\<exists>x. t = s\<lparr>lr_data := (lr_data s)(\<not> l := x)\<rparr> \<and>
      (case r of Inl e \<Rightarrow> x = lr_data s l | Inr y \<Rightarrow> f (lr_data s (\<not> l)) = (Inr y, x))"
    using assms(2) by (auto simp: callWriteFuncOnBackgroundInstance_def split: prod.splits sum.splits)
  then show ?thesis using assms(1,3) value_fixed_update by (fastforce simp: no_reader_def)
qed


text \<open>What the other facts of the invariant need when the writer moves on.\<close>

lemma writer_update:
  assumes inv: "lr_inv rep s" and t: "counters t = counters s" "lr_readers t = lr_readers s" "inDestruction t = inDestruction s"
      "lr_destructor t = lr_destructor s"
    and v: "\<forall>r \<in> set (lr_readers s). value_fixed (lr_data t) r" and w: "writer_inv rep (lr_writer t) t"
    and d: "inDestruction s \<Longrightarrow> lr_writer s = W_idle \<or> (\<exists>f g. lr_writer s = W_locked f g) \<Longrightarrow>
      lr_writer t = W_idle \<or> (\<exists>f g. lr_writer t = W_locked f g)"
  shows "lr_inv rep t"
proof -
  have "destructor_inv (lr_destructor s) t" using inv t d by (cases "lr_destructor s") (auto simp: lr_inv_def)
  then show ?thesis using inv t v w by (simp add: lr_inv_def)
qed

lemma no_reader_cong: "lr_readers t = lr_readers s \<Longrightarrow> no_reader d t = no_reader d s"
  by (simp add: no_reader_def)

lemma write_first_inv:
  assumes inv: "lr_inv rep s" and w: "lr_writer s = W_first f g l" and t: "write_step (lr_writer s) s = Some t"
  shows "lr_inv rep t"
proof -
  have wi: "rep \<Longrightarrow> lr_data s True = lr_data s False" "no_reader (\<not> l) s" "rep \<Longrightarrow> repeatable f g" "foregroundDataIndex s = l"
    and v: "\<forall>r \<in> set (lr_readers s). value_fixed (lr_data s) r"
    using inv w by (simp_all add: lr_inv_def)
  obtain r u where u: "callWriteFuncOnBackgroundInstance f l s = (r, u)" by fastforce
  from call_inv [OF wi(2) u v] obtain x where x: "u = s\<lparr>lr_data := (lr_data s)(\<not> l := x)\<rparr>"
    and vu: "\<forall>r \<in> set (lr_readers s). value_fixed (lr_data u) r"
    and res: "case r of Inl e \<Rightarrow> x = lr_data s l | Inr y \<Rightarrow> f (lr_data s (\<not> l)) = (Inr y, x)" by blast
  have eq: "rep \<Longrightarrow> lr_data s l = lr_data s (\<not> l)" using wi(1) by (cases l) simp_all
  have "writer_inv rep (lr_writer t) t"
  proof (cases r)
    case (Inl e)
    then have "t = u\<lparr>lr_writer := W_idle\<rparr>" using t w u by simp
    then show ?thesis using Inl x res wi eq by (cases l) (simp_all add: no_reader_def)
  next
    case (Inr y)
    then have "t = u\<lparr>lr_writer := W_switch f g (\<not> l)\<rparr>" using t w u by simp
    then show ?thesis using Inr x res wi eq by (cases l) (auto simp: no_reader_def written_def)
  qed
  moreover have "counters t = counters s" "lr_readers t = lr_readers s" "inDestruction t = inDestruction s"
    "lr_destructor t = lr_destructor s" "lr_data t = lr_data u"
    using t w u x by (auto split: sum.splits)
  ultimately show ?thesis using vu w by (intro writer_update [OF inv]) simp_all
qed

lemma write_second_inv:
  assumes inv: "lr_inv rep s" and w: "lr_writer s = W_second f g l" and t: "write_step (lr_writer s) s = Some t"
  shows "lr_inv rep t"
proof -
  have wi: "rep \<Longrightarrow> written f g l s" "no_reader (\<not> l) s" "foregroundDataIndex s = l"
    and v: "\<forall>r \<in> set (lr_readers s). value_fixed (lr_data s) r"
    using inv w by (simp_all add: lr_inv_def)
  obtain r u where u: "callWriteFuncOnBackgroundInstance g l s = (r, u)" by fastforce
  from call_inv [OF wi(2) u v] obtain x where x: "u = s\<lparr>lr_data := (lr_data s)(\<not> l := x)\<rparr>"
    and vu: "\<forall>r \<in> set (lr_readers s). value_fixed (lr_data u) r"
    and res: "case r of Inl e \<Rightarrow> x = lr_data s l | Inr y \<Rightarrow> g (lr_data s (\<not> l)) = (Inr y, x)" by blast
  have "x = lr_data s l" if rep
  proof (cases r)
    case (Inr y)
    then have gx: "g (lr_data s (\<not> l)) = (Inr y, x)" using res by simp
    moreover have "g (lr_data s (\<not> l)) = f (lr_data s (\<not> l)) \<or> (\<exists>e. fst (g (lr_data s (\<not> l))) = Inl e)"
      using wi(1) [OF that] unfolding written_def repeatable_def by blast
    ultimately show ?thesis using wi(1) [OF that] unfolding written_def by auto
  qed (use res in simp)
  moreover have tu: "t = u\<lparr>lr_writer := W_idle\<rparr>" using t w u by simp
  ultimately have "writer_inv rep (lr_writer t) t" using x wi by (cases l) (simp_all add: no_reader_def)
  then show ?thesis using vu w tu x by (intro writer_update [OF inv]) simp_all
qed

lemma write_inv:
  assumes inv: "lr_inv rep s" and t: "write_step (lr_writer s) s = Some t"
  shows "lr_inv rep t"
proof -
  have wi: "writer_inv rep (lr_writer s) s" "\<forall>r \<in> set (lr_readers s). value_fixed (lr_data s) r" using inv by (simp_all add: lr_inv_def)
  note intros = writer_update [OF inv, of t]
  show ?thesis
  proof (cases "lr_writer s")
    case W_first
    then show ?thesis using write_first_inv inv t by blast
  next
    case W_second
    then show ?thesis using write_second_inv inv t by blast
  next
    case (W_wait_A f g l c)
    then show ?thesis using t wi wait_A_holds [OF inv, of c "\<not> l"]
      by (intro intros) (auto simp: readers_hold_def written_def split: if_splits)
  next
    case (W_wait_B f g l c)
    then show ?thesis using t wi wait_B_none [OF inv, of c "\<not> l"]
      by (intro intros) (auto simp: no_reader_def written_def split: if_splits)
  next
    case (W_locked f g)
    then show ?thesis using t wi by (intro intros) (auto simp: no_reader_def)
  next
    case (W_switch f g l)
    then show ?thesis using t wi by (intro intros) (auto simp: written_def)
  next
    case (W_load f g l)
    then show ?thesis using t wi by (intro intros) (auto simp: written_def)
  next
    case (W_counter f g l c)
    then show ?thesis using t wi by (intro intros) (auto simp: written_def readers_hold_def)
  qed (use t in simp)
qed


lemma destroy_inv:
  assumes inv: "lr_inv rep s" and t: "destroy_step (lr_destructor s) s = Some t"
  shows "lr_inv rep t"
proof -
  have same: "writer_inv rep w t = writer_inv rep w s" for w
    using t by (cases "lr_destructor s"; cases w) (auto simp: no_reader_def readers_hold_def written_def split: if_splits)
  have gone: "\<not> holds_counter c r" if "counters s c = 0" "r \<in> set (lr_readers s)" for c r
    using counter_zero [OF inv that] .
  have adm: "admitted r \<Longrightarrow> \<not> holds_counter False r \<Longrightarrow> holds_counter True r" for r :: "'a reader" by (cases r) auto
  have di: "destructor_inv (lr_destructor s) s" using inv by (simp add: lr_inv_def)
  have "destructor_inv (lr_destructor t) t"
  proof (cases "lr_destructor s")
    case D_wait_0
    then have c: "counters s False = 0" and t': "t = s\<lparr>lr_destructor := D_wait_1\<rparr>" using t by (simp_all split: if_splits)
    have "\<forall>r \<in> set (lr_readers s). admitted r \<longrightarrow> holds_counter True r" using gone [OF c] adm by blast
    then show ?thesis using di t' D_wait_0 by simp
  next
    case D_wait_1
    show ?thesis
    proof (cases "counters s True = 0")
      case True
      have "\<forall>r \<in> set (lr_readers s). \<not> admitted r" using gone [OF True] di D_wait_1 by auto
      then show ?thesis using di t D_wait_1 True by auto
    qed (use di t D_wait_1 in auto)
  qed (use di t in \<open>auto split: if_splits\<close>)
  moreover have "lr_readers t = lr_readers s" "lr_data t = lr_data s" "counters t = counters s" "lr_writer t = lr_writer s"
    using t by (cases "lr_destructor s"; auto split: if_splits)+
  ultimately show ?thesis using inv same by (simp add: lr_inv_def)
qed

lemma lr_step_inv: "lr_step s t \<Longrightarrow> rep \<longrightarrow> writer_repeatable t \<Longrightarrow> lr_inv rep s \<Longrightarrow> lr_inv rep t"
proof (induction rule: lr_step.induct)
  case (lock s f g)
  then have w: "writer_inv rep W_idle s" "\<forall>r \<in> set (lr_readers s). value_fixed (lr_data s) r" by (simp_all add: lr_inv_def)
  show ?case
    by (rule writer_update [OF lock(3)]) (use w lock(2) in \<open>simp_all add: no_reader_def writer_repeatable_def\<close>)
qed (auto intro: reader_inv write_inv destroy_inv)

text \<open>Runs with \<open>n\<close> threads that read.\<close>

definition lr_runs :: "bool \<Rightarrow> 'a \<Rightarrow> nat \<Rightarrow> ('a, 'r) LeftRight \<Rightarrow> bool" where
  "lr_runs rep x n s \<longleftrightarrow> (\<lambda>s t. lr_step s t \<and> (rep \<longrightarrow> writer_repeatable t))\<^sup>*\<^sup>* (new_LeftRight x n) s"

lemma lr_runs_inv: "lr_runs rep x n s \<Longrightarrow> n < 2 ^ 31 \<Longrightarrow> lr_inv rep s"
  unfolding lr_runs_def by (induction rule: rtranclp_induct) (auto intro: lr_step_inv lr_inv_new)

lemma lr_runs_any: "lr_runs rep x n s \<Longrightarrow> lr_runs False x n s"
  unfolding lr_runs_def by (rule rtranclp_mono [THEN predicate2D, rotated]) auto

section \<open>Properties\<close>

text \<open>The instance that a call of the function of the writer may be changing.\<close>

fun writes_instance :: "bool \<Rightarrow> ('a, 'r) writer \<Rightarrow> bool" where
  "writes_instance d (W_first f g l) = (d = (\<not> l))"
| "writes_instance d (W_second f g l) = (d = (\<not> l))"
| "writes_instance d w = False"

text \<open>The current value is that of the instance in the foreground.\<close>

definition lr_abs :: "('a, 'r) LeftRight \<Rightarrow> 'a" where
  "lr_abs s = lr_data s (foregroundDataIndex s)"

text \<open>A run: a reader is reading, and a writer adds one in the background.\<close>

lemma lr_runs_step: "lr_runs rep x n s \<Longrightarrow> lr_step s t \<Longrightarrow> rep \<longrightarrow> writer_repeatable t \<Longrightarrow> lr_runs rep x n t"
  unfolding lr_runs_def by (rule rtranclp.rtrancl_into_rtrancl) simp_all

definition increment :: "(nat, unit) write_fun" where
  "increment x = (Inr (), x + 1)"

definition sample_lr :: "nat \<Rightarrow> (nat, unit) writer \<Rightarrow> (nat, unit) LeftRight" where
  "sample_lr y w = (new_LeftRight 0 1)\<lparr>counters := (\<lambda>_. 0)(False := 1), lr_data := (\<lambda>_. 0)(True := y),
     lr_readers := [R_reading False False 0], lr_writer := w\<rparr>"

lemma sample_lr_writer [simp]: "lr_writer (sample_lr y w) = w"
  by (simp add: sample_lr_def)

lemma sample_lr_reading: "lr_runs True 0 1 (sample_lr 0 W_idle)"
proof -
  let ?s = "\<lambda>C r. (new_LeftRight 0 1)\<lparr>counters := C, lr_readers := [r]\<rparr> :: (nat, unit) LeftRight"
  have "lr_runs True 0 1 (?s (\<lambda>_. 0) R_idle)" by (simp add: lr_runs_def new_LeftRight_def)
  from lr_runs_step [OF this lr_step.reader [of 0]] have "lr_runs True 0 1 (?s (\<lambda>_. 0) (R_index False))"
    by (simp add: new_LeftRight_def writer_repeatable_def)
  from lr_runs_step [OF this lr_step.reader [of 0]] have "lr_runs True 0 1 (?s ((\<lambda>_. 0)(False := 1)) (R_counted False))"
    by (simp add: new_LeftRight_def writer_repeatable_def int32_of_id)
  from lr_runs_step [OF this lr_step.reader [of 0]] have "lr_runs True 0 1 (?s ((\<lambda>_. 0)(False := 1)) (R_checked False))"
    by (simp add: new_LeftRight_def writer_repeatable_def)
  from lr_runs_step [OF this lr_step.reader [of 0]] show ?thesis
    by (simp add: sample_lr_def new_LeftRight_def fun_upd_def writer_repeatable_def)
qed

lemma sample_lr_writing: "lr_runs True 0 1 (sample_lr 0 (W_first increment increment False))"
    "lr_runs True 0 1 (sample_lr 1 (W_switch increment increment True))"
proof -
  have "lr_runs True 0 1 (sample_lr 0 (W_locked increment increment))"
    using lr_runs_step [OF sample_lr_reading lr_step.lock [of _ increment increment]]
    by (simp add: sample_lr_def repeatable_def writer_repeatable_def)
  from lr_runs_step [OF this lr_step.writer] show first: "lr_runs True 0 1 (sample_lr 0 (W_first increment increment False))"
    by (simp add: sample_lr_def new_LeftRight_def writer_repeatable_def)
  have "write_step (lr_writer (sample_lr 0 (W_first increment increment False))) (sample_lr 0 (W_first increment increment False))
      = Some (sample_lr 1 (W_switch increment increment True))"
    by (simp add: sample_lr_def callWriteFuncOnBackgroundInstance_def increment_def)
  from lr_runs_step [OF first lr_step.writer [OF this]] show "lr_runs True 0 1 (sample_lr 1 (W_switch increment increment True))"
    by (simp add: writer_repeatable_def)
qed

text \<open>
  Property C6. However the threads interleave, with fewer than \<open>2\<^sup>31\<close> threads that read and whatever functions the
  writers pass, no reader uses an instance while the function of a writer runs on it, each reader sees the value its
  instance had when it chose it until it is through, and when the destructor is through no reader uses an instance or
  will, and no writer writes. If in each write so far the second call of the function did to the same value what the
  first would, or threw (\<open>rep\<close>), the two instances agree when there is no writer.
\<close>

theorem left_right_safe:
  assumes "lr_runs rep x n s" and "n < 2 ^ 31"
  shows "(writes_instance d (lr_writer s) \<longrightarrow> no_reader d s) \<and> list_all (value_fixed (lr_data s)) (lr_readers s) \<and>
    (lr_destructor s = D_over \<longrightarrow> \<not> list_ex admitted (lr_readers s) \<and> \<not> writes_instance d (lr_writer s)) \<and>
    (rep \<and> lr_writer s = W_idle \<longrightarrow> lr_data s True = lr_data s False)"
proof -
  have inv: "lr_inv rep s" using assms by (rule lr_runs_inv)
  have "writes_instance d (lr_writer s) \<longrightarrow> no_reader d s" using inv by (cases "lr_writer s") (auto simp: lr_inv_def)
  moreover have "lr_destructor s = D_over \<longrightarrow> \<not> list_ex admitted (lr_readers s) \<and> \<not> writes_instance d (lr_writer s)"
    using inv by (auto simp: lr_inv_def list_ex_iff)
  moreover have "rep \<and> lr_writer s = W_idle \<longrightarrow> lr_data s True = lr_data s False" using inv by (auto simp: lr_inv_def)
  ultimately show ?thesis using inv by (simp add: lr_inv_def list_all_iff)
qed

theorem left_right_safe_witness: "no_reader True (sample_lr 0 (W_first increment increment False))"
  using left_right_safe [OF sample_lr_writing(1), of True] by (simp add: sample_lr_def)

text \<open>
  Property C7. If in each write so far the second call of the function did to the same value what the first would, or
  threw, a write takes effect at one step, the one that switches the data index: there the current value becomes what
  the function makes of it, and no other step of any thread changes the current value.
\<close>

theorem left_right_atomic:
  assumes "lr_runs True x n s" and "n < 2 ^ 31" and "lr_step s t"
  shows "if \<exists>f g l. lr_writer s = W_switch f g l \<and> lr_writer t = W_load f g l
    then \<exists>f g l r. lr_writer s = W_switch f g l \<and> f (lr_abs s) = (Inr r, lr_abs t) else lr_abs t = lr_abs s"
  using assms(3)
proof (cases rule: lr_step.cases)
  case (reader i)
  then show ?thesis by (cases "lr_readers s ! i") (auto simp: lr_abs_def)
next
  case (lock f g)
  then show ?thesis by (simp add: lr_abs_def)
next
  case writer
  have wi: "writer_inv True (lr_writer s) s" using lr_runs_inv [OF assms(1,2)] by (simp add: lr_inv_def)
  show ?thesis
  proof (cases "lr_writer s")
    case (W_switch f g l)
    then show ?thesis using wi writer by (auto simp: lr_abs_def written_def)
  next
    case (W_first f g l)
    then show ?thesis using wi writer by (auto simp: lr_abs_def callWriteFuncOnBackgroundInstance_def split: prod.splits sum.splits)
  next
    case (W_second f g l)
    then show ?thesis using wi writer by (auto simp: lr_abs_def callWriteFuncOnBackgroundInstance_def split: prod.splits sum.splits)
  qed (use writer in \<open>auto simp: lr_abs_def split: if_splits\<close>)
next
  case destructor
  then show ?thesis by (cases "lr_destructor s") (auto simp: lr_abs_def split: if_splits)
qed

theorem left_right_atomic_witness:
  "lr_abs (sample_lr 1 (W_switch increment increment True)) = 0 \<and>
   lr_abs ((sample_lr 1 (W_switch increment increment True))\<lparr>foregroundDataIndex := True, lr_writer := W_load increment increment True\<rparr>) = 1"
proof -
  let ?s = "sample_lr 1 (W_switch increment increment True)"
  let ?t = "?s\<lparr>foregroundDataIndex := True, lr_writer := W_load increment increment True\<rparr>"
  have "write_step (lr_writer ?s) ?s = Some ?t" by simp
  from left_right_atomic [OF sample_lr_writing(2) _ lr_step.writer [OF this]]
  have "increment (lr_abs ?s) = (Inr (), lr_abs ?t)" by (auto split: if_splits)
  moreover have "lr_abs ?s = 0" by (simp add: lr_abs_def sample_lr_def new_LeftRight_def)
  ultimately show ?thesis by (simp add: increment_def)
qed

section \<open>Progress\<close>

fun reader_weight :: "'a reader \<Rightarrow> nat" where
  "reader_weight R_idle = 0"
| "reader_weight (R_index c) = 5"
| "reader_weight (R_counted c) = 4"
| "reader_weight (R_checked c) = 3"
| "reader_weight (R_reading c d v) = 2"
| "reader_weight (R_leave c) = 1"

fun writer_weight :: "('a, 'r) writer \<Rightarrow> nat" where
  "writer_weight W_idle = 0"
| "writer_weight (W_locked f g) = 8"
| "writer_weight (W_first f g l) = 7"
| "writer_weight (W_switch f g l) = 6"
| "writer_weight (W_load f g l) = 5"
| "writer_weight (W_wait_A f g l c) = 4"
| "writer_weight (W_counter f g l c) = 3"
| "writer_weight (W_wait_B f g l c) = 2"
| "writer_weight (W_second f g l) = 1"

lemma sum_list_update_less:
  fixes h :: "'a \<Rightarrow> nat"
  shows "i < length xs \<Longrightarrow> h x < h (xs ! i) \<Longrightarrow> sum_list (map h (xs[i := x])) < sum_list (map h xs)"
proof (induction xs arbitrary: i)
  case (Cons a xs)
  then show ?case by (cases i) simp_all
qed simp

lemma readers_leave:
  "\<exists>t. lr_step\<^sup>*\<^sup>* s t \<and> lr_writer t = lr_writer s \<and> (\<forall>r \<in> set (lr_readers t). r = R_idle)"
proof (induction "sum_list (map reader_weight (lr_readers s))" arbitrary: s rule: less_induct)
  case less
  show ?case
  proof (cases "\<exists>i < length (lr_readers s). lr_readers s ! i \<noteq> R_idle")
    case False
    then show ?thesis by (metis in_set_conv_nth rtranclp.rtrancl_refl)
  next
    case True
    then obtain i where i: "i < length (lr_readers s)" "lr_readers s ! i \<noteq> R_idle" by blast
    let ?t = "read_step i (lr_readers s ! i) s"
    have "lr_step s ?t" using i(1) by (rule lr_step.reader)
    moreover have "sum_list (map reader_weight (lr_readers ?t)) < sum_list (map reader_weight (lr_readers s))"
      using i by (cases "lr_readers s ! i") (auto intro!: sum_list_update_less)
    moreover have "lr_writer ?t = lr_writer s" by (cases "lr_readers s ! i") simp_all
    ultimately show ?thesis using less [of ?t] by (metis converse_rtranclp_into_rtranclp)
  qed
qed

lemma writer_ends:
  assumes "lr_inv False s" "\<forall>r \<in> set (lr_readers s). r = R_idle"
  shows "\<exists>t. lr_step\<^sup>*\<^sup>* s t \<and> lr_writer t = W_idle"
  using assms
proof (induction "writer_weight (lr_writer s)" arbitrary: s rule: less_induct)
  case less
  show ?case
  proof (cases "lr_writer s = W_idle")
    case False
    have "filter (holds_counter c) (lr_readers s) = []" for c using less.prems(2) by (auto simp: filter_empty_conv)
    then have zero: "counters s c = 0" for c using less.prems(1) by (simp add: lr_inv_def)
    obtain t where t: "write_step (lr_writer s) s = Some t" "writer_weight (lr_writer t) < writer_weight (lr_writer s)"
      "lr_readers t = lr_readers s"
    proof (cases "lr_writer s")
      case (W_first f g l)
      obtain r u where u: "callWriteFuncOnBackgroundInstance f l s = (r, u)" by fastforce
      then have "lr_readers u = lr_readers s"
        by (auto simp: callWriteFuncOnBackgroundInstance_def split: prod.splits sum.splits)
      then show ?thesis using that W_first u by (cases r) auto
    next
      case (W_second f g l)
      then show ?thesis
        using that by (auto simp: callWriteFuncOnBackgroundInstance_def split: prod.splits sum.splits)
    qed (use False zero that in \<open>auto simp: waitForBackgroundCounterToBeZero_def\<close>)
    then have "lr_step s t" by (intro lr_step.writer)
    then show ?thesis
      using less.hyps [OF t(2)] lr_step_inv [OF _ _ less.prems(1)] t(3) less.prems(2) by (metis converse_rtranclp_into_rtranclp)
  qed blast
qed

lemma lr_runs_all: "lr_runs False x n s \<longleftrightarrow> lr_step\<^sup>*\<^sup>* (new_LeftRight x n) s"
  by (simp add: lr_runs_def)

text \<open>
  Property C19. A write cannot be blocked for good: with fewer than \<open>2\<^sup>31\<close> threads that read, and whatever
  functions the writers pass, from every state of a run the readers that have started can finish, and then the writer can.
\<close>

theorem left_right_write_ends:
  assumes "lr_runs rep x n s" and "n < 2 ^ 31"
  shows "\<exists>t. lr_runs False x n t \<and> lr_step\<^sup>*\<^sup>* s t \<and> lr_writer t = W_idle"
proof -
  have s: "lr_step\<^sup>*\<^sup>* (new_LeftRight x n) s" using lr_runs_any [OF assms(1)] by (simp add: lr_runs_all)
  obtain t where t: "lr_step\<^sup>*\<^sup>* s t" "\<forall>r \<in> set (lr_readers t). r = R_idle" using readers_leave by blast
  then have "lr_runs False x n t" using s unfolding lr_runs_all by simp
  then obtain u where "lr_step\<^sup>*\<^sup>* t u" "lr_writer u = W_idle" using writer_ends [OF lr_runs_inv t(2)] assms(2) by blast
  then show ?thesis using t(1) s unfolding lr_runs_all by (meson rtranclp_trans)
qed

theorem left_right_write_ends_witness:
  "\<exists>t. lr_step\<^sup>*\<^sup>* (sample_lr 0 (W_first increment increment False)) t \<and> lr_writer t = W_idle"
  using left_right_write_ends [OF sample_lr_writing(1)] by auto

end
