(* ===== verification/Intrusive_Ptr.thy ===== *)
theory Intrusive_Ptr
  imports State_Exn "HOL-Library.Word" "HOL-Library.Multiset"
begin

text \<open>
  Reference-counted objects (c10/util/intrusive_ptr.h), as one thread uses them. The heap maps the address of a target to
  its two counters; \<open>delete\<close> removes it, and an access to an address that is not in the heap is undefined behaviour. A
  pointer variable is the address in \<open>target_\<close>, \<open>None\<close> for \<open>NullType::singleton()\<close>. \<open>release_resources\<close> is a virtual function;
  \<open>released\<close> counts its calls on each address, also beyond the life of the target.
\<close>

section \<open>Targets\<close>

record intrusive_ptr_target =
  refcount :: nat
  weakcount :: nat

record target_heap =
  targets :: "nat \<rightharpoonup> intrusive_ptr_target"
  next_target :: nat
  released :: "nat \<Rightarrow> nat"

type_synonym 'a heapm = "(target_heap, 'a) mon"

type_synonym ptr = "nat option"

definition new_target :: intrusive_ptr_target where
  "new_target = \<lparr>refcount = 0, weakcount = 0\<rparr>"

definition target_of :: "nat \<Rightarrow> intrusive_ptr_target heapm" where
  "target_of a = bindm (gets targets) (\<lambda>m. case m a of None \<Rightarrow> throw UndefinedBehaviour | Some t \<Rightarrow> ret t)"

definition put_target :: "nat \<Rightarrow> intrusive_ptr_target option \<Rightarrow> unit heapm" where
  "put_target a t = modify (\<lambda>s. s\<lparr>targets := (targets s)(a := t)\<rparr>)"

text \<open>The operators \<open>++\<close> and \<open>--\<close> on the counters, which return the new value.\<close>

definition add_refcount :: "(nat \<Rightarrow> nat) \<Rightarrow> nat \<Rightarrow> nat heapm" where
  "add_refcount f a = bindm (target_of a) (\<lambda>t. let n = f (refcount t) in seqm (put_target a (Some (t\<lparr>refcount := n\<rparr>))) (ret n))"

definition add_weakcount :: "(nat \<Rightarrow> nat) \<Rightarrow> nat \<Rightarrow> nat heapm" where
  "add_weakcount f a = bindm (target_of a) (\<lambda>t. let n = f (weakcount t) in seqm (put_target a (Some (t\<lparr>weakcount := n\<rparr>))) (ret n))"

definition inc :: "nat \<Rightarrow> nat" where
  "inc n = add64 n 1"

definition dec :: "nat \<Rightarrow> nat" where
  "dec n = sub64 n 1"

definition release_resources :: "nat \<Rightarrow> unit heapm" where
  "release_resources a = bindm (target_of a) (\<lambda>_. modify (\<lambda>s. s\<lparr>released := (released s)(a := released s a + 1)\<rparr>))"

text \<open>The destructor of the target checks that nobody refers to it; the exception would leave a destructor.\<close>

definition delete_target :: "nat \<Rightarrow> unit heapm" where
  "delete_target a = noexcept (bindm (target_of a) (\<lambda>t. seqm (assertm (refcount t = 0))
     (seqm (assertm (weakcount t = 0)) (put_target a None))))"

section \<open>Strong pointers\<close>

fun ptr_retain :: "ptr \<Rightarrow> unit heapm" where
  "ptr_retain None = ret ()"
| "ptr_retain (Some a) = bindm (add_refcount inc a) (\<lambda>n. assertm (n \<noteq> 1))"

text \<open>\<open>ptr_reset\<close> leaves the variable null.\<close>

fun ptr_reset :: "ptr \<Rightarrow> unit heapm" where
  "ptr_reset None = ret ()"
| "ptr_reset (Some a) = noexcept (bindm (add_refcount dec a) (\<lambda>n. if n = 0
     then bindm (add_weakcount dec a) (\<lambda>weak_count. seqm (release_resources a)
       (if weak_count = 0 then delete_target a else ret ()))
     else ret ()))"

text \<open>Construction by copy, and by move, which returns both variables; assignment with the old value of the variable.\<close>

definition copy_intrusive_ptr :: "ptr \<Rightarrow> ptr heapm" where
  "copy_intrusive_ptr rhs = seqm (ptr_retain rhs) (ret rhs)"

definition move_intrusive_ptr :: "ptr \<Rightarrow> (ptr \<times> ptr) heapm" where
  "move_intrusive_ptr rhs = ret (rhs, None)"

definition copy_assign :: "ptr \<Rightarrow> ptr \<Rightarrow> ptr heapm" where
  "copy_assign lhs rhs = noexcept (bindm (copy_intrusive_ptr rhs) (\<lambda>tmp. seqm (ptr_reset lhs) (ret tmp)))"

definition move_assign :: "ptr \<Rightarrow> ptr \<Rightarrow> (ptr \<times> ptr) heapm" where
  "move_assign lhs rhs = bindm (move_intrusive_ptr rhs) (\<lambda>(tmp, rhs'). seqm (ptr_reset lhs) (ret (tmp, rhs')))"

definition ptr_swap :: "ptr \<Rightarrow> ptr \<Rightarrow> (ptr \<times> ptr) heapm" where
  "ptr_swap lhs rhs = ret (rhs, lhs)"

definition use_count :: "ptr \<Rightarrow> nat heapm" where
  "use_count p = (case p of None \<Rightarrow> ret 0 | Some a \<Rightarrow> bindm (target_of a) (\<lambda>t. ret (refcount t)))"

definition weak_use_count :: "ptr \<Rightarrow> nat heapm" where
  "weak_use_count p = (case p of None \<Rightarrow> ret 0 | Some a \<Rightarrow> bindm (target_of a) (\<lambda>t. ret (weakcount t)))"

definition ptr_unique :: "ptr \<Rightarrow> bool heapm" where
  "ptr_unique p = bindm (use_count p) (\<lambda>n. ret (n = 1))"

definition ptr_release :: "ptr \<Rightarrow> (ptr \<times> ptr) heapm" where
  "ptr_release p = ret (p, None)"

definition ptr_reclaim :: "ptr \<Rightarrow> ptr heapm" where
  "ptr_reclaim owning_ptr = (case owning_ptr of None \<Rightarrow> ret None
     | Some a \<Rightarrow> bindm (target_of a) (\<lambda>t. seqm (assertm (0 < refcount t)) (ret (Some a))))"

definition make_intrusive :: "ptr heapm" where
  "make_intrusive = bindm (gets next_target) (\<lambda>a.
     seqm (modify (\<lambda>s. s\<lparr>targets := (targets s)(a \<mapsto> new_target), next_target := a + 1\<rparr>))
     (seqm (add_refcount inc a) (seqm (add_weakcount inc a) (ret (Some a)))))"

definition unsafe_reclaim_from_nonowning :: "ptr \<Rightarrow> ptr heapm" where
  "unsafe_reclaim_from_nonowning raw = bindm (ptr_reclaim raw) (\<lambda>p. seqm (ptr_retain p) (ret p))"

section \<open>Weak pointers\<close>

fun weak_retain :: "ptr \<Rightarrow> unit heapm" where
  "weak_retain None = ret ()"
| "weak_retain (Some a) = bindm (add_weakcount inc a) (\<lambda>n. assertm (n \<noteq> 1))"

fun weak_reset :: "ptr \<Rightarrow> unit heapm" where
  "weak_reset None = ret ()"
| "weak_reset (Some a) = noexcept (bindm (add_weakcount dec a) (\<lambda>n. if n = 0 then delete_target a else ret ()))"

definition weak_intrusive_ptr_of :: "ptr \<Rightarrow> ptr heapm" where
  "weak_intrusive_ptr_of p = seqm (weak_retain p) (ret p)"

definition copy_weak_intrusive_ptr :: "ptr \<Rightarrow> ptr heapm" where
  "copy_weak_intrusive_ptr rhs = seqm (weak_retain rhs) (ret rhs)"

definition weak_copy_assign :: "ptr \<Rightarrow> ptr \<Rightarrow> ptr heapm" where
  "weak_copy_assign lhs rhs = noexcept (bindm (copy_weak_intrusive_ptr rhs) (\<lambda>tmp. seqm (weak_reset lhs) (ret tmp)))"

definition weak_move_assign :: "ptr \<Rightarrow> ptr \<Rightarrow> (ptr \<times> ptr) heapm" where
  "weak_move_assign lhs rhs = bindm (move_intrusive_ptr rhs) (\<lambda>(tmp, rhs'). seqm (weak_reset lhs) (ret (tmp, rhs')))"

definition weak_expired :: "ptr \<Rightarrow> bool heapm" where
  "weak_expired p = bindm (use_count p) (\<lambda>n. ret (n = 0))"

text \<open>\<open>lock\<close> does not test for the null pointer; with one thread the exchange succeeds.\<close>

fun weak_lock :: "ptr \<Rightarrow> ptr heapm" where
  "weak_lock None = throw UndefinedBehaviour"
| "weak_lock (Some a) = bindm (target_of a) (\<lambda>t. if refcount t = 0 then ret None
     else seqm (put_target a (Some (t\<lparr>refcount := inc (refcount t)\<rparr>))) (ret (Some a)))"

definition weak_reclaim :: "ptr \<Rightarrow> ptr heapm" where
  "weak_reclaim owning_weak_ptr = (case owning_weak_ptr of None \<Rightarrow> ret None
     | Some a \<Rightarrow> bindm (target_of a) (\<lambda>t.
         seqm (assertm (1 < weakcount t \<or> refcount t = 0 \<and> 0 < weakcount t)) (ret (Some a))))"

section \<open>Raw pointers\<close>

definition raw_incref :: "nat \<Rightarrow> unit heapm" where
  "raw_incref self = bindm (ptr_reclaim (Some self)) (\<lambda>p. bindm (copy_intrusive_ptr p) (\<lambda>ptr_copy.
     seqm (ptr_release ptr_copy) (seqm (ptr_release p) (ret ()))))"

definition raw_decref :: "nat \<Rightarrow> unit heapm" where
  "raw_decref self = bindm (ptr_reclaim (Some self)) ptr_reset"

definition raw_make_weak :: "nat \<Rightarrow> ptr heapm" where
  "raw_make_weak self = bindm (ptr_reclaim (Some self)) (\<lambda>p. bindm (weak_intrusive_ptr_of p) (\<lambda>wptr.
     seqm (ptr_release p) (bindm (ptr_release wptr) (\<lambda>(r, _). ret r))))"

definition raw_use_count :: "nat \<Rightarrow> 32 word heapm" where
  "raw_use_count self = bindm (ptr_reclaim (Some self)) (\<lambda>p. bindm (use_count p) (\<lambda>r.
     seqm (ptr_release p) (ret (of_nat r))))"

definition raw_weak_incref :: "nat \<Rightarrow> unit heapm" where
  "raw_weak_incref self = bindm (weak_reclaim (Some self)) (\<lambda>w. bindm (copy_weak_intrusive_ptr w) (\<lambda>wptr_copy.
     seqm (ptr_release wptr_copy) (seqm (ptr_release w) (ret ()))))"

definition raw_weak_decref :: "nat \<Rightarrow> unit heapm" where
  "raw_weak_decref self = bindm (weak_reclaim (Some self)) weak_reset"

definition raw_weak_lock :: "nat \<Rightarrow> ptr heapm" where
  "raw_weak_lock self = bindm (weak_reclaim (Some self)) (\<lambda>w. bindm (weak_lock w) (\<lambda>p.
     seqm (ptr_release w) (bindm (ptr_release p) (\<lambda>(r, _). ret r))))"

definition raw_weak_use_count :: "nat \<Rightarrow> 32 word heapm" where
  "raw_weak_use_count self = bindm (weak_reclaim (Some self)) (\<lambda>w. bindm (use_count w) (\<lambda>r.
     seqm (ptr_release w) (ret (of_nat r))))"

section \<open>The counters\<close>

text \<open>
  \<open>S\<close> and \<open>W\<close> are the strong and the weak references, one entry for each variable or raw pointer that owns one. This is
  the scheme of the note in the header file.
\<close>

definition target_ok :: "nat \<Rightarrow> nat \<Rightarrow> intrusive_ptr_target option \<Rightarrow> bool" where
  "target_ok s w t \<longleftrightarrow> (case t of None \<Rightarrow> s = 0 \<and> w = 0
     | Some t \<Rightarrow> refcount t = s \<and> weakcount t = w + (if 0 < s then 1 else 0) \<and> 0 < weakcount t)"

definition heap_inv :: "nat multiset \<Rightarrow> nat multiset \<Rightarrow> target_heap \<Rightarrow> bool" where
  "heap_inv S W s \<longleftrightarrow> (\<forall>a. target_ok (count S a) (count W a) (targets s a)) \<and> (\<forall>a \<ge> next_target s. targets s a = None) \<and>
     (\<forall>a. released s a = (if a < next_target s \<and> count S a = 0 then 1 else 0))"

declare count_greater_zero_iff [simp del] count_greater_eq_Suc_zero_iff [simp del]

lemma target_ok_live: "target_ok s w t \<Longrightarrow> t \<noteq> None \<longleftrightarrow> 0 < s + w"
  by (auto simp: target_ok_def split: option.splits if_splits)

lemma heap_inv_at: "heap_inv S W s \<Longrightarrow> target_ok (count S a) (count W a) (targets s a)"
  by (simp add: heap_inv_def)

lemma heap_inv_live:
  assumes "heap_inv S W s"
  shows "targets s a \<noteq> None \<longleftrightarrow> a \<in># S + W"
  unfolding target_ok_live [OF heap_inv_at [OF assms, of a]] by (metis count_greater_zero_iff count_union)

lemma heap_inv_obtain:
  assumes "heap_inv S W s" "a \<in># S + W"
  obtains t where "targets s a = Some t" "refcount t = count S a"
    "weakcount t = count W a + (if 0 < count S a then 1 else 0)" "0 < weakcount t"
    "a < next_target s" "released s a = (if 0 < count S a then 0 else 1)"
proof -
  obtain t where t: "targets s a = Some t" using assms heap_inv_live by blast
  then have n: "a < next_target s" using assms(1) unfolding heap_inv_def by (metis leI option.distinct(1))
  moreover have "released s a = (if 0 < count S a then 0 else 1)" using assms(1) n unfolding heap_inv_def by simp
  moreover have "target_ok (count S a) (count W a) (Some t)" using heap_inv_at [OF assms(1), of a] t by simp
  ultimately show thesis unfolding target_ok_def option.case using that [OF t] by blast
qed

lemma heap_inv_update:
  assumes "heap_inv S W s" "a < next_target s" "target_ok (count S' a) (count W' a) t"
    and "\<And>b. b \<noteq> a \<Longrightarrow> count S' b = count S b" "\<And>b. b \<noteq> a \<Longrightarrow> count W' b = count W b"
    and "count S' a = 0 \<longleftrightarrow> count S a = 0"
  shows "heap_inv S' W' (s\<lparr>targets := (targets s)(a := t)\<rparr>)"
proof -
  have "count S' b = 0 \<longleftrightarrow> count S b = 0" for b using assms(4,6) by (cases "b = a") simp_all
  then show ?thesis using assms(1-5) by (auto simp: heap_inv_def)
qed

text \<open>The last strong reference goes, and the resources with it.\<close>

lemma heap_inv_released:
  assumes "heap_inv S W s" "a < next_target s" "target_ok (count S' a) (count W' a) t"
    and "\<And>b. b \<noteq> a \<Longrightarrow> count S' b = count S b" "\<And>b. b \<noteq> a \<Longrightarrow> count W' b = count W b"
    and "count S' a = 0" "0 < count S a"
  shows "heap_inv S' W' (s\<lparr>targets := (targets s)(a := t), released := (released s)(a := 1)\<rparr>)"
  using assms by (auto simp: heap_inv_def)

text \<open>There are fewer references than the counters can hold.\<close>

definition references_bounded :: "nat multiset \<Rightarrow> nat multiset \<Rightarrow> bool" where
  "references_bounded S W \<longleftrightarrow> size S + size W + 2 < 2 ^ 64"

lemma count_size: "count M a \<le> size M"
  by (metis count_le_replicate_mset_subset_eq le_refl size_mset_mono size_replicate_mset)

lemma counters_bounded:
  assumes "references_bounded S W"
  shows "count S a + count W a + 2 < 2 ^ 64"
  using assms count_size [of S a] count_size [of W a] unfolding references_bounded_def by linarith

lemma target_runs [simp]:
  assumes "targets s a = Some t"
  shows "target_of a s = (Inr t, s)"
    and "add_refcount f a s = (Inr (f (refcount t)), s\<lparr>targets := (targets s)(a \<mapsto> t\<lparr>refcount := f (refcount t)\<rparr>)\<rparr>)"
    and "add_weakcount f a s = (Inr (f (weakcount t)), s\<lparr>targets := (targets s)(a \<mapsto> t\<lparr>weakcount := f (weakcount t)\<rparr>)\<rparr>)"
    and "release_resources a s = (Inr (), s\<lparr>released := (released s)(a := released s a + 1)\<rparr>)"
  using assms
  by (simp_all add: target_of_def add_refcount_def add_weakcount_def release_resources_def put_target_def bindm_def seqm_def Let_def)

lemma delete_target_run:
  assumes "targets s a = Some t" "refcount t = 0" "weakcount t = 0"
  shows "delete_target a s = (Inr (), s\<lparr>targets := (targets s)(a := None)\<rparr>)"
proof -
  have "target_of a s = (Inr t, s)" using assms(1) by simp
  then show ?thesis using assms(2,3) by (simp add: delete_target_def put_target_def noexcept_def bindm_def seqm_def)
qed

lemma inc_dec [simp]: "n + 1 < 2 ^ 64 \<Longrightarrow> inc n = n + 1" "0 < n \<Longrightarrow> n < 2 ^ 64 \<Longrightarrow> dec n = n - 1"
  by (simp_all add: inc_def dec_def)

section \<open>Each operation\<close>

lemma ptr_retain_ok:
  assumes inv: "heap_inv S W s" "references_bounded S W" and a: "a \<in># S"
  shows "\<exists>s'. ptr_retain (Some a) s = (Inr (), s') \<and> heap_inv (add_mset a S) W s' \<and> next_target s' = next_target s"
proof -
  obtain t where t: "targets s a = Some t" "refcount t = count S a"
    "weakcount t = count W a + (if 0 < count S a then 1 else 0)" "0 < weakcount t"
    "a < next_target s" "released s a = (if 0 < count S a then 0 else 1)"
    using heap_inv_obtain [OF inv(1), of a] a by auto
  have c: "0 < count S a" "inc (count S a) = count S a + 1"
    using a counters_bounded [OF inv(2), of a] by (simp_all add: count_greater_zero_iff)
  let ?t = "t\<lparr>refcount := count S a + 1\<rparr>"
  have "ptr_retain (Some a) s = (Inr (), s\<lparr>targets := (targets s)(a \<mapsto> ?t)\<rparr>)"
    using t(1,2) c by (simp add: bindm_def)
  moreover have "heap_inv (add_mset a S) W (s\<lparr>targets := (targets s)(a \<mapsto> ?t)\<rparr>)"
    by (rule heap_inv_update [OF inv(1) t(5)]) (use t c in \<open>simp_all add: target_ok_def\<close>)
  ultimately show ?thesis by simp
qed

lemma weak_retain_ok:
  assumes inv: "heap_inv S W s" "references_bounded S W" and a: "a \<in># S + W"
  shows "\<exists>s'. weak_retain (Some a) s = (Inr (), s') \<and> heap_inv S (add_mset a W) s' \<and> next_target s' = next_target s"
proof -
  obtain t where t: "targets s a = Some t" "refcount t = count S a"
    "weakcount t = count W a + (if 0 < count S a then 1 else 0)" "0 < weakcount t"
    "a < next_target s" "released s a = (if 0 < count S a then 0 else 1)"
    by (rule heap_inv_obtain [OF inv(1) a])
  have c: "inc (weakcount t) = weakcount t + 1" using t(3) counters_bounded [OF inv(2), of a] by simp
  let ?t = "t\<lparr>weakcount := weakcount t + 1\<rparr>"
  have "weak_retain (Some a) s = (Inr (), s\<lparr>targets := (targets s)(a \<mapsto> ?t)\<rparr>)"
    using t(1,4) c by (simp add: bindm_def)
  moreover have "heap_inv S (add_mset a W) (s\<lparr>targets := (targets s)(a \<mapsto> ?t)\<rparr>)"
    by (rule heap_inv_update [OF inv(1) t(5)]) (use t in \<open>simp_all add: target_ok_def\<close>)
  ultimately show ?thesis by simp
qed

lemma weak_reset_ok:
  assumes inv: "heap_inv S W s" "references_bounded S W" and a: "a \<in># W"
  shows "\<exists>s'. weak_reset (Some a) s = (Inr (), s') \<and> heap_inv S (W - {#a#}) s' \<and> next_target s' = next_target s"
proof -
  obtain t where t: "targets s a = Some t" "refcount t = count S a"
    "weakcount t = count W a + (if 0 < count S a then 1 else 0)" "0 < weakcount t"
    "a < next_target s" "released s a = (if 0 < count S a then 0 else 1)"
    using heap_inv_obtain [OF inv(1), of a] a by auto
  have c: "dec (weakcount t) = weakcount t - 1" using t(3,4) counters_bounded [OF inv(2), of a] by simp
  have W: "0 < count W a" using a by (simp add: count_greater_zero_iff)
  let ?t = "t\<lparr>weakcount := weakcount t - 1\<rparr>"
  let ?s = "s\<lparr>targets := (targets s)(a \<mapsto> ?t)\<rparr>"
  have run: "add_weakcount dec a s = (Inr (weakcount t - 1), ?s)" using t(1) c by simp
  show ?thesis
  proof (cases "weakcount t = 1")
    case False
    then have "weak_reset (Some a) s = (Inr (), ?s)" using run t(4) by (simp add: noexcept_def bindm_def)
    moreover have "heap_inv S (W - {#a#}) ?s"
      by (rule heap_inv_update [OF inv(1) t(5)]) (use t False W in \<open>auto simp: target_ok_def\<close>)
    ultimately show ?thesis by simp
  next
    case True
    then have S: "count S a = 0" "count W a = 1" using t(3) W by (simp_all split: if_splits)
    have "delete_target a ?s = (Inr (), ?s\<lparr>targets := (targets ?s)(a := None)\<rparr>)"
      by (rule delete_target_run [of _ _ ?t]) (use t S True in simp_all)
    then have "weak_reset (Some a) s = (Inr (), s\<lparr>targets := (targets s)(a := None)\<rparr>)"
      using run True by (simp add: noexcept_def bindm_def)
    moreover have "heap_inv S (W - {#a#}) (s\<lparr>targets := (targets s)(a := None)\<rparr>)"
      by (rule heap_inv_update [OF inv(1) t(5)]) (use S in \<open>simp_all add: target_ok_def\<close>)
    ultimately show ?thesis by simp
  qed
qed

lemma ptr_reset_ok:
  assumes inv: "heap_inv S W s" "references_bounded S W" and a: "a \<in># S"
  shows "\<exists>s'. ptr_reset (Some a) s = (Inr (), s') \<and> heap_inv (S - {#a#}) W s' \<and> next_target s' = next_target s"
proof -
  obtain t where t: "targets s a = Some t" "refcount t = count S a"
    "weakcount t = count W a + (if 0 < count S a then 1 else 0)" "0 < weakcount t"
    "a < next_target s" "released s a = (if 0 < count S a then 0 else 1)"
    using heap_inv_obtain [OF inv(1), of a] a by auto
  have S: "0 < count S a" using a by (simp add: count_greater_zero_iff)
  have c: "dec (refcount t) = count S a - 1" "dec (weakcount t) = count W a"
    using t(2-4) S counters_bounded [OF inv(2), of a] by simp_all
  let ?s = "s\<lparr>targets := (targets s)(a \<mapsto> t\<lparr>refcount := count S a - 1\<rparr>)\<rparr>"
  have run: "add_refcount dec a s = (Inr (count S a - 1), ?s)" using t(1) c by simp
  show ?thesis
  proof (cases "count S a = 1")
    case False
    then have "count S a - 1 \<noteq> 0" using S by linarith
    then have "ptr_reset (Some a) s = (Inr (), ?s)" unfolding ptr_reset.simps noexcept_def bindm_def run by simp
    moreover have "heap_inv (S - {#a#}) W ?s"
      by (rule heap_inv_update [OF inv(1) t(5)]) (use t S False in \<open>auto simp: target_ok_def\<close>)
    ultimately show ?thesis by simp
  next
    case True
    let ?t = "t\<lparr>refcount := 0, weakcount := count W a\<rparr>"
    let ?v = "s\<lparr>targets := (targets s)(a \<mapsto> ?t)\<rparr>" and ?f = "(released s)(a := 1)"
    let ?u = "?v\<lparr>released := ?f\<rparr>"
    have weak: "add_weakcount dec a ?s = (Inr (count W a), ?v)" using c True by simp
    have rel: "release_resources a ?v = (Inr (), ?u)" using t(6) S by simp
    show ?thesis
    proof (cases "count W a = 0")
      case True': True
      have "delete_target a ?u = (Inr (), ?u\<lparr>targets := (targets ?u)(a := None)\<rparr>)"
        by (rule delete_target_run [of _ _ ?t]) (use True' in simp_all)
      then have "ptr_reset (Some a) s = (Inr (), s\<lparr>targets := (targets s)(a := None), released := ?f\<rparr>)"
        using run weak rel True True' by (simp add: noexcept_def bindm_def seqm_def)
      moreover have "heap_inv (S - {#a#}) W (s\<lparr>targets := (targets s)(a := None), released := ?f\<rparr>)"
        by (rule heap_inv_released [OF inv(1) t(5)]) (use True True' in \<open>simp_all add: target_ok_def\<close>)
      ultimately show ?thesis by simp
    next
      case False
      then have "ptr_reset (Some a) s = (Inr (), ?u)"
        using run weak rel True by (simp add: noexcept_def bindm_def seqm_def)
      moreover have "heap_inv (S - {#a#}) W ?u"
        using heap_inv_released [OF inv(1) t(5), of "S - {#a#}" W "Some ?t"] True False by (simp add: target_ok_def)
      ultimately show ?thesis by simp
    qed
  qed
qed


lemma weak_lock_ok:
  assumes inv: "heap_inv S W s" "references_bounded S W" and a: "a \<in># W"
  shows "\<exists>s'. weak_lock (Some a) s = (Inr (if a \<in># S then Some a else None), s') \<and>
    heap_inv (if a \<in># S then add_mset a S else S) W s' \<and> next_target s' = next_target s"
proof -
  obtain t where t: "targets s a = Some t" "refcount t = count S a"
    "weakcount t = count W a + (if 0 < count S a then 1 else 0)" "0 < weakcount t"
    "a < next_target s" "released s a = (if 0 < count S a then 0 else 1)"
    using heap_inv_obtain [OF inv(1), of a] a by auto
  show ?thesis
  proof (cases "a \<in># S")
    case True
    then have c: "0 < count S a" "inc (count S a) = count S a + 1"
      using counters_bounded [OF inv(2), of a] by (simp_all add: count_greater_zero_iff)
    let ?s = "s\<lparr>targets := (targets s)(a \<mapsto> t\<lparr>refcount := count S a + 1\<rparr>)\<rparr>"
    have "weak_lock (Some a) s = (Inr (Some a), ?s)" using t(1,2) c by (simp add: bindm_def seqm_def put_target_def)
    moreover have "heap_inv (add_mset a S) W ?s"
      by (rule heap_inv_update [OF inv(1) t(5)]) (use t c in \<open>simp_all add: target_ok_def\<close>)
    ultimately show ?thesis using True by simp
  next
    case False
    then have "refcount t = 0" using t(2) by (simp add: not_in_iff)
    then show ?thesis using t(1) inv(1) False by (simp add: bindm_def)
  qed
qed

lemma make_intrusive_ok:
  assumes inv: "heap_inv S W s"
  shows "\<exists>s'. make_intrusive s = (Inr (Some (next_target s)), s') \<and> heap_inv (add_mset (next_target s) S) W s' \<and>
    next_target s' = next_target s + 1"
proof -
  let ?a = "next_target s" and ?t = "\<lparr>refcount = 1, weakcount = 1\<rparr>"
  let ?s = "s\<lparr>targets := (targets s)(?a \<mapsto> ?t), next_target := ?a + 1\<rparr>"
  have none: "targets s ?a = None" using inv by (simp add: heap_inv_def)
  then have c: "count S ?a = 0" "count W ?a = 0" using heap_inv_at [OF inv, of ?a] by (simp_all add: target_ok_def)
  have "make_intrusive s = (Inr (Some ?a), ?s)"
    by (simp add: make_intrusive_def bindm_def seqm_def new_target_def)
  moreover have "heap_inv (add_mset ?a S) W ?s" using inv c by (auto simp: heap_inv_def target_ok_def)
  ultimately show ?thesis by simp
qed

lemma ptr_reclaim_ok: "heap_inv S W s \<Longrightarrow> a \<in># S \<Longrightarrow> ptr_reclaim (Some a) s = (Inr (Some a), s)"
proof -
  assume inv: "heap_inv S W s" and a: "a \<in># S"
  obtain t where t: "targets s a = Some t" "refcount t = count S a" using heap_inv_obtain [OF inv, of a] a by (metis union_iff)
  moreover have "0 < count S a" using a by (simp add: count_greater_zero_iff)
  ultimately show ?thesis by (simp add: ptr_reclaim_def bindm_def seqm_def)
qed

lemma weak_reclaim_ok:
  assumes inv: "heap_inv S W s" and a: "a \<in># W"
  shows "weak_reclaim (Some a) s = (Inr (Some a), s)"
proof -
  obtain t where t: "targets s a = Some t" "refcount t = count S a" "weakcount t = count W a + (if 0 < count S a then 1 else 0)"
    using heap_inv_obtain [OF inv, of a] a by (metis union_iff)
  have "0 < count W a" using a by (simp add: count_greater_zero_iff)
  then have "1 < weakcount t \<or> refcount t = 0 \<and> 0 < weakcount t" using t(2,3) by auto
  then show ?thesis using t(1) by (simp add: weak_reclaim_def bindm_def seqm_def)
qed

section \<open>Programs over references\<close>

text \<open>
  The operations a program applies to the references it owns, named by the address they point to, and what each does to
  the references owned. \<open>None\<close>: the program does not own what it uses.
\<close>

datatype ptr_op = Make | Copy nat | CopyAssign ptr ptr | MoveAssign ptr ptr | Drop nat | FromNonowning nat
  | Weaken nat | WeakCopy nat | WeakAssign ptr ptr | WeakDrop nat | Lock nat
  | RawIncref nat | RawDecref nat | RawMakeWeak nat | RawWeakIncref nat | RawWeakDecref nat | RawLock nat

fun run_op :: "ptr_op \<Rightarrow> unit heapm" where
  "run_op Make = seqm make_intrusive (ret ())"
| "run_op (Copy a) = seqm (copy_intrusive_ptr (Some a)) (ret ())"
| "run_op (CopyAssign p q) = seqm (copy_assign p q) (ret ())"
| "run_op (MoveAssign p q) = seqm (move_assign p q) (ret ())"
| "run_op (Drop a) = ptr_reset (Some a)"
| "run_op (FromNonowning a) = seqm (unsafe_reclaim_from_nonowning (Some a)) (ret ())"
| "run_op (Weaken a) = seqm (weak_intrusive_ptr_of (Some a)) (ret ())"
| "run_op (WeakCopy a) = seqm (copy_weak_intrusive_ptr (Some a)) (ret ())"
| "run_op (WeakAssign p q) = seqm (weak_copy_assign p q) (ret ())"
| "run_op (WeakDrop a) = weak_reset (Some a)"
| "run_op (Lock a) = seqm (weak_lock (Some a)) (ret ())"
| "run_op (RawIncref a) = raw_incref a"
| "run_op (RawDecref a) = raw_decref a"
| "run_op (RawMakeWeak a) = seqm (raw_make_weak a) (ret ())"
| "run_op (RawWeakIncref a) = raw_weak_incref a"
| "run_op (RawWeakDecref a) = raw_weak_decref a"
| "run_op (RawLock a) = seqm (raw_weak_lock a) (ret ())"

fun refs :: "ptr \<Rightarrow> nat multiset" where
  "refs None = {#}"
| "refs (Some a) = {#a#}"

type_synonym owned = "nat \<times> nat multiset \<times> nat multiset"

definition lock_owned :: "nat \<Rightarrow> owned \<Rightarrow> owned option" where
  "lock_owned a st = (case st of (n, S, W) \<Rightarrow> if a \<in># W then Some (n, if a \<in># S then add_mset a S else S, W) else None)"

fun spec_op :: "ptr_op \<Rightarrow> owned \<Rightarrow> owned option" where
  "spec_op Make (n, S, W) = Some (n + 1, add_mset n S, W)"
| "spec_op (Copy a) (n, S, W) = (if a \<in># S then Some (n, add_mset a S, W) else None)"
| "spec_op (CopyAssign p q) (n, S, W) = (if refs p \<subseteq># S \<and> refs q \<subseteq># S then Some (n, S + refs q - refs p, W) else None)"
| "spec_op (MoveAssign p q) (n, S, W) = (if refs p + refs q \<subseteq># S then Some (n, S - refs p, W) else None)"
| "spec_op (Drop a) (n, S, W) = (if a \<in># S then Some (n, S - {#a#}, W) else None)"
| "spec_op (FromNonowning a) (n, S, W) = (if a \<in># S then Some (n, add_mset a S, W) else None)"
| "spec_op (Weaken a) (n, S, W) = (if a \<in># S then Some (n, S, add_mset a W) else None)"
| "spec_op (WeakCopy a) (n, S, W) = (if a \<in># W then Some (n, S, add_mset a W) else None)"
| "spec_op (WeakAssign p q) (n, S, W) = (if refs p \<subseteq># W \<and> refs q \<subseteq># W then Some (n, S, W + refs q - refs p) else None)"
| "spec_op (WeakDrop a) (n, S, W) = (if a \<in># W then Some (n, S, W - {#a#}) else None)"
| "spec_op (Lock a) st = lock_owned a st"
| "spec_op (RawIncref a) (n, S, W) = (if a \<in># S then Some (n, add_mset a S, W) else None)"
| "spec_op (RawDecref a) (n, S, W) = (if a \<in># S then Some (n, S - {#a#}, W) else None)"
| "spec_op (RawMakeWeak a) (n, S, W) = (if a \<in># S then Some (n, S, add_mset a W) else None)"
| "spec_op (RawWeakIncref a) (n, S, W) = (if a \<in># W then Some (n, S, add_mset a W) else None)"
| "spec_op (RawWeakDecref a) (n, S, W) = (if a \<in># W then Some (n, S, W - {#a#}) else None)"
| "spec_op (RawLock a) st = lock_owned a st"

definition owns :: "owned \<Rightarrow> target_heap \<Rightarrow> bool" where
  "owns st s \<longleftrightarrow> (case st of (n, S, W) \<Rightarrow> heap_inv S W s \<and> next_target s = n)"


lemma copy_ok:
  assumes "heap_inv S W s" "references_bounded S W" "refs q \<subseteq># S"
  shows "\<exists>s'. copy_intrusive_ptr q s = (Inr q, s') \<and> heap_inv (S + refs q) W s' \<and> next_target s' = next_target s"
proof (cases q)
  case (Some a)
  then show ?thesis using ptr_retain_ok [OF assms(1,2), of a] assms(3) by (auto simp: copy_intrusive_ptr_def seqm_def bindm_def)
qed (use assms(1) in \<open>simp add: copy_intrusive_ptr_def seqm_def bindm_def\<close>)

lemma weak_copy_ok:
  assumes "heap_inv S W s" "references_bounded S W" "refs q \<subseteq># S + W"
  shows "\<exists>s'. weak_intrusive_ptr_of q s = (Inr q, s') \<and> copy_weak_intrusive_ptr q s = (Inr q, s') \<and>
    heap_inv S (W + refs q) s' \<and> next_target s' = next_target s"
proof (cases q)
  case (Some a)
  then show ?thesis using weak_retain_ok [OF assms(1,2), of a] assms(3)
    by (auto simp: weak_intrusive_ptr_of_def copy_weak_intrusive_ptr_def seqm_def bindm_def)
qed (use assms(1) in \<open>simp add: weak_intrusive_ptr_of_def copy_weak_intrusive_ptr_def seqm_def bindm_def\<close>)

lemma reset_ok:
  assumes "heap_inv S W s" "references_bounded S W" "refs p \<subseteq># S"
  shows "\<exists>s'. ptr_reset p s = (Inr (), s') \<and> heap_inv (S - refs p) W s' \<and> next_target s' = next_target s"
proof (cases p)
  case (Some a)
  then show ?thesis using ptr_reset_ok [OF assms(1,2), of a] assms(3) by simp
qed (use assms(1) in simp)

lemma weak_drop_ok:
  assumes "heap_inv S W s" "references_bounded S W" "refs p \<subseteq># W"
  shows "\<exists>s'. weak_reset p s = (Inr (), s') \<and> heap_inv S (W - refs p) s' \<and> next_target s' = next_target s"
proof (cases p)
  case (Some a)
  then show ?thesis using weak_reset_ok [OF assms(1,2), of a] assms(3) by simp
qed (use assms(1) in simp)

lemma size_refs: "size (refs q) \<le> 1"
  by (cases q) simp_all

lemma copy_assign_ok:
  assumes inv: "heap_inv S W s" and b: "size S + size W + 3 < 2 ^ 64" and p: "refs p \<subseteq># S" "refs q \<subseteq># S"
  shows "\<exists>s'. copy_assign p q s = (Inr q, s') \<and> heap_inv (S + refs q - refs p) W s' \<and> next_target s' = next_target s"
proof -
  have b': "references_bounded S W" "references_bounded (S + refs q) W"
    using b size_refs [of q] by (simp_all add: references_bounded_def)
  obtain s1 where s1: "copy_intrusive_ptr q s = (Inr q, s1)" "heap_inv (S + refs q) W s1" "next_target s1 = next_target s"
    using copy_ok [OF inv b'(1) p(2)] by blast
  moreover obtain s2 where "ptr_reset p s1 = (Inr (), s2)" "heap_inv (S + refs q - refs p) W s2" "next_target s2 = next_target s1"
    using reset_ok [OF s1(2) b'(2), of p] p(1) by (metis subset_mset.add_increasing2 subset_mset.zero_le)
  ultimately show ?thesis by (simp add: copy_assign_def noexcept_def bindm_def seqm_def)
qed

lemma weak_assign_ok:
  assumes inv: "heap_inv S W s" and b: "size S + size W + 3 < 2 ^ 64" and p: "refs p \<subseteq># W" "refs q \<subseteq># W"
  shows "\<exists>s'. weak_copy_assign p q s = (Inr q, s') \<and> heap_inv S (W + refs q - refs p) s' \<and> next_target s' = next_target s"
proof -
  have b': "references_bounded S W" "references_bounded S (W + refs q)"
    using b size_refs [of q] by (simp_all add: references_bounded_def)
  obtain s1 where s1: "copy_weak_intrusive_ptr q s = (Inr q, s1)" "heap_inv S (W + refs q) s1" "next_target s1 = next_target s"
    using weak_copy_ok [OF inv b'(1), of q] p(2) by (metis subset_mset.add_increasing subset_mset.zero_le)
  moreover obtain s2 where "weak_reset p s1 = (Inr (), s2)" "heap_inv S (W + refs q - refs p) s2" "next_target s2 = next_target s1"
    using weak_drop_ok [OF s1(2) b'(2), of p] p(1) by (metis subset_mset.add_increasing2 subset_mset.zero_le)
  ultimately show ?thesis by (simp add: weak_copy_assign_def noexcept_def bindm_def seqm_def)
qed

lemma move_assign_ok:
  assumes inv: "heap_inv S W s" and b: "references_bounded S W" and p: "refs p + refs q \<subseteq># S"
  shows "\<exists>s'. move_assign p q s = (Inr (q, None), s') \<and> heap_inv (S - refs p) W s' \<and> next_target s' = next_target s"
proof -
  have "refs p \<subseteq># S" using p by (metis mset_subset_eq_add_left subset_mset.order_trans)
  then obtain s' where "ptr_reset p s = (Inr (), s')" "heap_inv (S - refs p) W s'" "next_target s' = next_target s"
    using reset_ok [OF inv b] by blast
  then show ?thesis by (simp add: move_assign_def move_intrusive_ptr_def bindm_def seqm_def)
qed


lemma raw_ok:
  assumes inv: "heap_inv S W s" and b: "references_bounded S W"
  shows "a \<in># S \<Longrightarrow> \<exists>s'. raw_incref a s = (Inr (), s') \<and> owns (next_target s, add_mset a S, W) s'"
    and "a \<in># S \<Longrightarrow> \<exists>s'. raw_decref a s = (Inr (), s') \<and> owns (next_target s, S - {#a#}, W) s'"
    and "a \<in># S \<Longrightarrow> \<exists>s'. raw_make_weak a s = (Inr (Some a), s') \<and> heap_inv S (add_mset a W) s' \<and> next_target s' = next_target s"
    and "a \<in># W \<Longrightarrow> \<exists>s'. raw_weak_incref a s = (Inr (), s') \<and> owns (next_target s, S, add_mset a W) s'"
    and "a \<in># W \<Longrightarrow> \<exists>s'. raw_weak_decref a s = (Inr (), s') \<and> owns (next_target s, S, W - {#a#}) s'"
proof -
  show "\<exists>s'. raw_incref a s = (Inr (), s') \<and> owns (next_target s, add_mset a S, W) s'" if "a \<in># S"
    using copy_ok [OF inv b, of "Some a"] ptr_reclaim_ok [OF inv that] that
    by (auto simp: raw_incref_def ptr_release_def bindm_def seqm_def owns_def)
  show "\<exists>s'. raw_decref a s = (Inr (), s') \<and> owns (next_target s, S - {#a#}, W) s'" if "a \<in># S"
    using reset_ok [OF inv b, of "Some a"] ptr_reclaim_ok [OF inv that] that
    by (auto simp: raw_decref_def bindm_def owns_def simp del: ptr_reset.simps)
  show "\<exists>s'. raw_make_weak a s = (Inr (Some a), s') \<and> heap_inv S (add_mset a W) s' \<and> next_target s' = next_target s" if "a \<in># S"
    using weak_copy_ok [OF inv b, of "Some a"] ptr_reclaim_ok [OF inv that] that
    by (auto simp: raw_make_weak_def ptr_release_def bindm_def seqm_def)
  show "\<exists>s'. raw_weak_incref a s = (Inr (), s') \<and> owns (next_target s, S, add_mset a W) s'" if "a \<in># W"
    using weak_copy_ok [OF inv b, of "Some a"] weak_reclaim_ok [OF inv that] that
    by (auto simp: raw_weak_incref_def ptr_release_def bindm_def seqm_def owns_def)
  show "\<exists>s'. raw_weak_decref a s = (Inr (), s') \<and> owns (next_target s, S, W - {#a#}) s'" if "a \<in># W"
    using weak_drop_ok [OF inv b, of "Some a"] weak_reclaim_ok [OF inv that] that
    by (auto simp: raw_weak_decref_def bindm_def owns_def simp del: weak_reset.simps)
qed

lemma lock_ok:
  assumes inv: "heap_inv S W s" and b: "references_bounded S W" and l: "lock_owned a (next_target s, S, W) = Some st"
  shows "\<exists>s'. seqm (weak_lock (Some a)) (ret ()) s = (Inr (), s') \<and> owns st s'"
    and "\<exists>s'. seqm (raw_weak_lock a) (ret ()) s = (Inr (), s') \<and> owns st s'"
proof -
  have a: "a \<in># W" and st: "st = (next_target s, if a \<in># S then add_mset a S else S, W)"
    using l by (simp_all add: lock_owned_def split: if_splits)
  obtain s' where s': "weak_lock (Some a) s = (Inr (if a \<in># S then Some a else None), s')"
    "heap_inv (if a \<in># S then add_mset a S else S) W s'" "next_target s' = next_target s"
    using weak_lock_ok [OF inv b a] by blast
  show "\<exists>s'. seqm (weak_lock (Some a)) (ret ()) s = (Inr (), s') \<and> owns st s'"
    using s' by (simp add: seqm_def bindm_def owns_def st del: weak_lock.simps)
  show "\<exists>s'. seqm (raw_weak_lock a) (ret ()) s = (Inr (), s') \<and> owns st s'"
    using s' weak_reclaim_ok [OF inv a]
    by (simp add: raw_weak_lock_def ptr_release_def seqm_def bindm_def owns_def st del: weak_lock.simps)
qed

lemma run_op_ok:
  assumes o: "owns (n, S, W) s" and b: "size S + size W + 3 < 2 ^ 64" and spec: "spec_op op (n, S, W) = Some st"
  shows "\<exists>s'. run_op op s = (Inr (), s') \<and> owns st s'"
proof -
  have inv: "heap_inv S W s" and n: "n = next_target s" using o by (simp_all add: owns_def)
  have b': "references_bounded S W" using b by (simp add: references_bounded_def)
  show ?thesis
  proof (cases op)
    case Make
    then show ?thesis using make_intrusive_ok [OF inv] spec n
      by (auto simp: owns_def seqm_def bindm_def)
  next
    case (Copy a)
    then show ?thesis using copy_ok [OF inv b', of "Some a"] spec n by (auto simp: owns_def seqm_def bindm_def split: if_splits)
  next
    case (CopyAssign p q)
    then show ?thesis using copy_assign_ok [OF inv b, of p q] spec n by (auto simp: owns_def seqm_def bindm_def split: if_splits)
  next
    case (MoveAssign p q)
    then show ?thesis using move_assign_ok [OF inv b', of p q] spec n by (auto simp: owns_def seqm_def bindm_def split: if_splits)
  next
    case (Drop a)
    then show ?thesis using reset_ok [OF inv b', of "Some a"] spec n
      by (auto simp: owns_def split: if_splits simp del: ptr_reset.simps)
  next
    case (FromNonowning a)
    then have a: "a \<in># S" using spec by (simp split: if_splits)
    then show ?thesis
      using FromNonowning ptr_retain_ok [OF inv b' a] ptr_reclaim_ok [OF inv a] spec n
      by (auto simp: unsafe_reclaim_from_nonowning_def owns_def seqm_def bindm_def simp del: ptr_retain.simps)
  next
    case (Weaken a)
    then show ?thesis using weak_copy_ok [OF inv b', of "Some a"] spec n by (auto simp: owns_def seqm_def bindm_def split: if_splits)
  next
    case (WeakCopy a)
    then show ?thesis using weak_copy_ok [OF inv b', of "Some a"] spec n by (auto simp: owns_def seqm_def bindm_def split: if_splits)
  next
    case (WeakAssign p q)
    then show ?thesis using weak_assign_ok [OF inv b, of p q] spec n by (auto simp: owns_def seqm_def bindm_def split: if_splits)
  next
    case (WeakDrop a)
    then show ?thesis using weak_drop_ok [OF inv b', of "Some a"] spec n
      by (auto simp: owns_def split: if_splits simp del: weak_reset.simps)
  next
    case (Lock a)
    then show ?thesis using lock_ok(1) [OF inv b', of a st] spec n by simp
  next
    case (RawIncref a)
    then show ?thesis using raw_ok(1) [OF inv b', of a] spec n by (simp split: if_splits)
  next
    case (RawDecref a)
    then show ?thesis using raw_ok(2) [OF inv b', of a] spec n by (simp split: if_splits)
  next
    case (RawMakeWeak a)
    then show ?thesis using raw_ok(3) [OF inv b', of a] spec n by (auto simp: owns_def seqm_def bindm_def split: if_splits)
  next
    case (RawWeakIncref a)
    then show ?thesis using raw_ok(4) [OF inv b', of a] spec n by (simp split: if_splits)
  next
    case (RawWeakDecref a)
    then show ?thesis using raw_ok(5) [OF inv b', of a] spec n by (simp split: if_splits)
  next
    case (RawLock a)
    then show ?thesis using lock_ok(2) [OF inv b', of a st] spec n by simp
  qed
qed


lemma spec_op_size: "spec_op op (n, S, W) = Some (n', S', W') \<Longrightarrow> size S' + size W' \<le> size S + size W + 1"
proof -
  have drop: "size (M + refs q - refs p) \<le> size M + 1" for M q p
    using size_refs [of q] by (metis add_le_mono diff_size_le_size_Diff dual_order.trans le_refl size_Diff_submset size_union
        diff_subset_eq_self size_mset_mono)
  have move: "size (S - refs p) \<le> size S + 1" for p using drop [of S None p] by simp
  show "spec_op op (n, S, W) = Some (n', S', W') \<Longrightarrow> size S' + size W' \<le> size S + size W + 1"
    using drop [of S] drop [of W] move
    by (cases op) (auto simp: lock_owned_def size_Diff_singleton_if intro: le_SucI size_mset_mono split: if_splits)
qed

fun spec_ops :: "ptr_op list \<Rightarrow> owned \<Rightarrow> owned option" where
  "spec_ops [] st = Some st"
| "spec_ops (op # ops) st = (case spec_op op st of None \<Rightarrow> None | Some st' \<Rightarrow> spec_ops ops st')"

lemma run_ops_ok:
  "owns (n, S, W) s \<Longrightarrow> size S + size W + length ops + 3 \<le> 2 ^ 64 \<Longrightarrow> spec_ops ops (n, S, W) = Some st \<Longrightarrow>
   \<exists>s'. foreach run_op ops s = (Inr (), s') \<and> owns st s'"
proof (induction ops arbitrary: n S W s)
  case (Cons op ops)
  obtain n' S' W' where st': "spec_op op (n, S, W) = Some (n', S', W')" "spec_ops ops (n', S', W') = Some st"
    using Cons.prems(3) by (auto split: option.splits)
  have "size S + size W + 3 < 2 ^ 64" using Cons.prems(2) by simp
  then obtain s1 where s1: "run_op op s = (Inr (), s1)" "owns (n', S', W') s1"
    using run_op_ok [OF Cons.prems(1) _ st'(1)] by blast
  have "size S' + size W' + length ops + 3 \<le> 2 ^ 64" using spec_op_size [OF st'(1)] Cons.prems(2) by simp
  from Cons.IH [OF s1(2) this st'(2)] show ?case using s1(1) by (simp add: seqm_def bindm_def)
qed simp

definition empty_heap :: target_heap where
  "empty_heap = \<lparr>targets = Map.empty, next_target = 0, released = (\<lambda>_. 0)\<rparr>"

text \<open>
  Property C9. A program of fewer than \<open>2\<^sup>64 - 2\<close> operations that only uses references it owns never fails an assertion, never uses a deleted target and
  keeps the scheme of the header file: a target exists exactly as long as there is a reference to it, its counters are
  the numbers of references, and \<open>release_resources\<close> has been called once on each address ever allocated that has no
  strong reference left, deleted or not, and never on any other.
\<close>

theorem intrusive_ptr_owned_programs:
  assumes "spec_ops ops (0, {#}, {#}) = Some (n, S, W)" "length ops + 3 \<le> 2 ^ 64"
  shows "\<exists>s. foreach run_op ops empty_heap = (Inr (), s) \<and> (\<forall>a. (targets s a = None) = (a \<notin># S + W)) \<and>
    (\<forall>a t. targets s a = Some t \<longrightarrow> refcount t = count S a \<and> weakcount t = count W a + (if a \<in># S then 1 else 0)) \<and>
    (\<forall>a. released s a = (if a < n \<and> a \<notin># S then 1 else 0))"
proof -
  have "owns (0, {#}, {#}) empty_heap" by (simp add: owns_def heap_inv_def target_ok_def empty_heap_def)
  then obtain s where s: "foreach run_op ops empty_heap = (Inr (), s)" "heap_inv S W s" "next_target s = n"
    using run_ops_ok [of 0 "{#}" "{#}" empty_heap ops] assms by (auto simp: owns_def)
  have "refcount t = count S a \<and> weakcount t = count W a + (if a \<in># S then 1 else 0)" if "targets s a = Some t" for a t
    using heap_inv_at [OF s(2), of a] that by (simp add: target_ok_def count_greater_zero_iff [symmetric])
  moreover have "released s a = (if a < n \<and> a \<notin># S then 1 else 0)" for a
    using s(2,3) by (simp add: heap_inv_def not_in_iff)
  ultimately show ?thesis using s heap_inv_live [OF s(2)] by blast
qed

theorem intrusive_ptr_owned_programs_witness:
  "\<exists>s. foreach run_op [Make, Weaken 0, Copy 0, Drop 0, Drop 0, Lock 0, Make, Drop 1] empty_heap = (Inr (), s) \<and>
     targets s 0 \<noteq> None \<and> targets s 1 = None \<and> released s 1 = 1"
proof -
  have "spec_ops [Make, Weaken 0, Copy 0, Drop 0, Drop 0, Lock 0, Make, Drop 1] (0, {#}, {#}) = Some (2, {#}, {#0#})"
    by (simp add: lock_owned_def)
  from intrusive_ptr_owned_programs [OF this] show ?thesis by auto
qed

end
