(* ===== verification/Intrusive_Ptr_Threads.thy ===== *)
theory Intrusive_Ptr_Threads
  imports Intrusive_Ptr
begin

text \<open>
  One reference-counted target (c10/util/intrusive_ptr.h) shared by several threads. The counters are atomic, so a step
  is one access to a counter, the call of \<open>release_resources\<close> or the deletion; between the accesses of \<open>reset_\<close> and
  \<open>lock\<close> other threads run. The numbers of strong and weak references a thread owns are part of its state. The counters
  are \<open>size_t\<close> and wrap around (\<open>inc\<close>, \<open>dec\<close>); the assertions of \<open>retain_\<close> and of the destructor are recorded when they fail.
\<close>

section \<open>State\<close>

text \<open>
  Where a thread is: in no operation, in \<open>reset_\<close> after the decrement of \<open>refcount_\<close> to zero and after that of
  \<open>weakcount_\<close>, at \<open>delete target_\<close>, and in the loop of \<open>lock\<close> with the \<open>refcount\<close> it has read.
\<close>

datatype ip_pc = P_idle | P_zero | P_release nat | P_delete | P_cas nat

record ip_thread =
  th_strong :: nat
  th_weak :: nat
  th_pc :: ip_pc

record shared_target =
  c_refcount :: nat
  c_weakcount :: nat
  c_released :: nat
  c_deleted :: bool
  c_failed :: bool
  ip_threads :: "ip_thread list"

definition set_thread :: "nat \<Rightarrow> ip_thread \<Rightarrow> shared_target \<Rightarrow> shared_target" where
  "set_thread i th s = s\<lparr>ip_threads := (ip_threads s)[i := th]\<rparr>"

definition shared_make :: "nat \<Rightarrow> shared_target" where
  "shared_make n = \<lparr>c_refcount = 1, c_weakcount = 1, c_released = 0, c_deleted = False, c_failed = False,
     ip_threads = \<lparr>th_strong = 1, th_weak = 0, th_pc = P_idle\<rparr> # replicate n \<lparr>th_strong = 0, th_weak = 0, th_pc = P_idle\<rparr>\<rparr>"

section \<open>Steps\<close>

text \<open>The operations on strong references: copy, construction of a weak pointer, and the steps of \<open>reset_\<close>.\<close>

definition strong_retain :: "nat \<Rightarrow> ip_thread \<Rightarrow> shared_target \<Rightarrow> shared_target" where
  "strong_retain i th s = set_thread i (th\<lparr>th_strong := th_strong th + 1\<rparr>) 
     (s\<lparr>c_refcount := inc (c_refcount s), c_failed := c_failed s \<or> inc (c_refcount s) = 1\<rparr>)"

definition shared_weak_retain :: "nat \<Rightarrow> ip_thread \<Rightarrow> shared_target \<Rightarrow> shared_target" where
  "shared_weak_retain i th s = set_thread i (th\<lparr>th_weak := th_weak th + 1\<rparr>) 
     (s\<lparr>c_weakcount := inc (c_weakcount s), c_failed := c_failed s \<or> inc (c_weakcount s) = 1\<rparr>)"

definition strong_reset :: "nat \<Rightarrow> ip_thread \<Rightarrow> shared_target \<Rightarrow> shared_target" where
  "strong_reset i th s = set_thread i (th\<lparr>th_strong := th_strong th - 1,
     th_pc := if dec (c_refcount s) = 0 then P_zero else P_idle\<rparr>) (s\<lparr>c_refcount := dec (c_refcount s)\<rparr>)"

definition strong_reset_weakcount :: "nat \<Rightarrow> ip_thread \<Rightarrow> shared_target \<Rightarrow> shared_target" where
  "strong_reset_weakcount i th s =
     set_thread i (th\<lparr>th_pc := P_release (dec (c_weakcount s))\<rparr>) (s\<lparr>c_weakcount := dec (c_weakcount s)\<rparr>)"

definition strong_reset_release :: "nat \<Rightarrow> nat \<Rightarrow> ip_thread \<Rightarrow> shared_target \<Rightarrow> shared_target" where
  "strong_reset_release k i th s =
     set_thread i (th\<lparr>th_pc := if k = 0 then P_delete else P_idle\<rparr>) (s\<lparr>c_released := c_released s + 1\<rparr>)"

definition shared_delete :: "nat \<Rightarrow> ip_thread \<Rightarrow> shared_target \<Rightarrow> shared_target" where
  "shared_delete i th s = set_thread i (th\<lparr>th_pc := P_idle\<rparr>)
     (s\<lparr>c_deleted := True, c_failed := c_failed s \<or> c_refcount s \<noteq> 0 \<or> c_weakcount s \<noteq> 0\<rparr>)"

text \<open>The operations on weak references; a failed exchange of \<open>lock\<close> reads the counter again.\<close>

definition shared_weak_reset :: "nat \<Rightarrow> ip_thread \<Rightarrow> shared_target \<Rightarrow> shared_target" where
  "shared_weak_reset i th s = set_thread i (th\<lparr>th_weak := th_weak th - 1,
     th_pc := if dec (c_weakcount s) = 0 then P_delete else P_idle\<rparr>) (s\<lparr>c_weakcount := dec (c_weakcount s)\<rparr>)"

definition shared_lock_read :: "nat \<Rightarrow> ip_thread \<Rightarrow> shared_target \<Rightarrow> shared_target" where
  "shared_lock_read i th s = set_thread i (th\<lparr>th_pc := if c_refcount s = 0 then P_idle else P_cas (c_refcount s)\<rparr>) s"

definition shared_lock_exchange :: "nat \<Rightarrow> nat \<Rightarrow> ip_thread \<Rightarrow> shared_target \<Rightarrow> shared_target" where
  "shared_lock_exchange r i th s = (if c_refcount s = r
     then set_thread i (th\<lparr>th_strong := th_strong th + 1, th_pc := P_idle\<rparr>) (s\<lparr>c_refcount := inc r\<rparr>)
     else shared_lock_read i th s)"

text \<open>
  A thread may hand a reference to another one. \<open>weak_allowed\<close>: weak references are used at all; a spurious failure of
  \<open>compare_exchange_weak\<close> reads the counter again.
\<close>

inductive ip_step :: "bool \<Rightarrow> shared_target \<Rightarrow> shared_target \<Rightarrow> bool" for weak_allowed where
  retain: "i < length (ip_threads s) \<Longrightarrow> th = ip_threads s ! i \<Longrightarrow> th_pc th = P_idle \<Longrightarrow> 0 < th_strong th \<Longrightarrow>
    ip_step weak_allowed s (strong_retain i th s)"
| weaken: "i < length (ip_threads s) \<Longrightarrow> th = ip_threads s ! i \<Longrightarrow> th_pc th = P_idle \<Longrightarrow> 0 < th_strong th \<or> 0 < th_weak th \<Longrightarrow>
    weak_allowed \<Longrightarrow> ip_step weak_allowed s (shared_weak_retain i th s)"
| reset: "i < length (ip_threads s) \<Longrightarrow> th = ip_threads s ! i \<Longrightarrow> th_pc th = P_idle \<Longrightarrow> 0 < th_strong th \<Longrightarrow>
    ip_step weak_allowed s (strong_reset i th s)"
| zero: "i < length (ip_threads s) \<Longrightarrow> th = ip_threads s ! i \<Longrightarrow> th_pc th = P_zero \<Longrightarrow>
    ip_step weak_allowed s (strong_reset_weakcount i th s)"
| release: "i < length (ip_threads s) \<Longrightarrow> th = ip_threads s ! i \<Longrightarrow> th_pc th = P_release k \<Longrightarrow>
    ip_step weak_allowed s (strong_reset_release k i th s)"
| delete: "i < length (ip_threads s) \<Longrightarrow> th = ip_threads s ! i \<Longrightarrow> th_pc th = P_delete \<Longrightarrow>
    ip_step weak_allowed s (shared_delete i th s)"
| weak_reset: "i < length (ip_threads s) \<Longrightarrow> th = ip_threads s ! i \<Longrightarrow> th_pc th = P_idle \<Longrightarrow> 0 < th_weak th \<Longrightarrow>
    ip_step weak_allowed s (shared_weak_reset i th s)"
| lock: "i < length (ip_threads s) \<Longrightarrow> th = ip_threads s ! i \<Longrightarrow> th_pc th = P_idle \<Longrightarrow> 0 < th_weak th \<Longrightarrow>
    ip_step weak_allowed s (shared_lock_read i th s)"
| exchange: "i < length (ip_threads s) \<Longrightarrow> th = ip_threads s ! i \<Longrightarrow> th_pc th = P_cas r \<Longrightarrow>
    ip_step weak_allowed s (shared_lock_exchange r i th s)"
| spurious: "i < length (ip_threads s) \<Longrightarrow> th = ip_threads s ! i \<Longrightarrow> th_pc th = P_cas r \<Longrightarrow>
    ip_step weak_allowed s (shared_lock_read i th s)"
| give_strong: "i < length (ip_threads s) \<Longrightarrow> j < length (ip_threads s) \<Longrightarrow> i \<noteq> j \<Longrightarrow> th = ip_threads s ! i \<Longrightarrow>
    th_pc th = P_idle \<Longrightarrow> 0 < th_strong th \<Longrightarrow> u = ip_threads s ! j \<Longrightarrow>
    ip_step weak_allowed s (set_thread j (u\<lparr>th_strong := th_strong u + 1\<rparr>) (set_thread i (th\<lparr>th_strong := th_strong th - 1\<rparr>) s))"
| give_weak: "i < length (ip_threads s) \<Longrightarrow> j < length (ip_threads s) \<Longrightarrow> i \<noteq> j \<Longrightarrow> th = ip_threads s ! i \<Longrightarrow>
    th_pc th = P_idle \<Longrightarrow> 0 < th_weak th \<Longrightarrow> u = ip_threads s ! j \<Longrightarrow>
    ip_step weak_allowed s (set_thread j (u\<lparr>th_weak := th_weak u + 1\<rparr>) (set_thread i (th\<lparr>th_weak := th_weak th - 1\<rparr>) s))"

section \<open>Invariant\<close>

fun at_zero :: "ip_pc \<Rightarrow> nat" where
  "at_zero P_zero = 1"
| "at_zero _ = 0"

fun finishing :: "ip_pc \<Rightarrow> nat" where
  "finishing P_zero = 1"
| "finishing (P_release k) = 1"
| "finishing _ = 0"

fun deleting :: "ip_pc \<Rightarrow> nat" where
  "deleting P_delete = 1"
| "deleting (P_release k) = (if k = 0 then 1 else 0)"
| "deleting _ = 0"

abbreviation sum_of :: "(ip_thread \<Rightarrow> nat) \<Rightarrow> shared_target \<Rightarrow> nat" where
  "sum_of h s \<equiv> sum_list (map h (ip_threads s))"

fun thread_ok :: "bool \<Rightarrow> ip_thread \<Rightarrow> bool" where
  "thread_ok wa th = ((case th_pc th of P_cas r \<Rightarrow> 0 < r \<and> 0 < th_weak th | P_release k \<Rightarrow> wa \<or> k = 0 | _ \<Rightarrow> True) \<and>
     (\<not> wa \<longrightarrow> th_weak th = 0))"

definition ip_inv :: "bool \<Rightarrow> shared_target \<Rightarrow> bool" where
  "ip_inv wa s \<longleftrightarrow> c_refcount s = sum_of th_strong s \<and>
     c_weakcount s = sum_of th_weak s + (if 0 < c_refcount s then 1 else sum_of (at_zero \<circ> th_pc) s) \<and>
     (0 < c_refcount s \<longrightarrow> sum_of (finishing \<circ> th_pc) s = 0) \<and>
     sum_of (finishing \<circ> th_pc) s + c_released s = (if c_refcount s = 0 then 1 else 0) \<and>
     sum_of (deleting \<circ> th_pc) s + (if c_deleted s then 1 else 0) = (if c_weakcount s = 0 then 1 else 0) \<and>
     \<not> c_failed s \<and> (\<forall>th \<in> set (ip_threads s). thread_ok wa th)"

lemma total_update:
  fixes h :: "ip_thread \<Rightarrow> nat"
  assumes "i < length (ip_threads s)"
  shows "sum_of h (set_thread i th s) + h (ip_threads s ! i) = sum_of h s + h th"
proof -
  have "sum_list (map h (xs[i := th])) + h (xs ! i) = sum_list (map h xs) + h th" if "i < length xs" for xs
    using that
  proof (induction xs arbitrary: i)
    case (Cons a xs)
    then show ?case by (cases i) simp_all
  qed simp
  then show ?thesis using assms by (simp add: set_thread_def)
qed

lemma total_member: "i < length (ip_threads s) \<Longrightarrow> h (ip_threads s ! i) \<le> sum_of h s"
  by (metis elem_le_sum_list length_map nth_map)

lemma shared_make_inv: "ip_inv wa (shared_make n)"
  by (simp add: ip_inv_def shared_make_def sum_list_replicate)


text \<open>The arithmetic of the invariant, over the counters and the totals.\<close>

definition totals_ok :: "nat \<Rightarrow> nat \<Rightarrow> nat \<Rightarrow> bool \<Rightarrow> nat \<Rightarrow> nat \<Rightarrow> nat \<Rightarrow> nat \<Rightarrow> nat \<Rightarrow> bool" where
  "totals_ok r w f d St Wk Z F D \<longleftrightarrow> r = St \<and> w = Wk + (if 0 < r then 1 else Z) \<and> (0 < r \<longrightarrow> F = 0) \<and>
     F + f = (if r = 0 then 1 else 0) \<and> D + (if d then 1 else 0) = (if w = 0 then 1 else 0)"

lemma ip_inv_totals:
  "ip_inv wa s \<longleftrightarrow> totals_ok (c_refcount s) (c_weakcount s) (c_released s) (c_deleted s) (sum_of th_strong s) (sum_of th_weak s)
     (sum_of (at_zero \<circ> th_pc) s) (sum_of (finishing \<circ> th_pc) s) (sum_of (deleting \<circ> th_pc) s) \<and>
     \<not> c_failed s \<and> (\<forall>th \<in> set (ip_threads s). thread_ok wa th)"
  by (simp add: ip_inv_def totals_ok_def)

lemma at_zero_le: "sum_of (at_zero \<circ> th_pc) s \<le> sum_of (finishing \<circ> th_pc) s"
proof -
  have "at_zero p \<le> finishing p" for p by (cases p) simp_all
  then show ?thesis by (intro sum_list_mono) simp
qed

lemma no_weak_counted:
  assumes "ip_inv False s"
  shows "c_weakcount s \<le> 1"
proof -
  have zero: "sum_of th_weak s = 0" using assms by (simp add: ip_inv_def)
  have arith: "totals_ok r w f d St 0 Z F D \<Longrightarrow> Z \<le> F \<Longrightarrow> w \<le> 1" for r w f d St Z F D
    by (auto simp: totals_ok_def split: if_splits)
  show ?thesis using assms unfolding ip_inv_totals zero using arith [OF _ at_zero_le] by blast
qed

text \<open>A step of thread \<open>i\<close>: what remains to be shown is about its own entries.\<close>

lemma ip_inv_update:
  assumes inv: "ip_inv wa s" and i: "i < length (ip_threads s)" and th: "th = ip_threads s ! i"
    and t: "ip_threads t = (ip_threads s)[i := th']" and ok: "thread_ok wa th \<Longrightarrow> thread_ok wa th'"
    and fl: "c_failed t = c_failed s"
    and step: "\<And>St Wk Z F D. totals_ok (c_refcount s) (c_weakcount s) (c_released s) (c_deleted s)
        (St + th_strong th) (Wk + th_weak th) (Z + at_zero (th_pc th)) (F + finishing (th_pc th)) (D + deleting (th_pc th)) \<Longrightarrow>
      Z + at_zero (th_pc th) \<le> F + finishing (th_pc th) \<Longrightarrow>
      totals_ok (c_refcount t) (c_weakcount t) (c_released t) (c_deleted t)
        (St + th_strong th') (Wk + th_weak th') (Z + at_zero (th_pc th')) (F + finishing (th_pc th')) (D + deleting (th_pc th'))"
  shows "ip_inv wa t"
proof -
  have split: "\<exists>k. sum_of h s = k + h th \<and> sum_of h t = k + h th'" for h :: "ip_thread \<Rightarrow> nat"
  proof -
    have "sum_of h (set_thread i th' s) + h th = sum_of h s + h th'" using total_update [OF i, of h th'] th by simp
    moreover have "h th \<le> sum_of h s" using total_member [OF i, of h] th by simp
    moreover have "sum_of h (set_thread i th' s) = sum_of h t" using t by (simp add: set_thread_def)
    ultimately show ?thesis by (intro exI [of _ "sum_of h s - h th"]) simp
  qed
  obtain St where 1: "sum_of th_strong s = St + th_strong th" "sum_of th_strong t = St + th_strong th'" using split by blast
  obtain Wk where 2: "sum_of th_weak s = Wk + th_weak th" "sum_of th_weak t = Wk + th_weak th'" using split by blast
  obtain Z where 3: "sum_of (at_zero \<circ> th_pc) s = Z + at_zero (th_pc th)" "sum_of (at_zero \<circ> th_pc) t = Z + at_zero (th_pc th')"
    using split [of "at_zero \<circ> th_pc"] by auto
  obtain F where 4: "sum_of (finishing \<circ> th_pc) s = F + finishing (th_pc th)" "sum_of (finishing \<circ> th_pc) t = F + finishing (th_pc th')"
    using split [of "finishing \<circ> th_pc"] by auto
  obtain D where 5: "sum_of (deleting \<circ> th_pc) s = D + deleting (th_pc th)" "sum_of (deleting \<circ> th_pc) t = D + deleting (th_pc th')"
    using split [of "deleting \<circ> th_pc"] by auto
  have "Z + at_zero (th_pc th) \<le> F + finishing (th_pc th)" using at_zero_le [of s] 3 4 by simp
  moreover have "\<forall>x \<in> set (ip_threads t). thread_ok wa x"
  proof
    fix x assume "x \<in> set (ip_threads t)"
    then have "x = th' \<or> x \<in> set (ip_threads s)" using t set_update_subset_insert [of "ip_threads s" i th'] by auto
    moreover have "thread_ok wa th" using inv i th by (simp add: ip_inv_def)
    ultimately show "thread_ok wa x" using inv ok unfolding ip_inv_def by blast
  qed
  ultimately show ?thesis using inv step [of St Wk Z F D] fl unfolding ip_inv_totals 1 2 3 4 5 by blast
qed

lemma give_inv:
  fixes h :: "ip_thread \<Rightarrow> nat"
  assumes i: "i < length (ip_threads s)" "j < length (ip_threads s)" "i \<noteq> j" "th = ip_threads s ! i" "u = ip_threads s ! j"
    and h: "h th' + h u' = h th + h u"
  shows "sum_of h (set_thread j u' (set_thread i th' s)) = sum_of h s"
proof -
  have "sum_of h (set_thread j u' (set_thread i th' s)) + h u = sum_of h (set_thread i th' s) + h u'"
    using total_update [of j "set_thread i th' s" h u'] i by (simp add: set_thread_def)
  moreover have "sum_of h (set_thread i th' s) + h th = sum_of h s + h th'" using total_update [OF i(1), of h th'] i(4) by simp
  ultimately show ?thesis using h by linarith
qed

lemma give_ok:
  assumes "\<forall>x \<in> set (ip_threads s). P x" "i < length (ip_threads s)" "j < length (ip_threads s)"
    "P (ip_threads s ! i) \<Longrightarrow> P th'" "P (ip_threads s ! j) \<Longrightarrow> P u'"
  shows "\<forall>x \<in> set (ip_threads (set_thread j u' (set_thread i th' s))). P x"
proof
  fix x assume "x \<in> set (ip_threads (set_thread j u' (set_thread i th' s)))"
  then have "x = u' \<or> x = th' \<or> x \<in> set (ip_threads s)"
    by (auto simp: set_thread_def dest!: set_update_subset_insert [THEN subsetD])
  then show "P x" using assms nth_mem by blast
qed

text \<open>There are fewer references than the counters can hold.\<close>

definition few_references :: "shared_target \<Rightarrow> bool" where
  "few_references s \<longleftrightarrow> sum_of th_strong s + sum_of th_weak s + 2 < 2 ^ 64"

lemma counters_fit:
  assumes "ip_inv wa s" "few_references s"
  shows "inc (c_refcount s) = c_refcount s + 1" "inc (c_weakcount s) = c_weakcount s + 1"
    "0 < c_refcount s \<Longrightarrow> dec (c_refcount s) = c_refcount s - 1" "0 < c_weakcount s \<Longrightarrow> dec (c_weakcount s) = c_weakcount s - 1"
proof -
  have arith: "totals_ok r w f d St Wk Z F D \<Longrightarrow> Z \<le> F \<Longrightarrow> St + Wk + 2 < 2 ^ 64 \<Longrightarrow> r + 1 < 2 ^ 64 \<and> w + 1 < 2 ^ 64" for r w f d St Wk Z F D
    by (auto simp: totals_ok_def split: if_splits)
  have "c_refcount s + 1 < 2 ^ 64 \<and> c_weakcount s + 1 < 2 ^ 64"
    using assms arith [OF _ at_zero_le] unfolding ip_inv_totals few_references_def by blast
  then show "inc (c_refcount s) = c_refcount s + 1" "inc (c_weakcount s) = c_weakcount s + 1"
    "0 < c_refcount s \<Longrightarrow> dec (c_refcount s) = c_refcount s - 1" "0 < c_weakcount s \<Longrightarrow> dec (c_weakcount s) = c_weakcount s - 1"
    by simp_all
qed

lemma counters_of_thread:
  assumes inv: "ip_inv wa s" and i: "i < length (ip_threads s)" "th = ip_threads s ! i"
  shows "0 < th_strong th \<Longrightarrow> 0 < c_refcount s \<and> 0 < c_weakcount s" "0 < th_weak th \<Longrightarrow> 0 < c_weakcount s"
    "th_pc th = P_zero \<Longrightarrow> 0 < c_weakcount s" "th_pc th = P_delete \<Longrightarrow> c_weakcount s = 0 \<and> c_refcount s = 0"
proof -
  have t: "totals_ok (c_refcount s) (c_weakcount s) (c_released s) (c_deleted s) (sum_of th_strong s) (sum_of th_weak s)
     (sum_of (at_zero \<circ> th_pc) s) (sum_of (finishing \<circ> th_pc) s) (sum_of (deleting \<circ> th_pc) s)"
    using inv by (simp add: ip_inv_totals)
  have m: "h th \<le> sum_of h s" for h using total_member [OF i(1), of h] i(2) by simp
  have 1: "totals_ok r w f d St Wk Z F D \<Longrightarrow> 0 < St \<Longrightarrow> 0 < r \<and> 0 < w" for r w f d St Wk Z F D by (auto simp: totals_ok_def)
  have 2: "totals_ok r w f d St Wk Z F D \<Longrightarrow> 0 < Wk \<Longrightarrow> 0 < w" for r w f d St Wk Z F D by (auto simp: totals_ok_def)
  have 3: "totals_ok r w f d St Wk Z F D \<Longrightarrow> 0 < Z \<Longrightarrow> 0 < w" for r w f d St Wk Z F D by (auto simp: totals_ok_def split: if_splits)
  have 4: "totals_ok r w f d St Wk Z F D \<Longrightarrow> 0 < D \<Longrightarrow> w = 0 \<and> r = 0" for r w f d St Wk Z F D
    by (auto simp: totals_ok_def split: if_splits)
  show "0 < th_strong th \<Longrightarrow> 0 < c_refcount s \<and> 0 < c_weakcount s" using 1 [OF t] m [of th_strong] by simp
  show "0 < th_weak th \<Longrightarrow> 0 < c_weakcount s" using 2 [OF t] m [of th_weak] by simp
  show "th_pc th = P_zero \<Longrightarrow> 0 < c_weakcount s" using 3 [OF t] m [of "at_zero \<circ> th_pc"] by simp
  show "th_pc th = P_delete \<Longrightarrow> c_weakcount s = 0 \<and> c_refcount s = 0" using 4 [OF t] m [of "deleting \<circ> th_pc"] by simp
qed

lemma ip_step_inv: "ip_step wa s t \<Longrightarrow> ip_inv wa s \<Longrightarrow> few_references s \<Longrightarrow> ip_inv wa t"
proof (induction rule: ip_step.induct)
  case (retain i s th)
  note c = counters_fit [OF retain(5,6)] counters_of_thread [OF retain(5,1,2)]
  show ?case
    by (intro ip_inv_update [OF retain(5,1,2), where th' = "th\<lparr>th_strong := th_strong th + 1\<rparr>"])
       (use retain c in \<open>auto simp: strong_retain_def set_thread_def totals_ok_def\<close>)
next
  case (weaken i s th)
  note c = counters_fit [OF weaken(6,7)] counters_of_thread [OF weaken(6,1,2)]
  show ?case
    by (intro ip_inv_update [OF weaken(6,1,2), where th' = "th\<lparr>th_weak := th_weak th + 1\<rparr>"])
       (use weaken c in \<open>auto simp: shared_weak_retain_def set_thread_def totals_ok_def split: if_splits\<close>)
next
  case (reset i s th)
  have c: "dec (c_refcount s) = c_refcount s - 1"
    using counters_fit(3) [OF reset(5,6)] counters_of_thread(1) [OF reset(5,1,2)] reset(4) by simp
  then have e: "strong_reset i th s = set_thread i (th\<lparr>th_strong := th_strong th - 1,
      th_pc := if c_refcount s - 1 = 0 then P_zero else P_idle\<rparr>) (s\<lparr>c_refcount := c_refcount s - 1\<rparr>)"
    by (simp add: strong_reset_def)
  show ?case unfolding e
    by (intro ip_inv_update [OF reset(5,1,2), where th' = "th\<lparr>th_strong := th_strong th - 1,
         th_pc := if c_refcount s - 1 = 0 then P_zero else P_idle\<rparr>"])
       (use reset(3,4) in \<open>auto simp: set_thread_def totals_ok_def split: if_splits\<close>)
next
  case (zero i s th)
  have c: "dec (c_weakcount s) = c_weakcount s - 1"
    using counters_fit(4) [OF zero(4,5)] counters_of_thread(3) [OF zero(4,1,2)] zero(3) by simp
  have "wa \<or> c_weakcount s \<le> 1" using no_weak_counted [of s] zero(4) by (cases wa) simp_all
  have e: "strong_reset_weakcount i th s = set_thread i (th\<lparr>th_pc := P_release (c_weakcount s - 1)\<rparr>)
      (s\<lparr>c_weakcount := c_weakcount s - 1\<rparr>)" by (simp add: strong_reset_weakcount_def c)
  show ?case unfolding e
    by (intro ip_inv_update [OF zero(4,1,2), where th' = "th\<lparr>th_pc := P_release (c_weakcount s - 1)\<rparr>"])
       (use zero(3) \<open>wa \<or> c_weakcount s \<le> 1\<close> in \<open>auto simp: set_thread_def totals_ok_def split: if_splits\<close>)
next
  case (release i s th k)
  then show ?case
    by (intro ip_inv_update [OF release(4,1,2), where th' = "th\<lparr>th_pc := if k = 0 then P_delete else P_idle\<rparr>"])
       (auto simp: strong_reset_release_def set_thread_def totals_ok_def split: if_splits)
next
  case (delete i s th)
  have "c_weakcount s = 0 \<and> c_refcount s = 0" using counters_of_thread(4) [OF delete(4,1,2,3)] .
  then show ?case
    by (intro ip_inv_update [OF delete(4,1,2), where th' = "th\<lparr>th_pc := P_idle\<rparr>"])
       (use delete(3) in \<open>auto simp: shared_delete_def set_thread_def totals_ok_def split: if_splits\<close>)
next
  case (weak_reset i s th)
  have c: "dec (c_weakcount s) = c_weakcount s - 1"
    using counters_fit(4) [OF weak_reset(5,6)] counters_of_thread(2) [OF weak_reset(5,1,2)] weak_reset(4) by simp
  then have e: "shared_weak_reset i th s = set_thread i (th\<lparr>th_weak := th_weak th - 1,
      th_pc := if c_weakcount s - 1 = 0 then P_delete else P_idle\<rparr>) (s\<lparr>c_weakcount := c_weakcount s - 1\<rparr>)"
    by (simp add: shared_weak_reset_def)
  show ?case unfolding e
    by (intro ip_inv_update [OF weak_reset(5,1,2), where th' = "th\<lparr>th_weak := th_weak th - 1,
         th_pc := if c_weakcount s - 1 = 0 then P_delete else P_idle\<rparr>"])
       (use weak_reset(3,4) in \<open>auto simp: set_thread_def totals_ok_def split: if_splits\<close>)
next
  case (lock i s th)
  then show ?case
    by (intro ip_inv_update [OF lock(5,1,2), where th' = "th\<lparr>th_pc := if c_refcount s = 0 then P_idle else P_cas (c_refcount s)\<rparr>"])
       (auto simp: shared_lock_read_def set_thread_def totals_ok_def split: if_splits)
next
  case (exchange i s th r)
  have r: "0 < r" using exchange(1-4) by (auto simp: ip_inv_def dest!: nth_mem)
  show ?case
  proof (cases "c_refcount s = r")
    case True
    then have c: "inc r = r + 1" using counters_fit(1) [OF exchange(4,5)] by simp
    then have e: "shared_lock_exchange r i th s =
        set_thread i (th\<lparr>th_strong := th_strong th + 1, th_pc := P_idle\<rparr>) (s\<lparr>c_refcount := r + 1\<rparr>)"
      using True by (simp add: shared_lock_exchange_def)
    show ?thesis unfolding e
      by (intro ip_inv_update [OF exchange(4,1,2), where th' = "th\<lparr>th_strong := th_strong th + 1, th_pc := P_idle\<rparr>"])
         (use exchange(3) r True in \<open>auto simp: set_thread_def totals_ok_def split: if_splits\<close>)
  next
    case False
    then show ?thesis
      by (intro ip_inv_update [OF exchange(4,1,2), where th' = "th\<lparr>th_pc := if c_refcount s = 0 then P_idle else P_cas (c_refcount s)\<rparr>"])
         (use exchange(3) in \<open>auto simp: shared_lock_exchange_def shared_lock_read_def set_thread_def totals_ok_def split: if_splits\<close>)
  qed
next
  case (spurious i s th r)
  then show ?case
    by (intro ip_inv_update [OF spurious(4,1,2), where th' = "th\<lparr>th_pc := if c_refcount s = 0 then P_idle else P_cas (c_refcount s)\<rparr>"])
       (auto simp: shared_lock_read_def set_thread_def totals_ok_def split: if_splits)
next
  case (give_strong i s j th u)
  let ?th = "th\<lparr>th_strong := th_strong th - 1\<rparr>" and ?u = "u\<lparr>th_strong := th_strong u + 1\<rparr>"
  have tot: "h ?th + h ?u = h th + h u \<Longrightarrow> sum_of h (set_thread j ?u (set_thread i ?th s)) = sum_of h s" for h :: "ip_thread \<Rightarrow> nat"
    using give_inv [of i s j th u h ?th ?u] give_strong by blast
  have all: "\<forall>x \<in> set (ip_threads s). thread_ok wa x" using give_strong(8) unfolding ip_inv_def by blast
  have ok: "\<forall>x \<in> set (ip_threads (set_thread j ?u (set_thread i ?th s))). thread_ok wa x"
    by (rule give_ok [OF all give_strong(1,2)]) (use give_strong(4,5,7) in \<open>auto split: ip_pc.splits\<close>)
  let ?t = "set_thread j ?u (set_thread i ?th s)"
  have sums: "sum_of th_strong ?t = sum_of th_strong s" "sum_of th_weak ?t = sum_of th_weak s"
    "sum_of (at_zero \<circ> th_pc) ?t = sum_of (at_zero \<circ> th_pc) s" "sum_of (finishing \<circ> th_pc) ?t = sum_of (finishing \<circ> th_pc) s"
    "sum_of (deleting \<circ> th_pc) ?t = sum_of (deleting \<circ> th_pc) s"
    by (rule tot; use give_strong(6) in simp)+
  have same: "c_refcount ?t = c_refcount s" "c_weakcount ?t = c_weakcount s" "c_released ?t = c_released s" "c_deleted ?t = c_deleted s"
    "c_failed ?t = c_failed s"
    by (simp_all add: set_thread_def)
  show ?case using give_strong(8) ok unfolding ip_inv_totals sums same by blast
next
  case (give_weak i s j th u)
  let ?th = "th\<lparr>th_weak := th_weak th - 1\<rparr>" and ?u = "u\<lparr>th_weak := th_weak u + 1\<rparr>"
  have tot: "h ?th + h ?u = h th + h u \<Longrightarrow> sum_of h (set_thread j ?u (set_thread i ?th s)) = sum_of h s" for h :: "ip_thread \<Rightarrow> nat"
    using give_inv [of i s j th u h ?th ?u] give_weak by blast
  have all: "\<forall>x \<in> set (ip_threads s). thread_ok wa x" using give_weak(8) unfolding ip_inv_def by blast
  then have "thread_ok wa th" using nth_mem [OF give_weak(1)] give_weak(4) by blast
  then have wa: wa using give_weak(6) by (cases wa) simp_all
  have ok: "\<forall>x \<in> set (ip_threads (set_thread j ?u (set_thread i ?th s))). thread_ok wa x"
  proof (rule give_ok [OF all give_weak(1,2)])
    show "thread_ok wa (ip_threads s ! i) \<Longrightarrow> thread_ok wa ?th" using give_weak(4,5) wa by simp
    show "thread_ok wa (ip_threads s ! j) \<Longrightarrow> thread_ok wa ?u" using give_weak(7) wa by (cases "th_pc u") simp_all
  qed
  let ?t = "set_thread j ?u (set_thread i ?th s)"
  have sums: "sum_of th_strong ?t = sum_of th_strong s" "sum_of th_weak ?t = sum_of th_weak s"
    "sum_of (at_zero \<circ> th_pc) ?t = sum_of (at_zero \<circ> th_pc) s" "sum_of (finishing \<circ> th_pc) ?t = sum_of (finishing \<circ> th_pc) s"
    "sum_of (deleting \<circ> th_pc) ?t = sum_of (deleting \<circ> th_pc) s"
    by (rule tot; use give_weak(6) in simp)+
  have same: "c_refcount ?t = c_refcount s" "c_weakcount ?t = c_weakcount s" "c_released ?t = c_released s" "c_deleted ?t = c_deleted s"
    "c_failed ?t = c_failed s"
    by (simp_all add: set_thread_def)
  show ?case using give_weak(8) ok unfolding ip_inv_totals sums same by blast
qed


section \<open>Runs\<close>

text \<open>Runs on whose way there are always fewer references than the counters can hold.\<close>

definition ip_runs :: "bool \<Rightarrow> nat \<Rightarrow> shared_target \<Rightarrow> bool" where
  "ip_runs weak_allowed n s \<longleftrightarrow> (\<lambda>s t. few_references s \<and> ip_step weak_allowed s t)\<^sup>*\<^sup>* (shared_make n) s"

lemma ip_runs_inv: "ip_runs wa n s \<Longrightarrow> ip_inv wa s"
  unfolding ip_runs_def by (induction rule: rtranclp_induct) (auto intro: ip_step_inv shared_make_inv)

text \<open>A thread that has counted down both counters and has seen weak references left, but has not yet called
  \<open>release_resources\<close>.\<close>

fun releasing :: "ip_pc \<Rightarrow> bool" where
  "releasing (P_release k) = (0 < k)"
| "releasing _ = False"

lemma deleted_unused:
  assumes inv: "ip_inv wa s" and d: "c_deleted s" and th: "th \<in> set (ip_threads s)"
  shows "th_strong th = 0" "th_weak th = 0" "th_pc th = P_idle \<or> releasing (th_pc th)"
proof -
  have arith: "totals_ok r w f True St Wk Z F D \<Longrightarrow> St = 0 \<and> Wk = 0 \<and> Z = 0 \<and> D = 0" for r w f St Wk Z F D
    by (auto simp: totals_ok_def split: if_splits)
  have zero: "sum_of th_strong s = 0 \<and> sum_of th_weak s = 0 \<and> sum_of (at_zero \<circ> th_pc) s = 0 \<and> sum_of (deleting \<circ> th_pc) s = 0"
    using arith inv d unfolding ip_inv_totals by (metis (full_types))
  then show *: "th_strong th = 0" "th_weak th = 0" using th by auto
  have "at_zero (th_pc th) = 0" "deleting (th_pc th) = 0" using zero th by auto
  moreover have "thread_ok wa th" using inv th unfolding ip_inv_def by blast
  ultimately show "th_pc th = P_idle \<or> releasing (th_pc th)" using * by (cases "th_pc th") (auto split: if_splits)
qed

section \<open>Runs to try\<close>

definition sample_thread :: "nat \<Rightarrow> nat \<Rightarrow> ip_pc \<Rightarrow> ip_thread" where
  "sample_thread st w p = \<lparr>th_strong = st, th_weak = w, th_pc = p\<rparr>"

definition sample_target :: "nat \<Rightarrow> nat \<Rightarrow> nat \<Rightarrow> bool \<Rightarrow> ip_thread \<Rightarrow> ip_thread \<Rightarrow> shared_target" where
  "sample_target r w f d th u = \<lparr>c_refcount = r, c_weakcount = w, c_released = f, c_deleted = d, c_failed = False, ip_threads = [th, u]\<rparr>"

lemma ip_runs_step: "ip_runs wa n s \<Longrightarrow> ip_step wa s t \<Longrightarrow> few_references s \<Longrightarrow> ip_runs wa n t"
  unfolding ip_runs_def by (rule rtranclp.rtrancl_into_rtrancl) simp_all

lemma small_counters: "inc (Suc 0) = Suc (Suc 0)" "dec (Suc 0) = 0" "dec (Suc (Suc 0)) = Suc 0"
  "Suc (Suc 0) < 2 ^ 64" "Suc (Suc (Suc 0)) < 2 ^ 64" "Suc (Suc (Suc (Suc 0))) < 2 ^ 64"
  by simp_all

lemmas ip_eval = sample_target_def sample_thread_def set_thread_def strong_reset_def strong_reset_weakcount_def
  strong_reset_release_def shared_delete_def shared_weak_retain_def shared_weak_reset_def
  few_references_def small_counters small_counters [unfolded numeral_2_eq_2]

lemma sample_target_made: "ip_runs wa 1 (sample_target 1 1 0 False (sample_thread 1 0 P_idle) (sample_thread 0 0 P_idle))"
  by (simp add: ip_runs_def shared_make_def sample_target_def sample_thread_def)

lemma sample_target_over: "ip_runs False 1 (sample_target 0 0 1 True (sample_thread 0 0 P_idle) (sample_thread 0 0 P_idle))"
proof -
  have "ip_runs False 1 (sample_target 0 1 0 False (sample_thread 0 0 P_zero) (sample_thread 0 0 P_idle))"
    using ip_runs_step [OF sample_target_made ip_step.reset [of 0]] by (simp add: ip_eval)
  then have "ip_runs False 1 (sample_target 0 0 0 False (sample_thread 0 0 (P_release 0)) (sample_thread 0 0 P_idle))"
    using ip_runs_step [OF _ ip_step.zero [of 0]] by (fastforce simp: ip_eval)
  then have "ip_runs False 1 (sample_target 0 0 1 False (sample_thread 0 0 P_delete) (sample_thread 0 0 P_idle))"
    using ip_runs_step [OF _ ip_step.release [of 0]] by (fastforce simp: ip_eval)
  then show ?thesis using ip_runs_step [OF _ ip_step.delete [of 0]] by (fastforce simp: ip_eval)
qed


lemma sample_target_early:
  "ip_runs True 1 (sample_target 0 0 0 True (sample_thread 0 0 (P_release 1)) (sample_thread 0 0 P_idle))"
proof -
  let ?s = "\<lambda>r w d p q v u. sample_target r w 0 d (sample_thread r p q) (sample_thread 0 v u)"
  note step = ip_runs_step [where wa = True and n = 1]
  have 1: "ip_runs True 1 (?s 1 2 False 1 P_idle 0 P_idle)"
    by (rule step [OF sample_target_made])
       (use ip_step.weaken [of 0 "?s 1 1 False 0 P_idle 0 P_idle" "sample_thread 1 0 P_idle" True] in \<open>simp_all add: ip_eval numeral_2_eq_2\<close>)
  have 2: "ip_runs True 1 (?s 1 2 False 0 P_idle 1 P_idle)"
    by (rule step [OF 1])
       (use ip_step.give_weak [of 0 "?s 1 2 False 1 P_idle 0 P_idle" 1 "sample_thread 1 1 P_idle" "sample_thread 0 0 P_idle" True]
         in \<open>simp_all add: ip_eval numeral_2_eq_2\<close>)
  have 3: "ip_runs True 1 (?s 0 2 False 0 P_zero 1 P_idle)"
    by (rule step [OF 2])
       (use ip_step.reset [of 0 "?s 1 2 False 0 P_idle 1 P_idle" "sample_thread 1 0 P_idle" True] in \<open>simp_all add: ip_eval numeral_2_eq_2\<close>)
  have 4: "ip_runs True 1 (?s 0 1 False 0 (P_release 1) 1 P_idle)"
    by (rule step [OF 3])
       (use ip_step.zero [of 0 "?s 0 2 False 0 P_zero 1 P_idle" "sample_thread 0 0 P_zero" True] in \<open>simp_all add: ip_eval numeral_2_eq_2\<close>)
  have 5: "ip_runs True 1 (?s 0 0 False 0 (P_release 1) 0 P_delete)"
    by (rule step [OF 4])
       (use ip_step.weak_reset [of 1 "?s 0 1 False 0 (P_release 1) 1 P_idle" "sample_thread 0 1 P_idle" True] in \<open>simp_all add: ip_eval numeral_2_eq_2\<close>)
  show ?thesis
    by (rule step [OF 5])
       (use ip_step.delete [of 1 "?s 0 0 False 0 (P_release 1) 0 P_delete" "sample_thread 0 0 P_delete" True] in \<open>simp_all add: ip_eval numeral_2_eq_2\<close>)
qed

section \<open>Properties\<close>

text \<open>
  Property C8. Whatever the order of the steps, as long as there are fewer than \<open>2\<^sup>64 - 2\<close> references: no assertion
  fails and the resources are released at most once; and when the target has been deleted no thread owns a reference to
  it, each thread is in no operation on it, or in \<open>reset_\<close> with the call of \<open>release_resources\<close> still before it, after
  which it will not touch the target again, and this only if weak references are used. If they are not used,
  \<open>release_resources\<close> has been called once when the target is deleted. (The next property shows that the exception occurs.)
\<close>

theorem shared_target_safe:
  assumes "ip_runs weak_allowed n s"
  shows "\<not> c_failed s \<and> c_released s \<le> 1 \<and>
    (c_deleted s \<longrightarrow> list_all (\<lambda>th. th_strong th = 0 \<and> th_weak th = 0 \<and>
       (th_pc th = P_idle \<or> weak_allowed \<and> releasing (th_pc th))) (ip_threads s)) \<and>
    (c_deleted s \<and> \<not> weak_allowed \<longrightarrow> c_released s = 1)"
proof -
  have inv: "ip_inv weak_allowed s" using assms by (rule ip_runs_inv)
  have rel: "sum_of (finishing \<circ> th_pc) s + c_released s = (if c_refcount s = 0 then 1 else 0)" and nf: "\<not> c_failed s"
    using inv unfolding ip_inv_def by blast+
  have gone: "th_strong th = 0 \<and> th_weak th = 0 \<and> (th_pc th = P_idle \<or> releasing (th_pc th))"
    if "c_deleted s" "th \<in> set (ip_threads s)" for th
    using deleted_unused [OF inv that] by blast
  have idle: "th_pc th = P_idle" if "c_deleted s" "\<not> weak_allowed" "th \<in> set (ip_threads s)" for th
  proof -
    have "thread_ok weak_allowed th" using inv that(3) unfolding ip_inv_def by blast
    then show ?thesis using gone [OF that(1,3)] that(2) by (cases "th_pc th") auto
  qed
  have one: "c_released s = 1" if d: "c_deleted s" "\<not> weak_allowed"
  proof -
    have none: "sum_of (finishing \<circ> th_pc) s = 0" using idle [OF d] by simp
    have zero: "c_refcount s = 0" using gone [OF d(1)] inv by (simp add: ip_inv_def)
    show ?thesis using rel unfolding none zero by simp
  qed
  have "c_released s \<le> 1" using rel by (simp split: if_splits)
  moreover have "th_strong th = 0 \<and> th_weak th = 0 \<and> (th_pc th = P_idle \<or> weak_allowed \<and> releasing (th_pc th))"
    if "c_deleted s" "th \<in> set (ip_threads s)" for th
    using gone [OF that] idle [OF that(1) _ that(2)] by blast
  ultimately show ?thesis using one nf by (auto simp: list_all_iff)
qed


theorem shared_target_safe_witness:
  "list_all (\<lambda>th. th_strong th = 0 \<and> th_pc th = P_idle)
     (ip_threads (sample_target 0 0 1 True (sample_thread 0 0 P_idle) (sample_thread 0 0 P_idle)))"
  using shared_target_safe [OF sample_target_over] by (simp add: sample_target_def)

text \<open>
  Property C20. The exception in the previous property is real: a thread that drops the last strong reference counts down
  \<open>weakcount_\<close> before it calls \<open>release_resources\<close>, so the thread that owns the last weak reference can delete the target
  in between, and \<open>release_resources\<close> is called on a deleted object.
\<close>

theorem release_after_delete:
  "\<exists>s. ip_runs True 1 s \<and> c_deleted s \<and> th_pc (ip_threads s ! 0) = P_release 1 \<and>
     ip_step True s (strong_reset_release 1 0 (ip_threads s ! 0) s)"
proof (intro exI conjI)
  let ?s = "sample_target 0 0 0 True (sample_thread 0 0 (P_release 1)) (sample_thread 0 0 P_idle)"
  show "ip_runs True 1 ?s" by (rule sample_target_early)
  show "ip_step True ?s (strong_reset_release 1 0 (ip_threads ?s ! 0) ?s)"
    by (rule ip_step.release) (simp_all add: sample_target_def sample_thread_def)
qed (simp_all add: sample_target_def sample_thread_def)

end
