(* ===== verification/Spec2Isabelle.thy ===== *)
theory Spec2Isabelle
  imports Device Backends Scalar_Types Strided Shapes Allocator_Properties Loader_Correctness Chunk_Buffer Stream_Properties Thread_Pool Autograd_Properties Left_Right Intrusive_Ptr Intrusive_Ptr_Threads
begin

text \<open>
  A verification development for the core of PyTorch 1.1.0 (the C++ code under src/): the small value types every part
  uses (devices, streams, backends, scalar types), the geometry of strided tensors, and the runtime components with
  state of their own: the CUDA caching allocator, the random number generator, samplers, data loader and chunk buffer,
  device and stream guards, CUDA streams, the thread pool, the left-right primitive, reference counting and the
  autograd engine.

  \<^bold>\<open>How code becomes definitions.\<close> A function that only computes is a HOL function with the name of the source. One that
  throws returns a \<open>result\<close> (Prelude): \<open>Inl\<close> the exception, \<open>Inr\<close> the value; reading out of bounds, null dereferences and
  the like are the exception \<open>UndefinedBehaviour\<close>, so a theorem that a function returns also says that it does not do
  these. Stateful code is a function from a state to a result and a new state (State_Exn), which keeps the effects made
  before an exception. Threads are step relations: a step is what a thread does while it holds the mutex, or one access
  to an atomic; theorems quantify over all interleavings. Machine integers are words, or natural numbers and integers
  with the wrap-around written out (\<open>add64\<close>, \<open>sub64\<close>, \<open>mul64\<close> for \<open>size_t\<close>, \<open>wrap64\<close> and \<open>int32_of\<close> for \<open>int64_t\<close> and
  \<open>int\<close>, whose overflow is given the wrap-around that compilers give it); a theorem that needs a product, sum or count
  not to wrap has that as a hypothesis. Code outside the repository (the CUDA runtime), template
  parameters, virtual functions and user code are arguments; what is assumed of them are named predicates with a concrete
  instance that satisfies them.

  \<^bold>\<open>Theories and what they show.\<close>

  \<^item> Prelude, State_Exn: exceptions, results, the state and exception monad with its Hoare triples, decimal text.

  \<^item> Device (c10/core/DeviceType, Device, Stream): devices, their text form and parser, the packing of a stream into 64
  bits. Unpacking accepts exactly what packing produces; printing and parsing a device are inverse.

  \<^item> Backends (c10/core/TensorTypeIdRegistration, Backend, Layout): the registry of tensor type ids as a state, and the
  conversions between backends, device types and layouts. The ids of distinct backends are distinct and lead back.

  \<^item> Scalar_Types (c10/core/ScalarType.h): \<open>promoteTypes\<close> is a least upper bound.

  \<^item> Strided (ATen/TensorUtils, TensorGeometry, TH/THTensor.cpp): contiguity, storage size, and \<open>THTensor_compute_stride\<close>:
  the strides of a view address the same elements in the same order. Shapes (ATen/WrapDimUtils, InferSize, ExpandUtils):
  broadcasting gives the least common expansion, an expanded tensor reads the element it should, \<open>-1\<close> sizes are inferred
  uniquely.

  \<^item> Caching_Allocator (c10/cuda/CUDACachingAllocator.cpp): every operation of \<open>THCCachingAllocator\<close> over a heap of
  blocks; a \<open>Block*\<close> is a number. Allocator_Heap shows that splitting and merging keep the doubly linked blocks of the
  segments disjoint; Allocator_Invariant adds the pools, the event queue, the map of allocated blocks and the
  statistics; Allocator_Safety that every operation keeps the invariant and refines a finite map from addresses to
  allocations; Allocator_Properties states the results: memory safety of \<open>malloc\<close>, exactness of \<open>free\<close>, no reuse of a
  block before the recorded streams are through, statistics that follow the calls.

  \<^item> Random_Generator (TH/THRandom.cpp, \<open>randperm\<close> of ATen/native/TensorFactories.cpp): the in-place generator produces the
  sequence of the Mersenne twister's recurrence. The floating-point distributions are not modelled.

  \<^item> Samplers, Sampler_Contracts (torch/csrc/api/src/data/samplers): the contract of a sampler is the locale \<open>sampler\<close>, that
  of one that hands out indices the locale \<open>index_sampler\<close>; all samplers of the library are interpretations. Epochs visit
  each index once, the replicas of a distributed sampler share a dataset, save and load are inverse.

  \<^item> Data_Loader, Loader_Correctness (torch/csrc/api/include/torch/data): the queues, sequencers and threads of the data
  loader. The source of requests is a locale, interpreted by the stateless loader over the samplers; under every
  interleaving the ordered loader delivers each batch in order, and \<open>next\<close> always returns. Chunk_Buffer
  (datasets/chunk.h): every example of a chunk ends up in exactly one batch.

  \<^item> Device_Guards, Guard_Contracts (c10/core/impl): the guards over any implementation of \<open>DeviceGuardImplInterface\<close>. The
  documented behaviour of an implementation is the locale \<open>guard_provider\<close>, with \<open>stream_provider\<close> for streams; the
  guards restore device and stream on every path. Cuda_Streams, Stream_Properties (c10/cuda/CUDAStream.cpp,
  impl/CUDAGuardImpl.h): the CUDA implementation is an interpretation, given a contract of the runtime, and the pools
  hand out their streams in turn.

  \<^item> Thread_Pool (c10/core/thread_pool): each task runs once; a pool with tasks makes progress.

  \<^item> Left_Right (c10/util/LeftRight.h): no reader sees an instance that is being written, a write takes effect at one step,
  writers can always finish, and the destructor waits for everybody. The write functions are arbitrary; where their second
  call must repeat the first, the runs are restricted to those (\<open>repeatable\<close>). The counters are 32-bit integers.

  \<^item> Intrusive_Ptr, Intrusive_Ptr_Threads (c10/util/intrusive_ptr.h): strong and weak references over a heap of counted
  objects. A program that uses only references it owns runs without an error, and an object lives as long as somebody
  refers to it; shared by several threads, a deleted object is never referred to, with one exception that is a flaw of
  the code: \<open>release_resources\<close> can run after another thread has deleted the object.

  \<^item> Autograd (torch/csrc/autograd/engine.cpp, input_buffer.cpp): graphs of functions, validation of gradients, hooks, the
  dependency counts, captures, ready queues and workers. Autograd_Routing shows that the counts are the numbers of
  incoming edges and follows the gradients through \<open>evaluate_function\<close>; Autograd_Runs has the invariant of a run and its
  measure; Autograd_Needed the traversal of \<open>init_to_execute\<close>; Autograd_Properties the results: a backward pass ends,
  calls each reachable function once, after its predecessors and with their gradients summed, or throws the first error.

  \<^bold>\<open>Loops and fuel.\<close> Loops whose termination is not structural are \<open>function\<close> with a measure, or \<open>partial_function\<close> into
  \<open>option\<close>; of the latter it is proved that they return (the walk over neighbouring blocks in the allocator, the
  dependency traversal and the stack of the autograd engine). \<open>sample_epoch\<close> takes as fuel a number of batches, and it is
  shown that one more than the number of indices left is enough; the loop that cuts a chunk into batches uses the length
  of the chunk, since each round removes at least one example. Runs of the thread pool, the loader and the engine have
  measures that bound them.

  \<^bold>\<open>Not modelled.\<close> Tensor and storage objects, variables and numeric kernels (heap objects with virtual dispatch and
  floating-point arithmetic), the JIT, the Python bindings, the distributed package and Caffe2. Within the modelled
  parts: reentrant calls of the autograd engine, final callbacks and release of saved variables; \<open>StatefulDataLoader\<close> and
  the preloader threads of the chunk dataset; \<open>getIpcDevPtr\<close>; formatting of error messages; out-of-memory conditions of
  the C++ allocator; memory orders weaker than sequential consistency, which the code does not use in these parts.
\<close>

end
